(* ===== verification/Prelude.thy ===== *)
theory Prelude
  imports Complex_Main "HOL-Library.Word"
begin

unbundle bit_operations_syntax

text \<open>
  The shared prelude of the development: the machine types the Rust sources use, results,
  time, and the generic lemmas on lists, options and words the components rely on.

  Machine integers are words: \<open>u8\<close>, \<open>u16\<close>, \<open>u32\<close>, \<open>u64\<close>; \<open>usize\<close> is 64 bits wide (the
  benchmark's targets are 64-bit). Addition and multiplication on them wrap, which is what the
  release builds of the crates do. A point in time (\<open>std::time::Instant\<close>, \<open>tokio::time::Instant\<close>)
  and a \<open>Duration\<close> are natural numbers of nanoseconds; subtraction on \<open>nat\<close> stops at zero, which
  is exactly \<open>saturating_duration_since\<close>.
\<close>

named_theorems rust_simps \<open>rewrite rules for the modelled parts of the Rust standard library\<close>
named_theorems conn_simps \<open>how the connection handlers change the fields of a connection\<close>
named_theorems conn_inv_intros \<open>the connection handlers keep the connection invariant\<close>
named_theorems pool_inv_intros \<open>the pool operations keep the pool invariant\<close>

type_synonym u8 = "8 word"
type_synonym u16 = "16 word"
type_synonym u32 = "32 word"
type_synonym u64 = "64 word"
type_synonym usize = "64 word"
type_synonym bytes = "u8 list"
type_synonym instant = nat
type_synonym duration = nat

text \<open>Rust's \<open>Result\<close>: the error on the left, the value on the right.\<close>

type_synonym ('a, 'e) result = "'e + 'a"

abbreviation Ok :: "'a \<Rightarrow> ('a, 'e) result" where
  "Ok \<equiv> Inr"

abbreviation Err :: "'e \<Rightarrow> ('a, 'e) result" where
  "Err \<equiv> Inl"

text \<open>The result of code that may panic.\<close>

datatype 'a rust = Ret 'a | Panic

definition from_millis :: "nat \<Rightarrow> duration" where
  "from_millis n = n * 1000000"

definition from_secs :: "nat \<Rightarrow> duration" where
  "from_secs n = n * 1000000000"

definition as_millis :: "duration \<Rightarrow> nat" where
  "as_millis d = d div 1000000"

definition as_micros :: "duration \<Rightarrow> nat" where
  "as_micros d = d div 1000"

lemma as_millis_from_millis [simp, rust_simps]: "as_millis (from_millis n) = n"
  by (simp add: as_millis_def from_millis_def)

subsection \<open>Iterator combinators\<close>

text \<open>\<open>Iterator::find_map\<close>, \<open>Iterator::position\<close>, \<open>windows(n).position(|w| w == pat)\<close>.\<close>

fun find_map :: "('a \<Rightarrow> 'b option) \<Rightarrow> 'a list \<Rightarrow> 'b option" where
  "find_map f [] = None"
| "find_map f (x # xs) = (case f x of Some y \<Rightarrow> Some y | None \<Rightarrow> find_map f xs)"

fun position :: "('a \<Rightarrow> bool) \<Rightarrow> 'a list \<Rightarrow> nat option" where
  "position P [] = None"
| "position P (x # xs) = (if P x then Some 0 else map_option Suc (position P xs))"

fun find_sub :: "'a list \<Rightarrow> 'a list \<Rightarrow> nat option" where
  "find_sub p [] = (if p = [] then Some 0 else None)"
| "find_sub p (x # xs) =
     (if take (length p) (x # xs) = p then Some 0 else map_option Suc (find_sub p xs))"

lemma find_map_Some: "find_map f xs = Some y \<Longrightarrow> \<exists>x \<in> set xs. f x = Some y"
  by (induction xs) (auto split: option.splits)

lemma find_map_None: "find_map f xs = None \<longleftrightarrow> (\<forall>x \<in> set xs. f x = None)"
  by (induction xs) (auto split: option.splits)

lemma find_map_append: "find_map f (xs @ ys) = (case find_map f xs of Some y \<Rightarrow> Some y | None \<Rightarrow> find_map f ys)"
  by (induction xs) (auto split: option.splits)

lemma position_SomeD:
  "position P xs = Some i \<Longrightarrow> i < length xs \<and> P (xs ! i) \<and> (\<forall>j < i. \<not> P (xs ! j))"
proof (induction xs arbitrary: i)
  case Nil
  then show ?case by simp
next
  case (Cons x xs)
  show ?case
  proof (cases "P x")
    case True
    with Cons.prems show ?thesis by simp
  next
    case False
    with Cons.prems obtain k where "position P xs = Some k" and "i = Suc k"
      by auto
    with Cons.IH [of k] False show ?thesis
      by (auto simp: less_Suc_eq_0_disj)
  qed
qed

lemma position_NoneD: "position P xs = None \<Longrightarrow> x \<in> set xs \<Longrightarrow> \<not> P x"
  by (induction xs) (auto split: if_splits)

lemma find_sub_SomeD:
  "find_sub p xs = Some i \<Longrightarrow> i + length p \<le> length xs \<and> take (length p) (drop i xs) = p"
proof (induction xs arbitrary: i)
  case Nil
  then show ?case by (auto split: if_splits)
next
  case (Cons x xs)
  show ?case
  proof (cases "take (length p) (x # xs) = p")
    case True
    then have "length p \<le> length (x # xs)"
      by (metis length_take min.cobounded1)
    with True Cons.prems show ?thesis by simp
  next
    case False
    with Cons.prems obtain k where "find_sub p xs = Some k" and "i = Suc k"
      by auto
    with Cons.IH [of k] show ?thesis by simp
  qed
qed

lemma find_sub_least:
  "find_sub p xs = Some i \<Longrightarrow> j < i \<Longrightarrow> take (length p) (drop j xs) \<noteq> p"
proof (induction xs arbitrary: i j)
  case Nil
  then show ?case by (auto split: if_splits)
next
  case (Cons x xs)
  then show ?case
    by (cases j) (auto split: if_splits)
qed

text \<open>Appending data never moves the first occurrence of a pattern.\<close>

lemma find_sub_append:
  assumes "find_sub p xs = Some i"
  shows "find_sub p (xs @ ys) = Some i"
  using assms
proof (induction xs arbitrary: i)
  case Nil
  then show ?case by (cases ys) (auto split: if_splits)
next
  case (Cons x xs)
  show ?case
  proof (cases "take (length p) (x # xs) = p")
    case True
    then have le: "length p \<le> length (x # xs)"
      by (metis length_take min.cobounded1)
    then have "take (length p) ((x # xs) @ ys) = take (length p) (x # xs)"
      by (simp only: take_append) simp
    with True Cons.prems show ?thesis by auto
  next
    case False
    with Cons.prems obtain k where k: "find_sub p xs = Some k" "i = Suc k"
      by auto
    have "take (length p) ((x # xs) @ ys) \<noteq> p"
    proof
      assume eq: "take (length p) ((x # xs) @ ys) = p"
      from k(1) have "length p \<le> length xs"
        using find_sub_SomeD by fastforce
      then have "take (length p) ((x # xs) @ ys) = take (length p) (x # xs)"
        by (simp only: take_append) simp
      with eq False show False by simp
    qed
    with Cons.IH [OF k(1)] k(2) show ?thesis by simp
  qed
qed

subsection \<open>Lists of consecutive words\<close>

text \<open>
  \<open>seq_from a n\<close> is \<open>a, a + 1, \<dots>, a + n - 1\<close> with the wrap-around of the word type: the
  sequence numbers a connection assigns to \<open>n\<close> frames in a row.
\<close>

definition seq_from :: "'a::len word \<Rightarrow> nat \<Rightarrow> 'a word list" where
  "seq_from a n = map (\<lambda>k. a + of_nat k) [0..<n]"

lemma length_seq_from [simp]: "length (seq_from a n) = n"
  by (simp add: seq_from_def)

lemma seq_from_0 [simp]: "seq_from a 0 = []"
  by (simp add: seq_from_def)

lemma seq_from_nth [simp]: "k < n \<Longrightarrow> seq_from a n ! k = a + of_nat k"
  by (simp add: seq_from_def)

lemma seq_from_Suc: "seq_from a (Suc n) = seq_from a n @ [a + of_nat n]"
  by (simp add: seq_from_def)

lemma seq_from_append: "seq_from a m @ seq_from (a + of_nat m) n = seq_from a (m + n)"
  by (rule nth_equalityI) (auto simp: nth_append algebra_simps)

lemma hd_seq_from: "0 < n \<Longrightarrow> hd (seq_from a n) = a"
  by (simp add: seq_from_def hd_map)

lemma last_seq_from: "0 < n \<Longrightarrow> last (seq_from a n) = a + of_nat n - 1"
  by (cases n) (simp_all add: seq_from_Suc)

lemma seq_from_Nil [simp]: "seq_from a n = [] \<longleftrightarrow> n = 0"
  by (simp add: seq_from_def)

lemma distinct_seq_from:
  assumes "n \<le> 2 ^ LENGTH('a)"
  shows "distinct (seq_from (a :: 'a::len word) n)"
proof -
  have "inj_on (\<lambda>k. a + of_nat k) {0..<n}"
  proof (rule inj_onI)
    fix i j assume ij: "i \<in> {0..<n}" "j \<in> {0..<n}" and "a + of_nat i = a + of_nat j"
    then have "(of_nat i :: 'a word) = of_nat j" by simp
    then have "unat (of_nat i :: 'a word) = unat (of_nat j :: 'a word)" by simp
    with ij assms show "i = j" by (simp add: unat_of_nat)
  qed
  then show ?thesis by (simp add: seq_from_def distinct_map)
qed

lemma seq_from_one_mem: "1 \<le> k \<Longrightarrow> k \<le> n \<Longrightarrow> of_nat k \<in> set (seq_from 1 n)"
  by (auto simp: seq_from_def image_iff intro!: bexI [of _ "k - 1"] simp flip: of_nat_Suc)

lemma unat_succ:
  fixes l :: "'a::len word"
  assumes "l + 1 \<noteq> 0"
  shows "unat (l + 1) = unat l + 1"
proof -
  have m: "unat (l + 1) = (unat l + 1) mod 2 ^ LENGTH('a)" by (simp add: unat_word_ariths)
  have "unat l < 2 ^ LENGTH('a)" by (rule unsigned_less)
  moreover have "unat l + 1 \<noteq> 2 ^ LENGTH('a)"
  proof
    assume "unat l + 1 = 2 ^ LENGTH('a)"
    then have "unat (l + 1) = 0" by (simp only: m mod_self)
    with assms show False by (simp add: unat_eq_0)
  qed
  ultimately show ?thesis unfolding m by (intro mod_less) linarith
qed

lemma word_succ_le:
  fixes l :: "'a::len word"
  assumes "l + 1 \<noteq> 0" and "l + 1 \<le> n"
  shows "l < n" and "unat (n - (l + 1)) + 1 = unat n - unat l"
proof -
  have u: "unat (l + 1) = unat l + 1" using assms(1) by (rule unat_succ)
  then show lt: "l < n" using assms(2) by (simp add: word_le_nat_alt word_less_nat_alt)
  have "unat (n - (l + 1)) = unat n - unat (l + 1)" using assms(2) by (rule unat_sub)
  then show "unat (n - (l + 1)) + 1 = unat n - unat l"
    using u lt assms(2) by (simp add: word_le_nat_alt word_less_nat_alt)
qed

end
