(* ===== verification/F64.thy ===== *)
theory F64
  imports Prelude
begin

text \<open>
  IEEE 754 binary64, as far as the crates use \<open>f64\<close>: integer conversion, the four arithmetic
  operations, \<open>sqrt\<close>, comparisons, \<open>abs\<close>, \<open>max\<close>, \<open>is_finite\<close>. A finite double is the
  pair of an integer significand and an exponent, \<open>m * 2 ^ e\<close>, in the unique canonical form
  (\<open>f64_canon\<close>); every operation computes its exact result as a ratio of integers and rounds it
  once, to nearest with ties to even (\<open>round_ratio\<close>). The sign of a zero is not represented:
  no operation the crates perform tells the two zeros apart.
\<close>

datatype f64 = Finite int int | Infinity bool | NaN

fun bits :: "nat \<Rightarrow> nat" where
  "bits n = (if n = 0 then 0 else Suc (bits (n div 2)))"

declare bits.simps [simp del]

definition scale_num :: "int \<Rightarrow> nat \<Rightarrow> nat" where
  "scale_num e a = a * 2 ^ nat (- e)"

definition scale_den :: "int \<Rightarrow> nat \<Rightarrow> nat" where
  "scale_den e d = d * 2 ^ nat e"

text \<open>Round the ratio \<open>n / d\<close> to the nearest integer, ties to even.\<close>

definition rne :: "nat \<Rightarrow> nat \<Rightarrow> nat" where
  "rne n d =
     (let q = n div d; r = n mod d
      in if d < 2 * r \<or> (2 * r = d \<and> odd q) then Suc q else q)"

text \<open>The exponent at which \<open>a / d\<close> has a 53-bit significand (or the subnormal exponent).\<close>

definition expo0 :: "nat \<Rightarrow> nat \<Rightarrow> int" where
  "expo0 a d =
     (let e = int (bits a) - int (bits d) - 53
      in if scale_num e a div scale_den e d < 2 ^ 53 then e else e + 1)"

definition expo :: "nat \<Rightarrow> nat \<Rightarrow> int" where
  "expo a d = max (- 1074) (expo0 a d)"

definition round_mag :: "nat \<Rightarrow> nat \<Rightarrow> nat \<times> int" where
  "round_mag a d =
     (let e = expo a d; q = rne (scale_num e a) (scale_den e d)
      in if q = 2 ^ 53 then (2 ^ 52, e + 1) else (q, e))"

definition f64_zero :: f64 where
  "f64_zero = Finite 0 (- 1074)"

definition round_ratio :: "int \<Rightarrow> nat \<Rightarrow> f64" where
  "round_ratio n d =
     (if n = 0 then f64_zero
      else case round_mag (nat \<bar>n\<bar>) d of (q, e) \<Rightarrow>
        if 971 < e then Infinity (n < 0)
        else if q = 0 then f64_zero
        else Finite (sgn n * int q) e)"

definition f64_of_int :: "int \<Rightarrow> f64" where
  "f64_of_int n = round_ratio n 1"

definition fin_num :: "int \<Rightarrow> int \<Rightarrow> int" where
  "fin_num m e = m * 2 ^ nat e"

definition fin_den :: "int \<Rightarrow> nat" where
  "fin_den e = 2 ^ nat (- e)"

fun f64_neg :: "f64 \<Rightarrow> f64" where
  "f64_neg (Finite m e) = Finite (- m) e"
| "f64_neg (Infinity s) = Infinity (\<not> s)"
| "f64_neg NaN = NaN"

fun f64_abs :: "f64 \<Rightarrow> f64" where
  "f64_abs (Finite m e) = Finite \<bar>m\<bar> e"
| "f64_abs (Infinity s) = Infinity False"
| "f64_abs NaN = NaN"

fun f64_add :: "f64 \<Rightarrow> f64 \<Rightarrow> f64" where
  "f64_add (Finite m1 e1) (Finite m2 e2) =
     round_ratio (fin_num m1 e1 * int (fin_den e2) + fin_num m2 e2 * int (fin_den e1))
       (fin_den e1 * fin_den e2)"
| "f64_add (Infinity s) (Infinity t) = (if s = t then Infinity s else NaN)"
| "f64_add (Infinity s) (Finite _ _) = Infinity s"
| "f64_add (Finite _ _) (Infinity s) = Infinity s"
| "f64_add _ _ = NaN"

definition f64_sub :: "f64 \<Rightarrow> f64 \<Rightarrow> f64" where
  "f64_sub x y = f64_add x (f64_neg y)"

fun f64_mul :: "f64 \<Rightarrow> f64 \<Rightarrow> f64" where
  "f64_mul (Finite m1 e1) (Finite m2 e2) =
     round_ratio (fin_num m1 e1 * fin_num m2 e2) (fin_den e1 * fin_den e2)"
| "f64_mul (Infinity s) (Infinity t) = Infinity (s \<noteq> t)"
| "f64_mul (Infinity s) (Finite m _) = (if m = 0 then NaN else Infinity (s \<noteq> (m < 0)))"
| "f64_mul (Finite m _) (Infinity s) = (if m = 0 then NaN else Infinity (s \<noteq> (m < 0)))"
| "f64_mul _ _ = NaN"

fun f64_div :: "f64 \<Rightarrow> f64 \<Rightarrow> f64" where
  "f64_div (Finite m1 e1) (Finite m2 e2) =
     (if m2 = 0 then (if m1 = 0 then NaN else Infinity (m1 < 0))
      else round_ratio (sgn m2 * fin_num m1 e1 * int (fin_den e2))
             (fin_den e1 * nat \<bar>fin_num m2 e2\<bar>))"
| "f64_div (Finite _ _) (Infinity _) = f64_zero"
| "f64_div (Infinity s) (Finite m _) = Infinity (s \<noteq> (m < 0))"
| "f64_div _ _ = NaN"

fun f64_le :: "f64 \<Rightarrow> f64 \<Rightarrow> bool" where
  "f64_le (Finite m1 e1) (Finite m2 e2) =
     (fin_num m1 e1 * int (fin_den e2) \<le> fin_num m2 e2 * int (fin_den e1))"
| "f64_le (Infinity s) (Infinity t) = (s \<or> \<not> t)"
| "f64_le (Infinity s) (Finite _ _) = s"
| "f64_le (Finite _ _) (Infinity s) = (\<not> s)"
| "f64_le _ _ = False"

definition f64_lt :: "f64 \<Rightarrow> f64 \<Rightarrow> bool" where
  "f64_lt x y \<longleftrightarrow> f64_le x y \<and> \<not> f64_le y x"

text \<open>\<open>f64::max\<close>: a NaN operand loses.\<close>

definition f64_max :: "f64 \<Rightarrow> f64 \<Rightarrow> f64" where
  "f64_max x y = (if x = NaN then y else if y = NaN then x else if f64_le x y then y else x)"

fun is_finite :: "f64 \<Rightarrow> bool" where
  "is_finite (Finite _ _) = True"
| "is_finite _ = False"

text \<open>The integer square root, digit by digit in base four.\<close>

fun isqrt :: "nat \<Rightarrow> nat" where
  "isqrt n =
     (if n = 0 then 0
      else let r = 2 * isqrt (n div 4) in if (r + 1) * (r + 1) \<le> n then r + 1 else r)"

declare isqrt.simps [simp del]

text \<open>
  \<open>sqrt\<close>: scale the significand to an even exponent and by \<open>4 ^ 54\<close>, take the integer root,
  and append a sticky bit for the remainder; the root has more than 54 bits, so rounding the
  sticky value once is the correctly rounded root.
\<close>

fun f64_sqrt :: "f64 \<Rightarrow> f64" where
  "f64_sqrt (Finite m e) =
     (if m < 0 then NaN
      else let (m', e') = (if even e then (nat m, e) else (2 * nat m, e - 1));
               M = m' * 4 ^ 54; n = isqrt M;
               s = 2 * n + (if n * n = M then 0 else 1);
               E = e' div 2 - 55
           in round_ratio (fin_num (int s) E) (fin_den E))"
| "f64_sqrt (Infinity s) = (if s then NaN else Infinity False)"
| "f64_sqrt NaN = NaN"

text \<open>\<open>Duration::as_secs_f64() * 1000.0\<close>, the milliseconds every latency field carries.\<close>

definition as_secs_f64 :: "duration \<Rightarrow> f64" where
  "as_secs_f64 d =
     f64_add (f64_of_int (int (d div 1000000000)))
       (f64_div (f64_of_int (int (d mod 1000000000))) (f64_of_int 1000000000))"

definition as_ms_f64 :: "duration \<Rightarrow> f64" where
  "as_ms_f64 d = f64_mul (as_secs_f64 d) (f64_of_int 1000)"

subsection \<open>Specification: the real value of a double\<close>

fun f64_val :: "f64 \<Rightarrow> real" where
  "f64_val (Finite m e) = real_of_int m * 2 powr real_of_int e"
| "f64_val _ = 0"

fun f64_canon :: "f64 \<Rightarrow> bool" where
  "f64_canon (Finite m e) \<longleftrightarrow>
     - 1074 \<le> e \<and> e \<le> 971 \<and> \<bar>m\<bar> < 2 ^ 53 \<and> (2 ^ 52 \<le> \<bar>m\<bar> \<or> e = - 1074)"
| "f64_canon _ = True"

subsection \<open>Rounding\<close>

lemma bits_bounds: "0 < n \<Longrightarrow> 2 ^ (bits n - 1) \<le> n \<and> n < 2 ^ bits n \<and> 0 < bits n"
proof (induction n rule: bits.induct)
  case (1 n)
  show ?case
  proof (cases "n div 2 = 0")
    case True
    with 1 have "n = 1" by auto
    then show ?thesis by (simp add: bits.simps)
  next
    case False
    with 1 have IH: "2 ^ (bits (n div 2) - 1) \<le> n div 2" "n div 2 < 2 ^ bits (n div 2)"
      "0 < bits (n div 2)" by auto
    from 1(2) have b: "bits n = Suc (bits (n div 2))"
      by (simp add: bits.simps [of n])
    have "(2::nat) ^ bits (n div 2) = 2 * 2 ^ (bits (n div 2) - 1)"
      using IH(3) by (cases "bits (n div 2)") auto
    with IH(1) have "2 ^ bits (n div 2) \<le> n" by linarith
    moreover have "n < 2 * 2 ^ bits (n div 2)" using IH(2) by linarith
    ultimately show ?thesis by (simp add: b)
  qed
qed

lemma scale_ratio:
  "real (scale_num e a) / real (scale_den e d) = real a / real d * 2 powr (- real_of_int e)"
proof (cases "0 \<le> e")
  case True
  then have "2 powr (- real_of_int e) = 1 / 2 ^ nat e"
    by (simp add: powr_minus_divide powr_real_of_int)
  then show ?thesis using True by (simp add: scale_num_def scale_den_def)
next
  case False
  then have "2 powr (- real_of_int e) = 2 ^ nat (- e)"
    using powr_int [of 2 "- e"] by simp
  then show ?thesis using False by (simp add: scale_num_def scale_den_def)
qed

lemma scale_den_pos: "0 < d \<Longrightarrow> 0 < scale_den e d"
  by (simp add: scale_den_def)

lemma rne_bounds:
  assumes "0 < d"
  shows "\<bar>real (rne n d) - real n / real d\<bar> \<le> 1 / 2"
    and "n div d \<le> rne n d" and "rne n d \<le> n div d + 1"
proof -
  have n: "real n / real d = real (n div d) + real (n mod d) / real d"
  proof -
    have "real n = real (n div d) * real d + real (n mod d)"
      by (metis div_mult_mod_eq of_nat_add of_nat_mult)
    then show ?thesis using assms by (simp add: field_simps)
  qed
  have r: "n mod d < d" using assms by simp
  then have "real (n mod d) / real d < 1" by simp
  moreover have "d < 2 * (n mod d) \<Longrightarrow> 1 / 2 \<le> real (n mod d) / real d"
    using assms by (simp add: field_simps)
  moreover have "2 * (n mod d) = d \<Longrightarrow> real (n mod d) / real d = 1 / 2"
    using assms by (simp add: field_simps)
  moreover have "\<not> d < 2 * (n mod d) \<Longrightarrow> real (n mod d) / real d \<le> 1 / 2"
    using assms by (simp add: field_simps)
  ultimately show "\<bar>real (rne n d) - real n / real d\<bar> \<le> 1 / 2"
    unfolding rne_def Let_def n by auto
  show "n div d \<le> rne n d" and "rne n d \<le> n div d + 1"
    by (auto simp: rne_def Let_def)
qed

lemma bits_powr:
  assumes "0 < n"
  shows "2 powr (real (bits n) - 1) \<le> real n" and "real n < 2 powr real (bits n)"
proof -
  note b = bits_bounds [OF assms]
  have "2 powr (real (bits n) - 1) = real (2 ^ (bits n - 1))"
    using b by (simp add: of_nat_diff flip: powr_realpow)
  also have "\<dots> \<le> real n" using b by (simp only: of_nat_le_iff)
  finally show "2 powr (real (bits n) - 1) \<le> real n" .
  have "real n < real (2 ^ bits n)" using b by (simp only: of_nat_less_iff)
  also have "\<dots> = 2 powr real (bits n)" by (simp add: powr_realpow)
  finally show "real n < 2 powr real (bits n)" .
qed

text \<open>Away from the subnormal range the scaled ratio is a 53-bit number.\<close>

lemma expo0_bounds:
  assumes a: "0 < a" and d: "0 < d"
  defines "x \<equiv> real a / real d * 2 powr (- real_of_int (expo0 a d))"
  shows "2 ^ 52 \<le> x" and "x < 2 ^ 53"
proof -
  define e where "e = int (bits a) - int (bits d) - 53"
  define y where "y = real a / real d * 2 powr (- real_of_int e)"
  define A where "A = real (bits a)"
  define D where "D = real (bits d)"
  note ab = bits_powr [OF a, folded A_def] and db = bits_powr [OF d, folded D_def]
  have e: "real_of_int e = A - D - 53" by (simp add: e_def A_def D_def)
  have dpos: "0 < real d" using d by simp
  have lo: "2 powr (A - 1) / 2 powr D \<le> real a / real d"
    by (rule frac_le) (use ab db dpos in auto)
  have hi: "real a / real d < 2 powr A / 2 powr (D - 1)"
    by (rule frac_less) (use ab db dpos a in auto)
  have "2 powr (A - 1) / 2 powr D * 2 powr (- real_of_int e) \<le> y"
    unfolding y_def by (rule mult_right_mono [OF lo]) simp
  then have y1: "2 ^ 52 \<le> y"
    by (simp add: e flip: powr_diff powr_add)
  have "y < 2 powr A / 2 powr (D - 1) * 2 powr (- real_of_int e)"
    unfolding y_def by (rule mult_strict_right_mono [OF hi]) simp
  then have y2: "y < 2 ^ 54"
    by (simp add: e flip: powr_diff powr_add)
  define q where "q = scale_num e a div scale_den e d"
  have y: "y = real (scale_num e a) / real (scale_den e d)"
    by (simp add: y_def scale_ratio)
  have q: "q < 2 ^ 53 \<longleftrightarrow> y < 2 ^ 53"
  proof -
    have "q < 2 ^ 53 \<longleftrightarrow> scale_num e a < 2 ^ 53 * scale_den e d"
      unfolding q_def by (rule div_less_iff_less_mult) (simp add: scale_den_pos d)
    also have "\<dots> \<longleftrightarrow> real (scale_num e a) < 2 ^ 53 * real (scale_den e d)"
      by (metis (mono_tags, lifting) of_nat_less_iff of_nat_mult of_nat_numeral of_nat_power)
    also have "\<dots> \<longleftrightarrow> y < 2 ^ 53"
      using scale_den_pos [OF d, of e] by (simp add: y field_simps)
    finally show ?thesis .
  qed
  have x: "x = (if q < 2 ^ 53 then y else y / 2)"
    by (simp add: x_def expo0_def Let_def q_def y_def flip: e_def) (simp add: powr_diff powr_minus field_simps)
  show "2 ^ 52 \<le> x" and "x < 2 ^ 53"
    unfolding x using y1 y2 q by auto
qed

lemma scaled_lt:
  assumes "0 < a" and "0 < d"
  shows "real (scale_num (expo a d) a) / real (scale_den (expo a d) d) < 2 ^ 53"
proof -
  have "2 powr (- real_of_int (expo a d)) \<le> 2 powr (- real_of_int (expo0 a d))"
    by (simp add: expo_def)
  then have "real a / real d * 2 powr (- real_of_int (expo a d))
      \<le> real a / real d * 2 powr (- real_of_int (expo0 a d))"
    by (rule mult_left_mono) simp
  with expo0_bounds(2) [OF assms] show ?thesis by (simp add: scale_ratio)
qed

lemma scaled_ge:
  assumes "0 < a" and "0 < d" and "expo a d \<noteq> - 1074"
  shows "2 ^ 52 \<le> real (scale_num (expo a d) a) / real (scale_den (expo a d) d)"
proof -
  from assms(3) have "expo a d = expo0 a d"
    unfolding expo_def by (metis max_def)
  with expo0_bounds(1) [OF assms(1,2)] show ?thesis by (simp add: scale_ratio)
qed

lemma div_lt_pow53:
  assumes "0 < a" and "0 < d"
  shows "scale_num (expo a d) a div scale_den (expo a d) d < 2 ^ 53"
proof -
  have "real (scale_num (expo a d) a div scale_den (expo a d) d) < 2 ^ 53"
    using scaled_lt [OF assms] of_nat_div_le_of_nat [where ?'a = real, of "scale_num (expo a d) a" "scale_den (expo a d) d"]
    by linarith
  then show ?thesis
    by (metis (mono_tags, lifting) of_nat_less_iff of_nat_numeral of_nat_power)
qed

lemma div_ge_pow52:
  assumes "0 < a" and "0 < d" and "expo a d \<noteq> - 1074"
  shows "2 ^ 52 \<le> scale_num (expo a d) a div scale_den (expo a d) d"
proof -
  have pos: "0 < scale_den (expo a d) d" using assms(2) by (rule scale_den_pos)
  have "2 ^ 52 * real (scale_den (expo a d) d) \<le> real (scale_num (expo a d) a)"
    using scaled_ge [OF assms] pos by (simp add: field_simps)
  then have "2 ^ 52 * scale_den (expo a d) d \<le> scale_num (expo a d) a"
    by (metis (mono_tags, lifting) of_nat_le_iff of_nat_mult of_nat_numeral of_nat_power)
  with pos show ?thesis by (simp add: less_eq_div_iff_mult_less_eq)
qed

text \<open>The rounded magnitude is canonical and within half a unit in the last place.\<close>

lemma round_mag_canon:
  assumes "0 < a" and "0 < d" and "round_mag a d = (q, e)"
  shows "q < 2 ^ 53" and "2 ^ 52 \<le> q \<or> e = - 1074" and "- 1074 \<le> e"
proof -
  define n where "n = scale_num (expo a d) a"
  define m where "m = scale_den (expo a d) d"
  have m: "0 < m" using assms(2) by (simp add: m_def scale_den_pos)
  have qe: "(q, e) = (if rne n m = 2 ^ 53 then (2 ^ 52, expo a d + 1) else (rne n m, expo a d))"
    using assms(3) unfolding round_mag_def Let_def n_def m_def by (rule sym)
  have le: "rne n m \<le> 2 ^ 53"
    using rne_bounds(3) [OF m, of n] div_lt_pow53 [OF assms(1,2)] by (simp add: n_def m_def)
  have ge: "expo a d \<noteq> - 1074 \<Longrightarrow> 2 ^ 52 \<le> rne n m"
    using rne_bounds(2) [OF m, of n] div_ge_pow52 [OF assms(1,2)] by (simp add: n_def m_def)
  have lo: "- 1074 \<le> expo a d" by (simp add: expo_def)
  show "q < 2 ^ 53" using qe le by (auto split: if_splits)
  show "2 ^ 52 \<le> q \<or> e = - 1074" using qe ge by (auto split: if_splits)
  show "- 1074 \<le> e" using qe lo by (auto split: if_splits)
qed

lemma round_mag_error:
  assumes "0 < a" and "0 < d" and "round_mag a d = (q, e)"
  shows "\<bar>real q * 2 powr real_of_int e - real a / real d\<bar> \<le> 2 powr (real_of_int (expo a d) - 1)"
proof -
  define n where "n = scale_num (expo a d) a"
  define m where "m = scale_den (expo a d) d"
  define p where "p = 2 powr real_of_int (expo a d)"
  have m: "0 < m" using assms(2) by (simp add: m_def scale_den_pos)
  have p: "0 < p" by (simp add: p_def)
  have qe: "(q, e) = (if rne n m = 2 ^ 53 then (2 ^ 52, expo a d + 1) else (rne n m, expo a d))"
    using assms(3) unfolding round_mag_def Let_def n_def m_def by (rule sym)
  have v: "real q * 2 powr real_of_int e = real (rne n m) * p"
    using qe by (auto simp: p_def powr_add split: if_splits)
  have "real n / real m * p = real a / real d"
    using p by (simp add: n_def m_def scale_ratio p_def powr_minus field_simps)
  then have "real (rne n m) * p - real a / real d = (real (rne n m) - real n / real m) * p"
    by (simp add: left_diff_distrib)
  then have "\<bar>real (rne n m) * p - real a / real d\<bar> = \<bar>real (rne n m) - real n / real m\<bar> * p"
    using p by (simp add: abs_mult)
  also have "\<dots> \<le> 1 / 2 * p"
    by (rule mult_right_mono [OF rne_bounds(1) [OF m]]) (use p in simp)
  also have "\<dots> = 2 powr (real_of_int (expo a d) - 1)"
    by (simp add: p_def powr_diff)
  finally show ?thesis by (simp add: v)
qed

lemma round_ratio_canon:
  assumes "0 < d"
  shows "f64_canon (round_ratio n d)"
proof (cases "n = 0")
  case True
  then show ?thesis by (simp add: round_ratio_def f64_zero_def)
next
  case False
  obtain q e where qe: "round_mag (nat \<bar>n\<bar>) d = (q, e)" by fastforce
  from False have a: "0 < nat \<bar>n\<bar>" by simp
  note c = round_mag_canon [OF a assms qe]
  have "int q < 2 ^ 53"
    using c(1) by (metis of_nat_less_numeral_power_cancel_iff)
  moreover have "2 ^ 52 \<le> int q \<or> e = - 1074"
    using c(2) by (metis numeral_power_le_of_nat_cancel_iff)
  moreover have "\<bar>sgn n * int q\<bar> = int q"
    using False by (simp add: abs_mult)
  ultimately have "e \<le> 971 \<Longrightarrow> f64_canon (Finite (sgn n * int q) e)"
    using c(3) unfolding f64_canon.simps by presburger
  then show ?thesis
    using False qe by (auto simp: round_ratio_def f64_zero_def)
qed

text \<open>Rounding does not overflow below \<open>2 ^ 1023\<close>.\<close>

lemma round_ratio_finite:
  assumes "0 < d" and "\<bar>real_of_int n\<bar> / real d < 2 powr 1023"
  shows "is_finite (round_ratio n d)"
proof (cases "n = 0")
  case True
  then show ?thesis by (simp add: round_ratio_def f64_zero_def)
next
  case False
  define a where "a = nat \<bar>n\<bar>"
  obtain q e where qe: "round_mag a d = (q, e)" by fastforce
  from False have a: "0 < a" by (simp add: a_def)
  have ra: "real a = \<bar>real_of_int n\<bar>" by (simp add: a_def)
  have "expo a d \<le> 970"
  proof (cases "expo a d = - 1074")
    case False
    have "2 powr 52 \<le> real a / real d * 2 powr (- real_of_int (expo a d))"
      using scaled_ge [OF a assms(1) False] by (simp add: scale_ratio)
    also have "\<dots> < 2 powr 1023 * 2 powr (- real_of_int (expo a d))"
      by (rule mult_strict_right_mono) (use assms(2) ra in auto)
    finally have "2 powr 52 < 2 powr (1023 + - real_of_int (expo a d))"
      by (simp only: powr_add)
    then have "52 < 1023 + - real_of_int (expo a d)"
      by (subst (asm) powr_less_cancel_iff) auto
    then show ?thesis by linarith
  qed simp
  then have "e \<le> 971"
    using qe by (auto simp: round_mag_def Let_def split: if_splits)
  with False qe show ?thesis
    by (simp add: round_ratio_def f64_zero_def a_def [symmetric])
qed

text \<open>The value of a rounded ratio, and its error: half a unit in the last place.\<close>

lemma round_ratio_val:
  assumes "0 < d" and "n \<noteq> 0" and "round_mag (nat \<bar>n\<bar>) d = (q, e)" and "is_finite (round_ratio n d)"
  shows "f64_val (round_ratio n d) = sgn (real_of_int n) * (real q * 2 powr real_of_int e)"
  using assms by (auto simp: round_ratio_def f64_zero_def sgn_if split: if_splits)

lemma round_ratio_relerr:
  assumes d: "0 < d" and fin: "is_finite (round_ratio n d)" and nz: "n \<noteq> 0"
    and norm: "expo (nat \<bar>n\<bar>) d \<noteq> - 1074"
  shows "\<bar>f64_val (round_ratio n d) - real_of_int n / real d\<bar>
           \<le> \<bar>real_of_int n / real d\<bar> * 2 powr (- 53)"
proof -
  define a where "a = nat \<bar>n\<bar>"
  define p where "p = 2 powr real_of_int (expo a d)"
  obtain q e where qe: "round_mag a d = (q, e)" by fastforce
  have a: "0 < a" using nz by (simp add: a_def)
  have ra: "real a = \<bar>real_of_int n\<bar>" by (simp add: a_def)
  have p: "0 < p" by (simp add: p_def)
  have n: "real_of_int n = sgn (real_of_int n) * real a" by (simp add: ra sgn_mult_abs)
  have "f64_val (round_ratio n d) - real_of_int n / real d
      = sgn (real_of_int n) * (real q * 2 powr real_of_int e - real a / real d)"
    using round_ratio_val [OF d nz qe [unfolded a_def] fin] n by (simp add: right_diff_distrib)
  then have "\<bar>f64_val (round_ratio n d) - real_of_int n / real d\<bar>
      = \<bar>real q * 2 powr real_of_int e - real a / real d\<bar>"
    using nz by (simp add: abs_mult abs_sgn_eq)
  also have "\<dots> \<le> p / 2"
    using round_mag_error [OF a d qe] by (simp add: p_def powr_diff)
  also have "\<dots> \<le> real a / real d * 2 powr (- 53)"
  proof -
    have "2 ^ 52 \<le> real a / real d * (1 / p)"
      using scaled_ge [OF a d norm [folded a_def]]
      by (simp only: scale_ratio p_def powr_minus inverse_eq_divide)
    then have "2 ^ 52 \<le> (real a / real d) / p" by simp
    then have "2 ^ 52 * p \<le> real a / real d" by (simp only: pos_le_divide_eq [OF p])
    then show ?thesis by (simp add: powr_minus powr_numeral)
  qed
  finally show ?thesis by (simp add: ra)
qed

text \<open>Integers of at most 53 bits convert exactly.\<close>

lemma expo_int_le: "a < 2 ^ 53 \<Longrightarrow> 0 < a \<Longrightarrow> expo a 1 \<le> 0"
proof -
  assume lt: "a < 2 ^ 53" and pos: "0 < a"
  have "bits a \<le> 53"
  proof (rule ccontr)
    assume "\<not> bits a \<le> 53"
    then have "(2::nat) ^ 53 \<le> 2 ^ (bits a - 1)" by (intro power_increasing) auto
    with bits_bounds [OF pos] lt show False by linarith
  qed
  moreover have "bits 1 = 1" by (simp add: bits.simps)
  ultimately show ?thesis by (auto simp: expo_def expo0_def Let_def)
qed

lemma f64_of_int_exact:
  assumes "\<bar>n\<bar> < 2 ^ 53"
  shows "f64_val (f64_of_int n) = real_of_int n" and "is_finite (f64_of_int n)"
proof -
  show fin: "is_finite (f64_of_int n)"
  proof -
    have "\<bar>real_of_int n\<bar> < 2 ^ 53"
      using assms by (metis of_int_abs of_int_less_numeral_power_cancel_iff)
    also have "\<dots> \<le> 2 powr 1023" by (simp add: powr_numeral)
    finally show ?thesis unfolding f64_of_int_def by (intro round_ratio_finite) auto
  qed
  show "f64_val (f64_of_int n) = real_of_int n"
  proof (cases "n = 0")
    case True
    then show ?thesis by (simp add: f64_of_int_def round_ratio_def f64_zero_def)
  next
    case False
    define a where "a = nat \<bar>n\<bar>"
    obtain q e where qe: "round_mag a 1 = (q, e)" by fastforce
    have a: "0 < a" "a < 2 ^ 53" using assms False by (auto simp: a_def)
    have e0: "expo a 1 \<le> 0" by (rule expo_int_le [OF a(2,1)])
    then have den: "scale_den (expo a 1) 1 = 1" by (simp add: scale_den_def)
    have "rne (scale_num (expo a 1) a) 1 = scale_num (expo a 1) a" by (simp add: rne_def Let_def)
    moreover have "scale_num (expo a 1) a < 2 ^ 53"
      using div_lt_pow53 [of a 1] a den by simp
    ultimately have "q = scale_num (expo a 1) a" and "e = expo a 1"
      using qe den by (auto simp: round_mag_def Let_def)
    then have "real q * 2 powr real_of_int e = real a"
      using scale_ratio [of "expo a 1" a 1] den by (simp add: powr_minus field_simps)
    then show ?thesis
      using round_ratio_val [of 1 n q e] False fin qe
      by (simp add: f64_of_int_def a_def sgn_mult_abs)
  qed
qed

lemma f64_sub_self [rust_simps]: "is_finite x \<Longrightarrow> f64_sub x x = f64_zero"
  by (cases x) (simp_all add: f64_sub_def fin_num_def round_ratio_def)

lemma f64_zero_le_round_ratio [rust_simps]: "0 \<le> n \<Longrightarrow> f64_le f64_zero (round_ratio n d)"
  by (auto simp: round_ratio_def f64_zero_def fin_num_def fin_den_def split: prod.splits)

lemma f64_abs_zero [rust_simps]: "f64_abs f64_zero = f64_zero"
  by (simp add: f64_zero_def)

lemma f64_le_refl: "x \<noteq> NaN \<Longrightarrow> f64_le x x"
  by (cases x) auto

subsection \<open>The square root\<close>

lemma isqrt_spec: "isqrt n * isqrt n \<le> n \<and> n < (isqrt n + 1) * (isqrt n + 1)"
proof (induction n rule: isqrt.induct)
  case (1 n)
  show ?case
  proof (cases "n = 0")
    case True
    then show ?thesis by (simp add: isqrt.simps)
  next
    case False
    define k where "k = isqrt (n div 4)"
    from 1 [OF False] have k: "k * k \<le> n div 4" "n div 4 < (k + 1) * (k + 1)"
      by (simp_all add: k_def)
    have n: "n = 4 * (n div 4) + n mod 4" "n mod 4 < 4" by simp_all
    have eq: "isqrt n = (if (2 * k + 1) * (2 * k + 1) \<le> n then 2 * k + 1 else 2 * k)"
      using False by (subst isqrt.simps) (simp add: Let_def k_def)
    have "4 * (k * k) \<le> n" using k(1) n(1) by linarith
    moreover have "n < 4 * ((k + 1) * (k + 1))"
    proof -
      have "n div 4 + 1 \<le> (k + 1) * (k + 1)" using k(2) by linarith
      then have "4 * (n div 4) + 4 \<le> 4 * ((k + 1) * (k + 1))" by linarith
      with n show ?thesis by linarith
    qed
    ultimately show ?thesis unfolding eq by (simp add: algebra_simps)
  qed
qed

lemma f64_sqrt_finite:
  assumes "f64_canon (Finite m e)" and "0 \<le> m"
  shows "is_finite (f64_sqrt (Finite m e))"
proof -
  define m' where "m' = (if even e then nat m else 2 * nat m)"
  define e' where "e' = (if even e then e else e - 1)"
  define M where "M = m' * 4 ^ 54"
  define s where "s = 2 * isqrt M + (if isqrt M * isqrt M = M then 0 else 1)"
  define E where "E = e' div 2 - 55"
  have eq: "f64_sqrt (Finite m e) = round_ratio (fin_num (int s) E) (fin_den E)"
    using assms(2) by (simp add: m'_def e'_def M_def s_def E_def Let_def)
  have "nat m < 2 ^ 53" using assms by (simp add: nat_less_iff)
  then have "M < 2 ^ 54 * 4 ^ 54" by (auto simp: M_def m'_def)
  moreover have "(2::nat) ^ 54 * 4 ^ 54 = 2 ^ 81 * 2 ^ 81" by simp
  ultimately have lt: "M < 2 ^ 81 * 2 ^ 81" by linarith
  have "isqrt M < 2 ^ 81"
  proof (rule ccontr)
    assume "\<not> isqrt M < 2 ^ 81"
    then have "(2::nat) ^ 81 * 2 ^ 81 \<le> isqrt M * isqrt M" by (intro mult_le_mono) auto
    with isqrt_spec [of M] lt show False by linarith
  qed
  then have "real s \<le> 2 ^ 83"
  proof -
    have "s \<le> 2 ^ 83" using \<open>isqrt M < 2 ^ 81\<close> unfolding s_def by auto
    then show ?thesis by (metis of_nat_le_iff of_nat_numeral of_nat_power)
  qed
  moreover have "E \<le> 431" using assms(1) by (auto simp: E_def e'_def)
  moreover have "\<bar>real_of_int (fin_num (int s) E)\<bar> / real (fin_den E) = real s * 2 powr real_of_int E"
    by (cases "0 \<le> E") (simp_all add: fin_num_def fin_den_def powr_int)
  moreover have "2 powr real_of_int E \<le> 2 powr 431"
    using \<open>E \<le> 431\<close> by (intro powr_mono) auto
  ultimately have "\<bar>real_of_int (fin_num (int s) E)\<bar> / real (fin_den E) \<le> 2 ^ 83 * 2 powr 431"
    by (simp only:) (intro mult_mono, auto)
  also have "\<dots> < 2 powr 1023"
  proof -
    have "(2::real) ^ 83 * 2 powr 431 = 2 powr (83 + 431)"
      by (simp only: powr_add) (simp only: powr_numeral zero_less_numeral)
    also have "\<dots> < 2 powr 1023" by (subst powr_less_cancel_iff) auto
    finally show ?thesis .
  qed
  finally show ?thesis unfolding eq by (intro round_ratio_finite) (auto simp: fin_den_def)
qed

subsection \<open>Relative error of the operations\<close>

lemma expo_normal:
  assumes "0 < a" and "0 < d" and "2 powr (- 1000) \<le> real a / real d"
  shows "expo a d \<noteq> - 1074"
proof -
  have "2 powr (- 1000) * 2 powr (- real_of_int (expo0 a d)) < 2 powr 53"
    using expo0_bounds(2) [OF assms(1,2)] mult_right_mono [OF assms(3), of "2 powr (- real_of_int (expo0 a d))"]
    by (simp add: powr_numeral)
  then have "2 powr (- 1000 + - real_of_int (expo0 a d)) < 2 powr 53"
    by (simp only: powr_add)
  then have "- 1000 + - real_of_int (expo0 a d) < 53"
    by (subst (asm) powr_less_cancel_iff) auto
  then show ?thesis by (simp add: expo_def)
qed

lemma round_ratio_pos:
  assumes "0 < d" and "0 < n" and lo: "2 powr (- 1000) \<le> real_of_int n / real d"
    and hi: "real_of_int n / real d \<le> 2 powr 1000"
  shows "is_finite (round_ratio n d)"
    and "\<bar>f64_val (round_ratio n d) - real_of_int n / real d\<bar> \<le> real_of_int n / real d * 2 powr (- 53)"
    and "0 < f64_val (round_ratio n d)"
proof -
  have "\<bar>real_of_int n\<bar> / real d \<le> 2 powr 1000" using hi assms(2) by simp
  also have "\<dots> < 2 powr 1023" by (subst powr_less_cancel_iff) auto
  finally show fin: "is_finite (round_ratio n d)"
    by (rule round_ratio_finite [OF assms(1)])
  have pos: "0 < real_of_int n / real d" using assms(1,2) by simp
  have "expo (nat \<bar>n\<bar>) d \<noteq> - 1074"
    by (rule expo_normal) (use assms in auto)
  from round_ratio_relerr [OF assms(1) fin _ this] assms(2) pos
  show err: "\<bar>f64_val (round_ratio n d) - real_of_int n / real d\<bar> \<le> real_of_int n / real d * 2 powr (- 53)"
    by simp
  have "real_of_int n / real d * 2 powr (- 53) < real_of_int n / real d * 1"
    by (rule mult_strict_left_mono [OF _ pos]) (simp add: powr_minus powr_numeral)
  with err show "0 < f64_val (round_ratio n d)" by linarith
qed

lemma fin_ratio: "real_of_int (fin_num m e) / real (fin_den e) = f64_val (Finite m e)"
  by (cases "0 \<le> e") (simp_all add: fin_num_def fin_den_def powr_int)

lemma fin_den_pos [simp]: "0 < fin_den e"
  by (simp add: fin_den_def)

lemma f64_val_pos_iff: "0 < f64_val (Finite m e) \<longleftrightarrow> 0 < m"
  by (simp add: zero_less_mult_iff)

lemma f64_div_relerr:
  assumes x: "0 < f64_val x" and y: "0 < f64_val y"
    and lo: "2 powr (- 1000) \<le> f64_val x / f64_val y" and hi: "f64_val x / f64_val y \<le> 2 powr 1000"
  shows "is_finite (f64_div x y)" and "f64_canon (f64_div x y)" and "0 < f64_val (f64_div x y)"
    and "\<bar>f64_val (f64_div x y) - f64_val x / f64_val y\<bar> \<le> f64_val x / f64_val y * 2 powr (- 53)"
proof -
  obtain m1 e1 where x1: "x = Finite m1 e1" using x by (cases x) auto
  obtain m2 e2 where y1: "y = Finite m2 e2" using y by (cases y) auto
  have m: "0 < m1" "0 < m2" using x y by (simp_all only: x1 y1 f64_val_pos_iff)
  define n where "n = fin_num m1 e1 * int (fin_den e2)"
  define d where "d = fin_den e1 * nat \<bar>fin_num m2 e2\<bar>"
  have f2: "0 < fin_num m2 e2" using m(2) by (simp add: fin_num_def)
  have n: "0 < n" using m(1) by (simp add: n_def fin_num_def)
  have d: "0 < d" using f2 by (simp add: d_def)
  have eq: "f64_div x y = round_ratio n d"
    using m by (simp add: x1 y1 n_def d_def)
  have r: "real_of_int n / real d = f64_val x / f64_val y"
    unfolding x1 y1 fin_ratio [symmetric] n_def d_def using f2
    by (simp add: field_simps)
  note rr = round_ratio_pos [OF d n, unfolded r, OF lo hi]
  show "is_finite (f64_div x y)" and "0 < f64_val (f64_div x y)"
    and "\<bar>f64_val (f64_div x y) - f64_val x / f64_val y\<bar> \<le> f64_val x / f64_val y * 2 powr (- 53)"
    using rr by (simp_all only: eq)
  show "f64_canon (f64_div x y)" unfolding eq by (rule round_ratio_canon [OF d])
qed

lemma f64_of_int_relerr:
  assumes "0 < n" and "n < 2 ^ 200"
  shows "0 < f64_val (f64_of_int n)"
    and "\<bar>f64_val (f64_of_int n) - real_of_int n\<bar> \<le> real_of_int n * 2 powr (- 53)"
proof -
  have "2 powr (- 1000) \<le> (1 :: real)" by (simp add: powr_minus powr_numeral)
  also have "\<dots> \<le> real_of_int n" using assms(1) by simp
  finally have lo: "2 powr (- 1000) \<le> real_of_int n / real (1 :: nat)" by simp
  have "real_of_int n < 2 ^ 200" using assms(2) by (metis of_int_less_numeral_power_cancel_iff)
  also have "\<dots> \<le> 2 powr 1000" by (simp add: powr_numeral)
  finally have hi: "real_of_int n / real (1 :: nat) \<le> 2 powr 1000" by simp
  show "0 < f64_val (f64_of_int n)"
    and "\<bar>f64_val (f64_of_int n) - real_of_int n\<bar> \<le> real_of_int n * 2 powr (- 53)"
    using round_ratio_pos [OF _ assms(1) lo hi] by (simp_all add: f64_of_int_def)
qed

lemma sqrt_scaled:
  fixes m' :: nat and e' :: int
  assumes m': "0 < m'" and ev: "even e'"
  defines "M \<equiv> m' * 4 ^ 54"
  defines "s \<equiv> 2 * isqrt M + (if isqrt M * isqrt M = M then 0 else 1)"
  defines "W \<equiv> sqrt (real m' * 2 powr real_of_int e')"
  defines "p \<equiv> 2 powr real_of_int (e' div 2 - 55)"
  shows "\<bar>real s * p - W\<bar> \<le> W * 2 powr (- 55)" and "2 ^ 55 * p \<le> W"
proof -
  define r where "r = sqrt (real M)"
  define n where "n = isqrt M"
  have p: "0 < p" by (simp add: p_def)
  have M: "real M = real m' * (2 ^ 54) ^ 2" by (simp add: M_def)
  have W: "W = 2 * r * p"
  proof -
    obtain k where k: "e' = 2 * k" using ev by (elim evenE)
    have pk: "2 powr real_of_int k = 2 ^ 55 * p"
      by (simp add: k p_def powr_diff powr_numeral)
    have "2 powr real_of_int e' = (2 powr real_of_int k) ^ 2"
      by (simp add: k power2_eq_square flip: powr_add)
    then have "real m' * 2 powr real_of_int e' = real M * (2 * p) ^ 2"
      unfolding M pk by (simp add: power_mult_distrib)
    then show ?thesis using p by (simp add: W_def r_def real_sqrt_mult)
  qed
  have "1 \<le> real m'" using m' by simp
  then have "(2 ^ 54) ^ 2 \<le> real M" unfolding M by simp
  then have r: "2 ^ 54 \<le> r" unfolding r_def by (rule real_le_rsqrt)
  have "n * n \<le> M" "M < (n + 1) * (n + 1)" using isqrt_spec [of M] by (simp_all add: n_def)
  then have "real (n * n) \<le> real M" "real M < real ((n + 1) * (n + 1))"
    by (simp_all only: of_nat_le_iff of_nat_less_iff)
  then have "real n ^ 2 \<le> real M" "real M < (real n + 1) ^ 2"
    by (simp_all add: power2_eq_square algebra_simps)
  then have nr: "real n \<le> r" "r < real n + 1"
    unfolding r_def by (auto intro: real_le_rsqrt real_less_lsqrt)
  have "\<bar>real s - 2 * r\<bar> \<le> 1"
  proof (cases "n * n = M")
    case True
    then have "real M = real n ^ 2" by (simp add: power2_eq_square flip: of_nat_mult)
    then have "r = real n" unfolding r_def by simp
    with True show ?thesis by (simp add: s_def n_def)
  next
    case False
    then show ?thesis using nr by (simp add: s_def n_def abs_le_iff)
  qed
  then have "\<bar>real s * p - W\<bar> \<le> p"
    unfolding W using p by (simp add: abs_mult flip: left_diff_distrib)
  moreover show "2 ^ 55 * p \<le> W"
    unfolding W using r p by simp
  ultimately show "\<bar>real s * p - W\<bar> \<le> W * 2 powr (- 55)"
    by (simp add: powr_minus powr_numeral)
qed

lemma f64_sqrt_relerr:
  assumes c: "f64_canon x" and pos: "0 < f64_val x"
  shows "\<bar>f64_val (f64_sqrt x) - sqrt (f64_val x)\<bar> \<le> sqrt (f64_val x) * 2 powr (- 52)"
proof -
  obtain m e where x: "x = Finite m e" using pos by (cases x) auto
  have m: "0 < m" using pos by (simp only: x f64_val_pos_iff)
  define m' where "m' = (if even e then nat m else 2 * nat m)"
  define e' where "e' = (if even e then e else e - 1)"
  define M where "M = m' * 4 ^ 54"
  define s where "s = 2 * isqrt M + (if isqrt M * isqrt M = M then 0 else 1)"
  define E where "E = e' div 2 - 55"
  define W where "W = sqrt (f64_val x)"
  define z where "z = real s * 2 powr real_of_int E"
  have eq: "f64_sqrt x = round_ratio (fin_num (int s) E) (fin_den E)"
    using m by (simp add: x m'_def e'_def M_def s_def E_def Let_def)
  have v: "f64_val x = real m' * 2 powr real_of_int e'"
    using m by (simp add: x m'_def e'_def powr_diff)
  have m': "0 < m'" and ev: "even e'" using m by (simp_all add: m'_def e'_def)
  note sc = sqrt_scaled [OF m' ev, folded M_def, folded s_def, folded v, folded W_def E_def, folded z_def]
  have zr: "real_of_int (fin_num (int s) E) / real (fin_den E) = z"
    unfolding fin_ratio by (simp add: z_def)
  have e: "- 1074 \<le> e" "e \<le> 971" and mlt: "nat m < 2 ^ 53"
    using c m by (simp_all add: x nat_less_iff)
  have E: "- 593 \<le> E" "E \<le> 431" using e by (auto simp: E_def e'_def)
  have W: "0 < W" using pos by (simp add: W_def)
  have p55: "2 powr (- 55) \<le> (1 / 2 :: real)" by (simp add: powr_minus powr_numeral)
  have W55: "W * 2 powr (- 55) \<le> W / 2" using mult_left_mono [OF p55, of W] W by simp
  have zlo: "W / 2 \<le> z" and zhi: "z \<le> 2 * W" using sc(1) W55 by linarith+
  have "2 powr (- 1000) \<le> (2 powr (- 593) :: real)" by (intro powr_mono) auto
  also have "\<dots> \<le> 2 powr real_of_int E" using E by (intro powr_mono) auto
  also have "\<dots> \<le> W / 2" using sc(2) W by simp
  finally have lo: "2 powr (- 1000) \<le> z" using zlo by linarith
  have hi: "z \<le> 2 powr 1000"
  proof -
    have "real m' \<le> 2 ^ 54"
    proof -
      have "m' \<le> 2 ^ 54" using mlt by (auto simp: m'_def)
      then show ?thesis by (metis of_nat_le_iff of_nat_numeral of_nat_power)
    qed
    moreover have "2 powr real_of_int e' \<le> 2 powr 971"
      using e by (intro powr_mono) (auto simp: e'_def)
    ultimately have "f64_val x \<le> 2 powr 54 * 2 powr 971"
      unfolding v by (intro mult_mono) (auto simp: powr_numeral)
    also have "\<dots> = 2 powr (54 + 971)" by (simp only: powr_add)
    also have "\<dots> \<le> 2 powr (999 + 999)" by (intro powr_mono) auto
    also have "\<dots> = (2 powr 999) ^ 2" by (simp only: powr_add power2_eq_square)
    finally have "W \<le> 2 powr 999" unfolding W_def by (intro real_le_lsqrt) auto
    then have "z \<le> 2 powr 1 * 2 powr 999" using zhi by simp
    also have "\<dots> = 2 powr (1 + 999)" by (simp only: powr_add)
    finally show ?thesis by simp
  qed
  have z: "0 < z" using zlo W by linarith
  have n: "0 < fin_num (int s) E"
  proof -
    have "0 < s" using z by (cases s) (auto simp: z_def)
    then show ?thesis by (simp add: fin_num_def)
  qed
  have "\<bar>f64_val (f64_sqrt x) - z\<bar> \<le> z * 2 powr (- 53)"
    using round_ratio_pos(2) [OF fin_den_pos [of E] n, unfolded zr, OF lo hi] by (simp add: eq)
  then have "\<bar>f64_val (f64_sqrt x) - W\<bar> \<le> z * 2 powr (- 53) + W * 2 powr (- 55)"
    using sc(1) by linarith
  also have "\<dots> \<le> (W + W * 2 powr (- 55)) * 2 powr (- 53) + W * 2 powr (- 55)"
    using sc(1) by (intro add_right_mono mult_right_mono) auto
  also have "\<dots> \<le> W * 2 powr (- 52)"
    using W by (simp add: powr_minus powr_numeral field_simps)
  finally show ?thesis by (simp add: W_def)
qed

text \<open>
  The root of a quotient of integers, computed in doubles: conversion of both integers, one
  division, one square root. Four roundings, a relative error below \<open>2 ^ - 50\<close>.
\<close>

lemma f64_root_quotient:
  assumes S: "0 < S" "S < 2 ^ 200" and N: "0 < N" "N < 2 ^ 200"
  shows "\<bar>f64_val (f64_sqrt (f64_div (f64_of_int S) (f64_of_int N))) -
           sqrt (real_of_int S / real_of_int N)\<bar>
         \<le> sqrt (real_of_int S / real_of_int N) * 2 powr (- 50)"
    and "is_finite (f64_sqrt (f64_div (f64_of_int S) (f64_of_int N)))"
proof -
  define u where "u = 2 powr (- 53 :: real)"
  define a where "a = f64_val (f64_of_int S)"
  define b where "b = f64_val (f64_of_int N)"
  define Q where "Q = real_of_int S / real_of_int N"
  define q where "q = f64_val (f64_div (f64_of_int S) (f64_of_int N))"
  have u: "0 < u" "u \<le> 1 / 1000" by (simp_all add: u_def powr_minus powr_numeral)
  note aS = f64_of_int_relerr [OF S, folded a_def u_def]
  note bN = f64_of_int_relerr [OF N, folded b_def u_def]
  have S': "1 \<le> real_of_int S" "real_of_int S \<le> 2 powr 200"
    and N': "1 \<le> real_of_int N" "real_of_int N \<le> 2 powr 200"
    using S N by (auto simp: powr_numeral of_int_less_numeral_power_cancel_iff [symmetric] intro: less_imp_le)
  have Q: "0 < Q" using S' N' by (simp add: Q_def)
  have ab: "real_of_int S * (1 - u) \<le> a" "a \<le> real_of_int S * (1 + u)"
    "real_of_int N * (1 - u) \<le> b" "b \<le> real_of_int N * (1 + u)"
    using aS(2) bN(2) by (auto simp: algebra_simps abs_le_iff)
  have b: "0 < b" by (rule bN(1))
  have r1: "\<bar>a / b - Q\<bar> \<le> 3 * u * Q"
  proof -
    have N0: "0 < real_of_int N" using N' by linarith
    have "(1 - 3 * u) * Q * b \<le> (1 - 3 * u) * Q * (real_of_int N * (1 + u))"
      using ab(4) u Q by (intro mult_left_mono) auto
    also have "\<dots> = real_of_int S * ((1 - 3 * u) * (1 + u))"
      using N0 by (simp add: Q_def)
    also have "\<dots> \<le> real_of_int S * (1 - u)"
      using u S' by (intro mult_left_mono) (auto simp: algebra_simps)
    also have "\<dots> \<le> a" by (rule ab(1))
    finally have lo: "(1 - 3 * u) * Q \<le> a / b" using b by (simp add: pos_le_divide_eq)
    have "a \<le> real_of_int S * (1 + u)" by (rule ab(2))
    also have "\<dots> \<le> real_of_int S * ((1 + 3 * u) * (1 - u))"
    proof -
      have "3 * (u * u) \<le> u" using u mult_left_mono [of u "1/1000" u] by simp
      then show ?thesis using S' by (intro mult_left_mono) (auto simp: algebra_simps)
    qed
    also have "\<dots> = (1 + 3 * u) * Q * (real_of_int N * (1 - u))"
      using N0 by (simp add: Q_def)
    also have "\<dots> \<le> (1 + 3 * u) * Q * b"
      using ab(3) u Q by (intro mult_left_mono) auto
    finally have hi: "a / b \<le> (1 + 3 * u) * Q" using b by (simp add: pos_divide_le_eq)
    show ?thesis using lo hi by (simp add: abs_le_iff algebra_simps)
  qed
  have uQ: "3 * u * Q \<le> Q / 2" using u Q by simp
  have rlo: "Q / 2 \<le> a / b" and rhi: "a / b \<le> 2 * Q" using r1 uQ Q by linarith+
  have Qlo: "2 powr (- 200) \<le> Q"
    unfolding Q_def powr_minus_divide using S' N' by (intro frac_le) auto
  have Qhi: "Q \<le> 2 powr 200"
    using S' N' frac_le [of "2 powr 200" "real_of_int S" 1 "real_of_int N"] by (simp add: Q_def)
  have "2 powr (- 1000) \<le> 2 powr (- 200) / (2 :: real)"
    by (simp add: powr_minus powr_numeral)
  then have lo: "2 powr (- 1000) \<le> a / b" using Qlo rlo by linarith
  have "2 * 2 powr 200 \<le> (2 powr 1000 :: real)" by (simp add: powr_numeral)
  then have hi: "a / b \<le> 2 powr 1000" using Qhi rhi by linarith
  note dv = f64_div_relerr [OF aS(1) [unfolded a_def] bN(1) [unfolded b_def],
      folded a_def b_def, OF lo hi, folded q_def u_def]
  have r2: "\<bar>q - Q\<bar> \<le> 5 * u * Q"
  proof -
    have "a / b * u \<le> 2 * Q * u" using rhi u by (intro mult_right_mono) auto
    then show ?thesis using dv(4) r1 by (simp add: abs_le_iff algebra_simps)
  qed
  show "is_finite (f64_sqrt (f64_div (f64_of_int S) (f64_of_int N)))"
    using dv(1,2,3) f64_sqrt_finite
    by (cases "f64_div (f64_of_int S) (f64_of_int N)")
      (auto simp: q_def f64_val_pos_iff simp del: f64_sqrt.simps f64_val.simps f64_canon.simps)
  have r3: "\<bar>sqrt q - sqrt Q\<bar> \<le> 5 * u * sqrt Q"
  proof -
    have "(sqrt q - sqrt Q) * (sqrt q + sqrt Q) = q - Q"
      using dv(3) Q by (simp add: algebra_simps)
    then have "\<bar>sqrt q - sqrt Q\<bar> * (sqrt q + sqrt Q) = \<bar>q - Q\<bar>"
      using dv(3) Q by (metis abs_mult abs_of_nonneg add_nonneg_nonneg less_imp_le real_sqrt_ge_0_iff)
    moreover have "\<bar>sqrt q - sqrt Q\<bar> * sqrt Q \<le> \<bar>sqrt q - sqrt Q\<bar> * (sqrt q + sqrt Q)"
      using dv(3) by (intro mult_left_mono) auto
    ultimately have "\<bar>sqrt q - sqrt Q\<bar> * sqrt Q \<le> 5 * u * sqrt Q * sqrt Q"
      using r2 Q by (simp add: mult.assoc)
    then show ?thesis using Q by simp
  qed
  have r4: "\<bar>f64_val (f64_sqrt (f64_div (f64_of_int S) (f64_of_int N))) - sqrt q\<bar> \<le> sqrt q * (2 * u)"
  proof -
    have "2 powr (- 52) = 2 * u" by (simp add: u_def powr_minus powr_numeral)
    then show ?thesis
      using f64_sqrt_relerr [OF dv(2) dv(3) [unfolded q_def]] by (simp add: q_def)
  qed
  have "sqrt q * (2 * u) \<le> (sqrt Q + 5 * u * sqrt Q) * (2 * u)"
    using r3 u by (intro mult_right_mono) (auto simp: abs_le_iff)
  also have "\<dots> \<le> 3 * u * sqrt Q"
  proof -
    have "10 * u * (u * sqrt Q) \<le> 1 * (u * sqrt Q)"
      using u Q by (intro mult_right_mono) auto
    then show ?thesis by (simp add: algebra_simps)
  qed
  finally have "\<bar>f64_val (f64_sqrt (f64_div (f64_of_int S) (f64_of_int N))) - sqrt Q\<bar> \<le> sqrt Q * (8 * u)"
    using r3 r4 by (simp add: algebra_simps)
  moreover have "8 * u = 2 powr (- 50)" by (simp add: u_def powr_minus powr_numeral)
  ultimately show "\<bar>f64_val (f64_sqrt (f64_div (f64_of_int S) (f64_of_int N))) -
           sqrt (real_of_int S / real_of_int N)\<bar>
         \<le> sqrt (real_of_int S / real_of_int N) * 2 powr (- 50)"
    by (simp add: Q_def)
qed

subsection \<open>Evaluating a rounded ratio\<close>

text \<open>The double of a ratio, from the number of bits of its parts.\<close>

lemma round_ratio_eval:
  assumes "bits (nat n) = x" and "bits d = y"
    and "e = (if scale_num (int x - int y - 53) (nat n) div scale_den (int x - int y - 53) d < 2 ^ 53
      then int x - int y - 53 else int x - int y - 52)"
    and "- 1074 \<le> e" and "e \<le> 971" and "rne (scale_num e (nat n)) (scale_den e d) = q" and "0 < n" and "0 < q" and "q < 2 ^ 53"
  shows "round_ratio n d = Finite (int q) e"
proof -
  have "expo0 (nat n) d = e" by (simp add: expo0_def Let_def assms(1-3))
  then have "expo (nat n) d = e" using assms(4) by (simp add: expo_def)
  then show ?thesis using assms(5-9) by (simp add: round_ratio_def round_mag_def Let_def)
qed

lemma bits_one: "bits (Suc 0) = Suc 0" by (simp add: bits.simps)

end
