(* ===== verification/Stub.thy ===== *)
theory Stub
  imports F64
begin

text \<open>
  The deterministic inference stub, \<open>crates/stt-stub/src/lib.rs\<close>: an FNV-1a style checksum, a
  zero-crossing count and the root mean square over the 16-bit samples of a payload, repeated for
  a number of passes, and a transcript word picked by the checksum. The inference server runs it
  on every request and the load generator recomputes it to verify every partial.
\<close>

definition FNV_OFFSET :: u32 where
  "FNV_OFFSET = 2166136261"

definition FNV_PRIME :: u32 where
  "FNV_PRIME = 16777619"

definition TRANSCRIPT_POOL :: "string list" where
  "TRANSCRIPT_POOL =
     [''the'', ''quick'', ''brown'', ''fox'', ''jumps'', ''over'', ''lazy'', ''dog'', ''hello'',
      ''world'', ''yes'', ''no'', ''okay'', ''right'', ''left'', ''stop'', ''go'', ''wait'',
      ''ready'', ''done'', ''again'', ''now'', ''later'', ''never'']"

record stub_result =
  st_rms :: f64
  st_zero_crossings :: u64
  st_checksum :: u32
  st_samples :: u64
  st_transcript :: string
  st_audio_bytes :: u64

text \<open>The loop variables of \<open>compute_stub\<close>.\<close>

record stub_state =
  lv_checksum :: u32
  lv_zero_crossings :: u64
  lv_sum_squares :: int
  lv_sample_count :: u64
  lv_previous :: "16 word"

definition stub_init :: stub_state where
  "stub_init = \<lparr>lv_checksum = FNV_OFFSET, lv_zero_crossings = 0, lv_sum_squares = 0,
     lv_sample_count = 0, lv_previous = 0\<rparr>"

text \<open>\<open>chunks_exact(2)\<close>: an odd trailing byte is dropped.\<close>

fun chunks_exact2 :: "'a list \<Rightarrow> ('a \<times> 'a) list" where
  "chunks_exact2 (a # b # xs) = (a, b) # chunks_exact2 xs"
| "chunks_exact2 _ = []"

definition i16_from_le_bytes :: "u8 \<times> u8 \<Rightarrow> 16 word" where
  "i16_from_le_bytes c = ucast (fst c) OR push_bit 8 (ucast (snd c))"

text \<open>\<open>((sample as i32 + 32_768 + pass_index as i32) as u32) & 0xFFFF\<close>\<close>

definition adjusted_sample :: "u32 \<Rightarrow> 16 word \<Rightarrow> u32" where
  "adjusted_sample pass_index sample = (scast sample + 32768 + pass_index) AND 0xFFFF"

definition stub_step :: "u32 \<Rightarrow> u8 \<times> u8 \<Rightarrow> stub_state \<Rightarrow> stub_state" where
  "stub_step pass_index chunk s =
     (let sample = i16_from_le_bytes chunk;
          crossed = (0 < lv_sample_count s \<and>
            ((sint sample < 0 \<and> 0 \<le> sint (lv_previous s)) \<or>
             (sint (lv_previous s) < 0 \<and> 0 \<le> sint sample)))
      in \<lparr>lv_checksum = (lv_checksum s XOR adjusted_sample pass_index sample) * FNV_PRIME,
          lv_zero_crossings = (if crossed then lv_zero_crossings s + 1 else lv_zero_crossings s),
          lv_sum_squares = lv_sum_squares s + sint sample * sint sample,
          lv_sample_count = lv_sample_count s + 1,
          lv_previous = sample\<rparr>)"

definition stub_pass :: "bytes \<Rightarrow> u32 \<Rightarrow> stub_state \<Rightarrow> stub_state" where
  "stub_pass payload pass_index s = fold (stub_step pass_index) (chunks_exact2 payload) s"

definition stub_loop :: "bytes \<Rightarrow> u32 \<Rightarrow> stub_state" where
  "stub_loop payload passes =
     fold (\<lambda>i. stub_pass payload (of_nat i)) [0..<unat passes] stub_init"

definition stub_rms :: "stub_state \<Rightarrow> f64" where
  "stub_rms s =
     (if lv_sample_count s = 0 then f64_zero
      else f64_sqrt (f64_div (f64_of_int (lv_sum_squares s))
             (f64_of_int (uint (lv_sample_count s)))))"

definition pool_word :: "u32 \<Rightarrow> string" where
  "pool_word checksum = TRANSCRIPT_POOL ! (unat checksum mod length TRANSCRIPT_POOL)"

definition compute_stub :: "bytes \<Rightarrow> u32 \<Rightarrow> stub_result" where
  "compute_stub payload passes =
     (let s = stub_loop payload passes
      in \<lparr>st_rms = stub_rms s,
          st_zero_crossings = lv_zero_crossings s,
          st_checksum = lv_checksum s,
          st_samples = lv_sample_count s,
          st_transcript = pool_word (lv_checksum s),
          st_audio_bytes = of_nat (length payload)\<rparr>)"

subsection \<open>Chunking\<close>

lemma length_chunks_exact2 [simp]: "length (chunks_exact2 xs) = length xs div 2"
  by (induction xs rule: chunks_exact2.induct) auto

lemma chunks_exact2_append:
  "even (length xs) \<Longrightarrow> chunks_exact2 (xs @ ys) = chunks_exact2 xs @ chunks_exact2 ys"
  by (induction xs rule: chunks_exact2.induct) auto

lemma chunks_exact2_odd: "even (length xs) \<Longrightarrow> chunks_exact2 (xs @ [b]) = chunks_exact2 xs"
  by (simp add: chunks_exact2_append)

subsection \<open>What one pass and all passes do to the counters\<close>

lemma stub_step_simps [simp]:
  "lv_sample_count (stub_step p c s) = lv_sample_count s + 1"
  "lv_sum_squares (stub_step p c s) =
     lv_sum_squares s + sint (i16_from_le_bytes c) * sint (i16_from_le_bytes c)"
  "lv_checksum (stub_step p c s) =
     (lv_checksum s XOR adjusted_sample p (i16_from_le_bytes c)) * FNV_PRIME"
  "lv_previous (stub_step p c s) = i16_from_le_bytes c"
  by (simp_all add: stub_step_def Let_def)

lemma fold_step_count:
  "lv_sample_count (fold (stub_step p) cs s) = lv_sample_count s + of_nat (length cs)"
  by (induction cs arbitrary: s) auto

lemma fold_step_squares:
  "lv_sum_squares (fold (stub_step p) cs s) =
     lv_sum_squares s + (\<Sum>c\<leftarrow>cs. sint (i16_from_le_bytes c) ^ 2)"
  by (induction cs arbitrary: s) (auto simp: power2_eq_square)

lemma stub_pass_simps [simp]:
  "lv_sample_count (stub_pass xs p s) = lv_sample_count s + of_nat (length xs div 2)"
  "lv_sum_squares (stub_pass xs p s) =
     lv_sum_squares s + (\<Sum>c\<leftarrow>chunks_exact2 xs. sint (i16_from_le_bytes c) ^ 2)"
  by (simp_all add: stub_pass_def fold_step_count fold_step_squares)

lemma fold_pass_count:
  "lv_sample_count (fold (\<lambda>i. stub_pass xs (f i)) is s) =
     lv_sample_count s + of_nat (length is * (length xs div 2))"
  by (induction "is" arbitrary: s) (auto simp: algebra_simps)

lemma fold_pass_squares:
  "lv_sum_squares (fold (\<lambda>i. stub_pass xs (f i)) is s) =
     lv_sum_squares s + int (length is) * (\<Sum>c\<leftarrow>chunks_exact2 xs. sint (i16_from_le_bytes c) ^ 2)"
  by (induction "is" arbitrary: s) (auto simp: algebra_simps)

lemma stub_loop_count:
  "lv_sample_count (stub_loop xs n) = of_nat (unat n * (length xs div 2))"
  by (simp add: stub_loop_def fold_pass_count stub_init_def)

lemma stub_loop_squares:
  "lv_sum_squares (stub_loop xs n) =
     int (unat n) * (\<Sum>c\<leftarrow>chunks_exact2 xs. sint (i16_from_le_bytes c) ^ 2)"
  by (simp add: stub_loop_def fold_pass_squares stub_init_def)

text \<open>An odd trailing byte never reaches the loop.\<close>

lemma stub_loop_odd: "even (length xs) \<Longrightarrow> stub_loop (xs @ [b]) n = stub_loop xs n"
  by (simp add: stub_loop_def stub_pass_def [abs_def] chunks_exact2_odd)

text \<open>Zero crossings never exceed the samples seen after the first one.\<close>

lemma fold_step_crossings:
  assumes "unat (lv_zero_crossings s) \<le> unat (lv_sample_count s) - 1"
    and "unat (lv_sample_count s) + length cs < 2 ^ 64"
  shows "unat (lv_zero_crossings (fold (stub_step p) cs s))
           \<le> unat (lv_sample_count (fold (stub_step p) cs s)) - 1"
  using assms
proof (induction cs arbitrary: s)
  case Nil
  then show ?case by simp
next
  case (Cons c cs)
  define s' where "s' = stub_step p c s"
  have cnt: "unat (lv_sample_count s') = unat (lv_sample_count s) + 1"
    using Cons.prems(2) by (simp add: s'_def unat_word_ariths)
  have "unat (lv_zero_crossings s') \<le> unat (lv_sample_count s') - 1"
  proof (cases "lv_sample_count s = 0")
    case True
    then show ?thesis
      using Cons.prems(1) cnt by (simp add: s'_def stub_step_def Let_def)
  next
    case False
    then have "0 < unat (lv_sample_count s)" by (simp add: unat_gt_0)
    moreover have "unat (lv_zero_crossings s') \<le> unat (lv_zero_crossings s) + 1"
      by (auto simp: s'_def stub_step_def Let_def unat_word_ariths
          intro: order_trans [OF mod_less_eq_dividend])
    ultimately show ?thesis using Cons.prems(1) cnt by linarith
  qed
  with Cons.IH [of s'] Cons.prems(2) cnt show ?case by (simp add: s'_def)
qed

lemma fold_pass_crossings:
  assumes "unat (lv_zero_crossings s) \<le> unat (lv_sample_count s) - 1"
    and "unat (lv_sample_count s) + length is * (length xs div 2) < 2 ^ 64"
  shows "unat (lv_zero_crossings (fold (\<lambda>i. stub_pass xs (f i)) is s))
           \<le> unat (lv_sample_count (fold (\<lambda>i. stub_pass xs (f i)) is s)) - 1"
  using assms
proof (induction "is" arbitrary: s)
  case Nil
  then show ?case by simp
next
  case (Cons i "is")
  define s' where "s' = stub_pass xs (f i) s"
  have lt: "unat (lv_sample_count s) + length xs div 2 < 2 ^ 64"
    using Cons.prems(2) by (simp add: algebra_simps)
  have cnt: "unat (lv_sample_count s') = unat (lv_sample_count s) + length xs div 2"
    using lt by (simp add: s'_def unat_word_ariths unat_of_nat mod_simps)
  have "unat (lv_zero_crossings s') \<le> unat (lv_sample_count s') - 1"
    using fold_step_crossings [of s "chunks_exact2 xs" "f i"] Cons.prems(1) lt
    by (simp add: s'_def stub_pass_def)
  with Cons.IH [of s'] Cons.prems(2) cnt show ?case
    by (simp add: s'_def algebra_simps)
qed

subsection \<open>The checksum step is injective in the state and in the sample\<close>

lemma fnv_mult_inj [simp]: "x * FNV_PRIME = y * FNV_PRIME \<longleftrightarrow> x = y"
proof
  have inv: "FNV_PRIME * 899433627 = 1" by (simp add: FNV_PRIME_def)
  assume "x * FNV_PRIME = y * FNV_PRIME"
  then have "x * FNV_PRIME * 899433627 = y * FNV_PRIME * 899433627" by simp
  then show "x = y" by (simp only: mult.assoc inv mult_1_right)
qed simp

lemma xor_left_inj [simp]: "(c XOR a = c XOR b) \<longleftrightarrow> a = (b :: 'a::len word)"
  by (metis xor.left_commute xor_self_eq xor.right_neutral)

lemma xor_right_inj [simp]: "(a XOR c = b XOR c) \<longleftrightarrow> a = (b :: 'a::len word)"
  by (simp add: xor.commute [of _ c])

lemma adjusted_sample_inj [simp]: "adjusted_sample p a = adjusted_sample p b \<longleftrightarrow> a = b"
proof
  have low: "(ucast (x AND 0xFFFF :: u32) :: 16 word) = ucast x" for x
  proof -
    have m: "(0xFFFF :: u32) = mask 16" by (simp add: mask_eq_exp_minus_1)
    show ?thesis unfolding m by (rule bit_word_eqI) (simp add: bit_simps)
  qed
  have add: "(ucast (x + y :: u32) :: 16 word) = ucast x + ucast y" for x y
    by (rule word_uint_eqI)
      (simp add: uint_word_ariths unsigned_ucast_eq take_bit_eq_mod mod_mod_cancel mod_simps)
  have down: "(ucast (scast c :: u32) :: 16 word) = c" for c :: "16 word"
    by (rule bit_word_eqI) (simp add: bit_simps)
  have "(ucast (adjusted_sample p c) :: 16 word) = c + ucast (32768 + p)" for c
    by (simp only: adjusted_sample_def low add down add.assoc)
  then show "adjusted_sample p a = adjusted_sample p b \<Longrightarrow> a = b"
    by (metis add_right_cancel)
qed simp

lemma i16_from_le_bytes_inj [simp]: "i16_from_le_bytes c = i16_from_le_bytes d \<longleftrightarrow> c = d"
proof
  assume eq: "i16_from_le_bytes c = i16_from_le_bytes d"
  have bits: "bit (i16_from_le_bytes c) n = bit (i16_from_le_bytes d) n" for n
    using eq by simp
  have "fst c = fst d"
  proof (rule bit_word_eqI)
    fix n assume "n < LENGTH(8)"
    then show "bit (fst c) n = bit (fst d) n"
      using bits [of n] by (simp add: i16_from_le_bytes_def bit_simps)
  qed
  moreover have "snd c = snd d"
  proof (rule bit_word_eqI)
    fix n assume "n < LENGTH(8)"
    then show "bit (snd c) n = bit (snd d) n"
      using bits [of "8 + n"] by (auto simp: i16_from_le_bytes_def bit_simps dest: bit_imp_le_length)
  qed
  ultimately show "c = d" by (simp add: prod_eq_iff)
qed simp

lemma checksum_fold_inj:
  "lv_checksum (fold (stub_step p) cs s) = lv_checksum (fold (stub_step p) cs t)
     \<longleftrightarrow> lv_checksum s = lv_checksum t"
  by (induction cs arbitrary: s t) auto

lemma compute_stub_one_pass:
  "st_checksum (compute_stub xs 1) = lv_checksum (fold (stub_step 0) (chunks_exact2 xs) stub_init)"
  by (simp add: compute_stub_def Let_def stub_loop_def stub_pass_def)

subsection \<open>The root mean square\<close>

definition mean_square :: "bytes \<Rightarrow> real" where
  "mean_square xs =
     real_of_int (\<Sum>c\<leftarrow>chunks_exact2 xs. sint (i16_from_le_bytes c) ^ 2) / real (length xs div 2)"

lemma sint_i16_square: "sint (w :: 16 word) ^ 2 \<le> 2 ^ 30"
proof -
  have "- (2 ^ 15) \<le> sint w" "sint w < 2 ^ 15"
    using sint_ge [of w] sint_lt [of w] by simp_all
  then have "\<bar>sint w\<bar> \<le> 2 ^ 15" by linarith
  then have "\<bar>sint w\<bar> ^ 2 \<le> (2 ^ 15) ^ 2" by (intro power_mono) auto
  then show ?thesis by simp
qed

lemma sum_squares_le: "(\<Sum>c\<leftarrow>cs. sint (i16_from_le_bytes c) ^ 2) \<le> int (length cs) * 2 ^ 30"
proof (induction cs)
  case (Cons c cs)
  then show ?case using sint_i16_square [of "i16_from_le_bytes c"] by (simp add: algebra_simps)
qed simp

lemma sum_squares_nonneg: "0 \<le> (\<Sum>c\<leftarrow>cs. sint (i16_from_le_bytes c) ^ 2)"
  by (induction cs) auto

text \<open>With one pass, two payloads that differ in exactly one sample have different checksums.\<close>

lemma checksum_detects_one_sample:
  assumes "chunks_exact2 xs = us @ c # vs" and "chunks_exact2 ys = us @ d # vs" and "c \<noteq> d"
  shows "st_checksum (compute_stub xs 1) \<noteq> st_checksum (compute_stub ys 1)"
  using assms(3) by (simp add: compute_stub_one_pass assms(1,2) checksum_fold_inj)

lemma stub_rms_accuracy:
  assumes "2 \<le> length xs" and "0 < n" and "unat n * (length xs div 2) < 2 ^ 64"
  shows "is_finite (st_rms (compute_stub xs n)) \<and>
         \<bar>f64_val (st_rms (compute_stub xs n)) - sqrt (mean_square xs)\<bar>
           \<le> sqrt (mean_square xs) * 2 powr (- 50)"
proof -
  define k where "k = length xs div 2"
  define S where "S = (\<Sum>c\<leftarrow>chunks_exact2 xs. sint (i16_from_le_bytes c) ^ 2)"
  define s where "s = stub_loop xs n"
  have k: "0 < k" using assms(1) by (simp add: k_def)
  define c where "c = unat n"
  have n: "0 < c" using assms(2) by (simp add: c_def unat_gt_0)
  have lt: "c * k < 2 ^ 64" using assms(3) by (simp only: c_def k_def)
  have lt64: "int (c * k) < 2 ^ 64" using lt by (metis of_nat_less_numeral_power_cancel_iff)
  also have "\<dots> \<le> 2 ^ 200" by simp
  finally have Nlt: "int (c * k) < 2 ^ 200" .
  have "unat (lv_sample_count s) = c * k"
    using lt unfolding s_def stub_loop_count k_def c_def by (simp only: unat_of_nat) simp
  then have cnt: "uint (lv_sample_count s) = int (c * k)" by (simp only: uint_nat)
  have pos: "0 < int (c * k)" using k n by simp
  have nz: "lv_sample_count s \<noteq> 0" using cnt pos by auto
  have sq: "lv_sum_squares s = int (c) * S" by (simp only: s_def stub_loop_squares S_def c_def)
  have rms: "st_rms (compute_stub xs n) =
      f64_sqrt (f64_div (f64_of_int (int (c) * S)) (f64_of_int (int (c * k))))"
    using nz by (simp only: compute_stub_def Let_def stub_rms_def flip: s_def) (simp add: cnt sq)
  have ms: "mean_square xs = real_of_int (int (c) * S) / real_of_int (int (c * k))"
    using n by (simp add: mean_square_def S_def k_def)
  show ?thesis
  proof (cases "S = 0")
    case True
    have "0 < f64_val (f64_of_int (int (c * k)))"
      by (rule f64_of_int_relerr) (fact pos Nlt)+
    then obtain m e where y: "f64_of_int (int (c * k)) = Finite m e" "0 < m"
      by (cases "f64_of_int (int (c * k))") (auto simp: zero_less_mult_iff)
    have x: "f64_of_int (int c * S) = Finite 0 (- 1074)"
      using True by (simp add: f64_of_int_def round_ratio_def f64_zero_def)
    have "st_rms (compute_stub xs n) = f64_zero"
      unfolding rms x y(1) using y(2)
      by (simp add: round_ratio_def f64_zero_def fin_num_def isqrt.simps)
    then show ?thesis using True by (simp add: ms f64_zero_def)
  next
    case False
    have S: "0 < S" "S \<le> int k * 2 ^ 30"
      using False sum_squares_nonneg [of "chunks_exact2 xs"] sum_squares_le [of "chunks_exact2 xs"]
      by (simp_all add: S_def k_def)
    have "int (c) * S \<le> int (c * k) * 2 ^ 30"
      using mult_left_mono [OF S(2), of "int (c)"] by simp
    also have "\<dots> < 2 ^ 64 * 2 ^ 30" using lt64 by (intro mult_strict_right_mono) auto
    also have "\<dots> \<le> 2 ^ 200" by simp
    finally have Slt: "int (c) * S < 2 ^ 200" .
    have Spos: "0 < int (c) * S" using S(1) n by simp
    show ?thesis
      using f64_root_quotient [OF Spos Slt pos Nlt] by (simp only: rms ms)
  qed
qed

text \<open>
  C31: for a payload with at least one sample and at least one pass (and no wrap-around of the
  64-bit sample counter) the reported \<open>rms\<close> is finite and is the root of the mean square of the
  payload's samples, whatever the number of passes, up to a relative error of \<open>2 ^ - 50\<close>.
\<close>

theorem compute_stub_rms:
  assumes "2 \<le> length xs" and "0 < n" and "unat n * (length xs div 2) < 2 ^ 64"
  shows "is_finite (st_rms (compute_stub xs n)) \<and>
         \<bar>f64_val (st_rms (compute_stub xs n)) - sqrt (mean_square xs)\<bar>
           \<le> sqrt (mean_square xs) * 2 powr (- 50)"
  using assms by (rule stub_rms_accuracy)

theorem compute_stub_rms_witness:
  "is_finite (st_rms (compute_stub [100, 0, 200, 0] 4)) \<and>
   \<bar>f64_val (st_rms (compute_stub [100, 0, 200, 0] 4)) - sqrt (mean_square [100, 0, 200, 0])\<bar>
     \<le> sqrt (mean_square [100, 0, 200, 0]) * 2 powr (- 50)"
  by (rule compute_stub_rms) simp_all

text \<open>
  The counters of a stub result. The sample count is the number of whole samples times the
  number of passes, the byte count is the payload's length, there are fewer zero crossings than
  samples (none without samples), the transcript is a word of the pool (the index is in range),
  and an odd trailing byte changes nothing but the byte count.
\<close>

lemma compute_stub_counts:
  assumes "unat n * (length xs div 2) < 2 ^ 64"
  shows "unat (st_samples (compute_stub xs n)) = unat n * (length xs div 2) \<and>
         st_audio_bytes (compute_stub xs n) = of_nat (length xs) \<and>
         unat (st_zero_crossings (compute_stub xs n)) \<le> unat n * (length xs div 2) - 1 \<and>
         st_transcript (compute_stub xs n) \<in> set TRANSCRIPT_POOL \<and>
         (even (length xs) \<longrightarrow>
           compute_stub (xs @ [b]) n =
             (compute_stub xs n)\<lparr>st_audio_bytes := of_nat (length xs + 1)\<rparr>)"
proof -
  have cnt: "unat (lv_sample_count (stub_loop xs n)) = unat n * (length xs div 2)"
    using assms unfolding stub_loop_count by (simp only: unat_of_nat) simp
  have "unat (lv_zero_crossings (stub_loop xs n)) \<le> unat (lv_sample_count (stub_loop xs n)) - 1"
    unfolding stub_loop_def by (rule fold_pass_crossings) (use assms in \<open>simp_all add: stub_init_def\<close>)
  moreover have "pool_word c \<in> set TRANSCRIPT_POOL" for c
    unfolding pool_word_def by (rule nth_mem) (simp add: TRANSCRIPT_POOL_def)
  ultimately show ?thesis
    using cnt by (simp add: compute_stub_def Let_def stub_loop_odd)
qed

end
