(* ===== verification/Payload.thy ===== *)
theory Payload
  imports Stub
begin

text \<open>
  The load generator's side of the wire protocol, \<open>loadgen/rust/src/protocol.rs\<close>: the protocol
  constants, the messages it decodes, \<open>PartialMessage::validate\<close>, and the deterministic PCM
  generator \<open>frame_payload\<close> with its splitmix64 finalizer \<open>mix64\<close>.
\<close>

definition FRAME_INTERVAL :: duration where
  "FRAME_INTERVAL = from_millis 20"

definition FRAME_BYTES :: nat where
  "FRAME_BYTES = 640"

definition SAMPLES_PER_FRAME :: nat where
  "SAMPLES_PER_FRAME = 320"

definition FLUSH_INTERVAL :: duration where
  "FLUSH_INTERVAL = from_millis 1000"

record partial_message =
  oldest_frame_seq :: u64
  newest_frame_seq :: u64
  frames :: u64
  rms :: f64
  zero_crossings :: u64
  checksum :: u32
  samples :: u64
  transcript :: string
  audio_bytes :: u64
  cpu_passes :: u32
  model_delay_ms :: u64
  flush_lateness_ms :: f64
  inflight_model_jobs :: u64

record error_message =
  em_stage :: string
  em_kind :: string
  em_message :: string
  em_oldest_frame_seq :: u64
  em_newest_frame_seq :: u64
  em_frames :: u64
  em_audio_bytes :: u64
  em_oldest_age_ms :: f64
  em_newest_age_ms :: f64
  em_flush_lateness_ms :: f64
  em_inference_elapsed_ms :: "f64 option"
  em_inflight_gateway_batches :: u64
  em_gateway_buffer_frames :: u64
  em_inference_status :: "u16 option"
  em_retryable :: bool

datatype server_message = Partial partial_message | Error error_message

text \<open>\<open>PartialMessage::validate\<close>: the checks in source order; the first that fails is the error.\<close>

definition validate :: "partial_message \<Rightarrow> (unit, string) result" where
  "validate p =
     (if \<not> 0 < oldest_frame_seq p then Err ''oldest_frame_seq must be positive''
      else if \<not> oldest_frame_seq p \<le> newest_frame_seq p
        then Err ''newest_frame_seq must be >= oldest_frame_seq''
      else if \<not> 0 < frames p then Err ''frames must be positive''
      else if \<not> 0 < samples p then Err ''samples must be positive''
      else if transcript p = [] then Err ''transcript must be non-empty''
      else if \<not> 0 < audio_bytes p then Err ''audio_bytes must be positive''
      else if \<not> is_finite (rms p) then Err ''rms must be finite''
      else if \<not> (is_finite (flush_lateness_ms p) \<and> f64_le f64_zero (flush_lateness_ms p))
        then Err ''flush_lateness_ms must be finite and non-negative''
      else Ok ())"

subsection \<open>The frame generator\<close>

definition mix64 :: "u64 \<Rightarrow> u64" where
  "mix64 z0 =
     (let z1 = (z0 XOR drop_bit 30 z0) * 0xBF58476D1CE4E5B9;
          z2 = (z1 XOR drop_bit 27 z1) * 0x94D049BB133111EB
      in z2 XOR drop_bit 31 z2)"

definition SPLITMIX_GAMMA :: u64 where
  "SPLITMIX_GAMMA = 0x9E3779B97F4A7C15"

definition SAW_PERIOD :: int where
  "SAW_PERIOD = 20000"

definition SAW_STEP :: int where
  "SAW_STEP = 17"

definition NOISE_HALF :: int where
  "NOISE_HALF = 256"

definition to_le_bytes :: "16 word \<Rightarrow> bytes" where
  "to_le_bytes w = [ucast w, ucast (drop_bit 8 w)]"

text \<open>
  The generator's \<open>i32\<close> values stay far inside 32 bits (\<open>frame_values_range\<close> below), so they are
  integers; \<open>value as i16\<close> keeps the low 16 bits.
\<close>

definition lane_value :: "u64 \<Rightarrow> nat \<Rightarrow> int \<Rightarrow> int" where
  "lane_value noise lane carrier =
     (let jitter = uint (drop_bit (16 * lane) noise AND 0x1FF) - NOISE_HALF
      in carrier - SAW_PERIOD div 2 + jitter)"

definition next_carrier :: "int \<Rightarrow> int" where
  "next_carrier carrier =
     (let c = carrier + SAW_STEP in if SAW_PERIOD \<le> c then c - SAW_PERIOD else c)"

definition frame_lane :: "u64 \<Rightarrow> nat \<Rightarrow> bytes \<times> int \<Rightarrow> bytes \<times> int" where
  "frame_lane noise lane oc =
     (fst oc @ to_le_bytes (word_of_int (lane_value noise lane (snd oc))), next_carrier (snd oc))"

definition frame_chunk :: "bytes \<times> u64 \<times> int \<Rightarrow> bytes \<times> u64 \<times> int" where
  "frame_chunk s =
     (case s of (out, state, carrier) \<Rightarrow>
       let state' = state + SPLITMIX_GAMMA; noise = mix64 state';
           (out', carrier') = fold (frame_lane noise) [0..<4] (out, carrier)
       in (out', state', carrier'))"

definition frame_seed :: "usize \<Rightarrow> u64 \<Rightarrow> u64" where
  "frame_seed session_id seq = mix64 (mix64 session_id XOR seq)"

definition frame_payload :: "usize \<Rightarrow> u64 \<Rightarrow> bytes" where
  "frame_payload session_id seq =
     (let state = frame_seed session_id seq;
          carrier = uint state mod SAW_PERIOD
      in fst ((frame_chunk ^^ (FRAME_BYTES div 8)) ([], state, carrier)))"

subsection \<open>\<open>mix64\<close> is a bijection\<close>

lemma xorshift_inj:
  fixes x y :: "'a::len word"
  assumes "0 < k" and "x XOR drop_bit k x = y XOR drop_bit k y"
  shows "x = y"
proof (rule bit_word_eqI)
  fix n
  assume "n < LENGTH('a)"
  have step: "(bit x i \<noteq> bit x (k + i)) = (bit y i \<noteq> bit y (k + i))" for i
  proof -
    have "bit (x XOR drop_bit k x) i = bit (y XOR drop_bit k y) i" using assms(2) by simp
    then show ?thesis by (simp add: bit_simps add.commute)
  qed
  have "bit x i = bit y i" if "LENGTH('a) - i \<le> m" for m i
    using that
  proof (induction m arbitrary: i)
    case 0
    then show ?case using bit_imp_le_length [of x i] bit_imp_le_length [of y i] by auto
  next
    case (Suc m)
    show ?case
    proof (cases "i < LENGTH('a)")
      case True
      then have "LENGTH('a) - (k + i) \<le> m" using Suc.prems assms(1) by linarith
      from Suc.IH [OF this] step [of i] show ?thesis by blast
    next
      case False
      then show ?thesis using bit_imp_le_length [of x i] bit_imp_le_length [of y i] by auto
    qed
  qed
  then show "bit x n = bit y n" by blast
qed

lemma mult_unit_inj:
  fixes a b :: "'a::len word"
  assumes "c * i = 1" and "a * c = b * c"
  shows "a = b"
proof -
  from assms(2) have "a * c * i = b * c * i" by simp
  then show ?thesis by (simp only: mult.assoc assms(1) mult_1_right)
qed

lemma mix64_inj: "inj mix64"
proof (rule injI)
  fix x y :: u64
  define x1 where "x1 = (x XOR drop_bit 30 x) * 0xBF58476D1CE4E5B9"
  define y1 where "y1 = (y XOR drop_bit 30 y) * 0xBF58476D1CE4E5B9"
  define x2 where "x2 = (x1 XOR drop_bit 27 x1) * 0x94D049BB133111EB"
  define y2 where "y2 = (y1 XOR drop_bit 27 y1) * 0x94D049BB133111EB"
  assume "mix64 x = mix64 y"
  then have "x2 XOR drop_bit 31 x2 = y2 XOR drop_bit 31 y2"
    by (simp only: mix64_def Let_def x1_def y1_def x2_def y2_def)
  then have "x2 = y2" by (rule xorshift_inj [rotated]) simp
  then have "x1 XOR drop_bit 27 x1 = y1 XOR drop_bit 27 y1"
    unfolding x2_def y2_def by (rule mult_unit_inj [rotated, where i = "0x319642B2D24D8EC3"]) simp
  then have "x1 = y1" by (rule xorshift_inj [rotated]) simp
  then have "x XOR drop_bit 30 x = y XOR drop_bit 30 y"
    unfolding x1_def y1_def by (rule mult_unit_inj [rotated, where i = "0x96DE1B173F119089"]) simp
  then show "x = y" by (rule xorshift_inj [rotated]) simp
qed

lemma xor_left_cancel:
  fixes a x y :: "'a::len word"
  shows "a XOR x = a XOR y \<longleftrightarrow> x = y"
  by (metis xor.left_commute xor.right_neutral xor_self_eq)

lemma frame_seed_inj: "frame_seed s q = frame_seed s q' \<longleftrightarrow> q = q'"
  by (simp add: frame_seed_def inj_eq [OF mix64_inj] xor_left_cancel)

lemma frame_seed_session_inj: "frame_seed s q = frame_seed s' q \<longleftrightarrow> s = s'"
  by (metis frame_seed_def inj_eq [OF mix64_inj] xor_left_cancel xor.commute)

subsection \<open>The shape of a frame\<close>

lemma to_le_bytes_length [simp]: "length (to_le_bytes w) = 2"
  by (simp add: to_le_bytes_def)

lemma i16_to_le_bytes: "i16_from_le_bytes (ucast w, ucast (drop_bit 8 w)) = w"
  by (rule bit_word_eqI) (auto simp: i16_from_le_bytes_def bit_simps)

definition samples_of :: "bytes \<Rightarrow> int list" where
  "samples_of xs = map (\<lambda>c. sint (i16_from_le_bytes c)) (chunks_exact2 xs)"

definition gen_ok :: "bytes \<times> int \<Rightarrow> bool" where
  "gen_ok oc \<longleftrightarrow> even (length (fst oc)) \<and> 0 \<le> snd oc \<and> snd oc < SAW_PERIOD \<and>
     (\<forall>v \<in> set (samples_of (fst oc)). - 10256 \<le> v \<and> v \<le> 10254)"

lemma lane_value_range:
  assumes "0 \<le> c" and "c < SAW_PERIOD"
  shows "- 10256 \<le> lane_value noise lane c \<and> lane_value noise lane c \<le> 10254"
proof -
  have "drop_bit (16 * lane) noise AND 0x1FF \<le> (0x1FF :: u64)" by (rule word_and_le1)
  then have "uint (drop_bit (16 * lane) noise AND 0x1FF) \<le> 0x1FF" by (simp add: word_le_def)
  moreover have "0 \<le> uint (drop_bit (16 * lane) noise AND 0x1FF)" by simp
  ultimately show ?thesis
    using assms unfolding lane_value_def Let_def SAW_PERIOD_def NOISE_HALF_def by linarith
qed

lemma sint_word_of_int_small:
  assumes "- 32768 \<le> v" and "v < 32768"
  shows "sint (word_of_int v :: 16 word) = v"
  using assms by (simp add: sint_sbintrunc' signed_take_bit_int_eq_self)

lemma frame_lane_ok: "gen_ok oc \<Longrightarrow> gen_ok (frame_lane noise lane oc)"
proof -
  assume ok: "gen_ok oc"
  define v where "v = lane_value noise lane (snd oc)"
  have v: "- 10256 \<le> v" "v \<le> 10254"
    using lane_value_range ok by (auto simp: gen_ok_def v_def)
  have "samples_of (fst oc @ to_le_bytes (word_of_int v)) = samples_of (fst oc) @ [v]"
    using ok v by (simp add: samples_of_def gen_ok_def chunks_exact2_append to_le_bytes_def
      i16_to_le_bytes sint_word_of_int_small)
  then show "gen_ok (frame_lane noise lane oc)"
    using ok v by (auto simp: gen_ok_def frame_lane_def v_def [symmetric] next_carrier_def
      Let_def SAW_PERIOD_def SAW_STEP_def)
qed

lemma frame_lane_length: "length (fst (frame_lane noise lane oc)) = length (fst oc) + 2"
  by (simp add: frame_lane_def)

lemma fold_frame_lane:
  "gen_ok oc \<Longrightarrow> gen_ok (fold (frame_lane noise) ls oc)"
  "length (fst (fold (frame_lane noise) ls oc)) = length (fst oc) + 2 * length ls"
  by (induction ls arbitrary: oc) (simp_all add: frame_lane_ok frame_lane_length)

definition chunk_ok :: "nat \<Rightarrow> bytes \<times> u64 \<times> int \<Rightarrow> bool" where
  "chunk_ok n s \<longleftrightarrow> length (fst s) = 8 * n \<and> gen_ok (fst s, snd (snd s))"

lemma frame_chunk_ok: "chunk_ok n s \<Longrightarrow> chunk_ok (Suc n) (frame_chunk s)"
proof -
  assume ok: "chunk_ok n s"
  obtain out state carrier where s: "s = (out, state, carrier)" by (cases s)
  define oc where "oc = fold (frame_lane (mix64 (state + SPLITMIX_GAMMA))) [0..<4] (out, carrier)"
  have "length (fst oc) = length out + 8" and "gen_ok oc"
    using ok fold_frame_lane by (simp_all add: oc_def chunk_ok_def s)
  moreover have "frame_chunk s = (fst oc, state + SPLITMIX_GAMMA, snd oc)"
    by (simp only: frame_chunk_def s oc_def Let_def prod.case split_beta fst_conv snd_conv)
  ultimately show ?thesis using ok by (simp add: chunk_ok_def s)
qed

lemma frame_chunk_pow_ok: "chunk_ok 0 s \<Longrightarrow> chunk_ok n ((frame_chunk ^^ n) s)"
  by (induction n) (auto intro: frame_chunk_ok)

lemma frame_payload_ok:
  "length (frame_payload s q) = FRAME_BYTES"
  "\<forall>v \<in> set (samples_of (frame_payload s q)). - 10256 \<le> v \<and> v \<le> 10254"
proof -
  define r where
    "r = (frame_chunk ^^ (FRAME_BYTES div 8)) ([], frame_seed s q, uint (frame_seed s q) mod SAW_PERIOD)"
  have "chunk_ok 0 ([], frame_seed s q, uint (frame_seed s q) mod SAW_PERIOD)"
    by (simp add: chunk_ok_def gen_ok_def SAW_PERIOD_def samples_of_def)
  from frame_chunk_pow_ok [OF this, of "FRAME_BYTES div 8"]
  have ok: "chunk_ok (FRAME_BYTES div 8) r" unfolding r_def .
  have r: "frame_payload s q = fst r" by (simp only: frame_payload_def r_def Let_def)
  show "length (frame_payload s q) = FRAME_BYTES"
    using ok by (simp add: r chunk_ok_def FRAME_BYTES_def)
  show "\<forall>v \<in> set (samples_of (frame_payload s q)). - 10256 \<le> v \<and> v \<le> 10254"
    using ok by (simp add: r chunk_ok_def gen_ok_def)
qed

lemmas frame_payload_length [simp] = frame_payload_ok(1)

lemma frame_payload_nonempty [simp]: "frame_payload s q \<noteq> []"
  by (metis frame_payload_length FRAME_BYTES_def list.size(3) zero_neq_numeral)

end
