(* ===== verification/Verify.thy ===== *)
theory Verify
  imports Payload
begin

text \<open>
  The load generator's correctness checks, \<open>loadgen/rust/src/verify.rs\<close>: the expected stub output
  of a frame range, \<open>verify_partial\<close>, the range bookkeeping \<open>Continuity\<close> and the end-of-session
  \<open>check_tail\<close>. A mismatch's \<open>detail\<close> string is the value of \<open>mismatch_detail\<close>: one constructor per
  format string of the source, carrying the values the format string interpolates.
\<close>

definition GATEWAY_INFERENCE_TIMEOUT :: duration where
  "GATEWAY_INFERENCE_TIMEOUT = from_millis 2000"

definition TAIL_TOLERANCE :: duration where
  "TAIL_TOLERANCE =
     from_millis (2 * as_millis FLUSH_INTERVAL + 2 * as_millis GATEWAY_INFERENCE_TIMEOUT)"

definition TAIL_TOLERANCE_FRAMES :: u64 where
  "TAIL_TOLERANCE_FRAMES = of_nat (as_millis TAIL_TOLERANCE div as_millis FRAME_INTERVAL)"

definition RMS_TOLERANCE :: f64 where
  "RMS_TOLERANCE = round_ratio 1 1000000"

definition MAX_VERIFY_FRAMES :: u64 where
  "MAX_VERIFY_FRAMES = 30000"

record expected_config =
  ex_cpu_passes :: u32
  ex_model_delay_ms :: u64

definition default_expected :: expected_config where
  "default_expected = \<lparr>ex_cpu_passes = 4, ex_model_delay_ms = 75\<rparr>"

datatype mismatch_kind =
    ContinuityGap | ContinuityOverlap | InvalidRange | UnsentFrame | RangeTooLarge | MissingTail
  | MalformedMessage | InvalidPartial | Frames | AudioBytes | CpuPasses | ModelDelayMs | Checksum
  | ZeroCrossings | Samples | Rms | Transcript

fun as_str :: "mismatch_kind \<Rightarrow> string" where
  "as_str ContinuityGap = ''continuity_gap''"
| "as_str ContinuityOverlap = ''continuity_overlap''"
| "as_str InvalidRange = ''invalid_range''"
| "as_str UnsentFrame = ''unsent_frame''"
| "as_str RangeTooLarge = ''range_too_large''"
| "as_str MissingTail = ''missing_tail''"
| "as_str MalformedMessage = ''malformed_message''"
| "as_str InvalidPartial = ''invalid_partial''"
| "as_str Frames = ''frames''"
| "as_str AudioBytes = ''audio_bytes''"
| "as_str CpuPasses = ''cpu_passes''"
| "as_str ModelDelayMs = ''model_delay_ms''"
| "as_str Checksum = ''checksum''"
| "as_str ZeroCrossings = ''zero_crossings''"
| "as_str Samples = ''samples''"
| "as_str Rms = ''rms''"
| "as_str Transcript = ''transcript''"

datatype mismatch_detail =
    Detail_range u64 u64
  | Detail_frames u64 u64 u64 u64
  | Detail_u64 u64 u64
  | Detail_u32 u32 u32
  | Detail_f64 f64 f64
  | Detail_str string string
  | Detail_too_large u64 u64
  | Detail_gap u64 u64 u64 u64
  | Detail_overlap u64 u64 u64
  | Detail_unsent u64 u64
  | Detail_tail u64 u64 u64 u64
  | Detail_text string

record mismatch =
  mm_kind :: mismatch_kind
  mm_detail :: mismatch_detail

definition Mismatch :: "mismatch_kind \<Rightarrow> mismatch_detail \<Rightarrow> mismatch" where
  "Mismatch k d = \<lparr>mm_kind = k, mm_detail = d\<rparr>"

subsection \<open>Expected values\<close>

definition saturating_mul :: "u64 \<Rightarrow> u64 \<Rightarrow> u64" where
  "saturating_mul a b = (if uint a * uint b < 2 ^ 64 then a * b else - 1)"

definition saturating_sub :: "u64 \<Rightarrow> u64 \<Rightarrow> u64" where
  "saturating_sub a b = (if b \<le> a then a - b else 0)"

text \<open>The inclusive range \<open>oldest..=newest\<close> of frame numbers; empty when \<open>newest < oldest\<close>.\<close>

definition range_seqs :: "u64 \<Rightarrow> u64 \<Rightarrow> u64 list" where
  "range_seqs oldest newest =
     (if newest < oldest then [] else seq_from oldest (unat (newest - oldest) + 1))"

definition concat_payload :: "usize \<Rightarrow> u64 \<Rightarrow> u64 \<Rightarrow> bytes" where
  "concat_payload session_id oldest newest =
     (if newest < oldest then []
      else concat (map (frame_payload session_id) (range_seqs oldest newest)))"

definition expected_stub :: "usize \<Rightarrow> u64 \<Rightarrow> u64 \<Rightarrow> u32 \<Rightarrow> stub_result" where
  "expected_stub session_id oldest newest passes =
     compute_stub (concat_payload session_id oldest newest) passes"

definition rms_matches :: "f64 \<Rightarrow> f64 \<Rightarrow> bool" where
  "rms_matches actual expected =
     (let diff = f64_abs (f64_sub actual expected)
      in f64_le diff RMS_TOLERANCE \<or> f64_le diff (f64_mul RMS_TOLERANCE (f64_abs expected)))"

text \<open>One conditional \<open>out.push(\<dots>)\<close>.\<close>

definition push_if :: "bool \<Rightarrow> mismatch_kind \<Rightarrow> mismatch_detail \<Rightarrow> mismatch list" where
  "push_if b k d = (if b then [Mismatch k d] else [])"

definition verify_partial ::
  "usize \<Rightarrow> partial_message \<Rightarrow> expected_config \<Rightarrow> mismatch list" where
  "verify_partial session_id p expected =
     (let oldest = oldest_frame_seq p; newest = newest_frame_seq p in
      if oldest = 0 \<or> newest < oldest then [Mismatch InvalidRange (Detail_range oldest newest)]
      else
        let range = newest - oldest + 1;
            range_bytes = saturating_mul range (of_nat FRAME_BYTES);
            out = push_if (frames p \<noteq> range) Frames (Detail_frames (frames p) oldest newest range)
              @ push_if (audio_bytes p \<noteq> range_bytes) AudioBytes
                  (Detail_u64 (audio_bytes p) range_bytes)
              @ push_if (cpu_passes p \<noteq> ex_cpu_passes expected) CpuPasses
                  (Detail_u32 (cpu_passes p) (ex_cpu_passes expected))
              @ push_if (model_delay_ms p \<noteq> ex_model_delay_ms expected) ModelDelayMs
                  (Detail_u64 (model_delay_ms p) (ex_model_delay_ms expected))
        in if MAX_VERIFY_FRAMES < range
           then out @ [Mismatch RangeTooLarge (Detail_too_large range MAX_VERIFY_FRAMES)]
           else
             let want = expected_stub session_id oldest newest (ex_cpu_passes expected)
             in out
              @ push_if (checksum p \<noteq> st_checksum want) Checksum
                  (Detail_u32 (checksum p) (st_checksum want))
              @ push_if (zero_crossings p \<noteq> st_zero_crossings want) ZeroCrossings
                  (Detail_u64 (zero_crossings p) (st_zero_crossings want))
              @ push_if (samples p \<noteq> st_samples want) Samples
                  (Detail_u64 (samples p) (st_samples want))
              @ push_if (\<not> rms_matches (rms p) (st_rms want)) Rms
                  (Detail_f64 (rms p) (st_rms want))
              @ push_if (transcript p \<noteq> st_transcript want) Transcript
                  (Detail_str (transcript p) (st_transcript want)))"

subsection \<open>Continuity and the tail\<close>

record continuity =
  last_newest :: u64

definition continuity_default :: continuity where
  "continuity_default = \<lparr>last_newest = 0\<rparr>"

definition observe :: "u64 \<Rightarrow> u64 \<Rightarrow> continuity \<Rightarrow> mismatch option \<times> continuity" where
  "observe oldest newest c =
     (if oldest = 0 \<or> newest < oldest
      then (Some (Mismatch InvalidRange (Detail_range oldest newest)), c)
      else
        let expected = last_newest c + 1;
            mismatch =
              (if expected < oldest
               then Some (Mismatch ContinuityGap (Detail_gap oldest expected expected (oldest - 1)))
               else if oldest < expected
               then Some (Mismatch ContinuityOverlap (Detail_overlap oldest newest (last_newest c)))
               else None)
        in (mismatch, c\<lparr>last_newest := max (last_newest c) newest\<rparr>))"

definition check_tail :: "u64 \<Rightarrow> u64 \<Rightarrow> mismatch option" where
  "check_tail frames_sent last_reported =
     (let unreported = saturating_sub frames_sent last_reported
      in if TAIL_TOLERANCE_FRAMES < unreported
         then Some (Mismatch MissingTail
                (Detail_tail (last_reported + 1) frames_sent unreported TAIL_TOLERANCE_FRAMES))
         else None)"

text \<open>The mismatches of a whole session: its responses in arrival order.\<close>

fun observe_all :: "(u64 \<times> u64) list \<Rightarrow> continuity \<Rightarrow> mismatch list \<times> continuity" where
  "observe_all [] c = ([], c)"
| "observe_all ((oldest, newest) # rs) c =
     (case observe oldest newest c of (m, c') \<Rightarrow>
       case observe_all rs c' of (ms, c'') \<Rightarrow>
         ((case m of None \<Rightarrow> ms | Some x \<Rightarrow> x # ms), c''))"

subsection \<open>Frame ranges\<close>

lemma length_range_seqs: "oldest \<le> newest \<Longrightarrow> length (range_seqs oldest newest) = unat (newest - oldest) + 1"
  by (simp add: range_seqs_def not_less [symmetric])

lemma set_range_seqs: "set (range_seqs oldest newest) = {oldest..newest}"
proof (cases "newest < oldest")
  case True
  then show ?thesis by (simp add: range_seqs_def)
next
  case False
  then have le: "oldest \<le> newest" by simp
  have un: "unat (newest - oldest) = unat newest - unat oldest" using le by (simp add: unat_sub)
  have "x \<in> set (range_seqs oldest newest) \<longleftrightarrow> x \<in> {oldest..newest}" for x
  proof
    assume "x \<in> set (range_seqs oldest newest)"
    then obtain k where k: "k \<le> unat newest - unat oldest" and x: "x = oldest + of_nat k"
      using False by (force simp: range_seqs_def seq_from_def un less_Suc_eq_le
        simp del: upt_Suc)
    have lt: "unat newest < 2 ^ 64" using unsigned_less [of newest] by simp
    then have "unat x = unat oldest + k"
      using k le by (simp add: x unat_word_ariths unat_of_nat word_le_nat_alt)
    then show "x \<in> {oldest..newest}" using k le by (simp add: word_le_nat_alt)
  next
    assume "x \<in> {oldest..newest}"
    then have a: "oldest \<le> x" and b: "x \<le> newest" by simp_all
    have "x = oldest + of_nat (unat (x - oldest))" by simp
    moreover have "unat (x - oldest) \<le> unat (newest - oldest)"
      using a b by (simp add: un unat_sub word_le_nat_alt diff_le_mono)
    ultimately show "x \<in> set (range_seqs oldest newest)"
      using False by (auto simp: range_seqs_def seq_from_def image_iff less_Suc_eq_le
        simp del: upt_Suc intro!: bexI [of _ "unat (x - oldest)"])
  qed
  then show ?thesis by blast
qed

lemma length_concat_payload:
  "oldest \<le> newest \<Longrightarrow>
     length (concat_payload s oldest newest) = FRAME_BYTES * (unat (newest - oldest) + 1)"
  by (simp add: concat_payload_def length_concat comp_def length_range_seqs not_less [symmetric]
    sum_list_triv)

subsection \<open>What \<open>verify_partial\<close> accepts\<close>

lemma push_if_Nil [simp]: "push_if b k d = [] \<longleftrightarrow> \<not> b"
  by (simp add: push_if_def)

lemma push_if_True [simp]: "push_if True k d = [Mismatch k d]"
  by (simp add: push_if_def)

lemma verify_partial_Nil_iff:
  "verify_partial s p e = [] \<longleftrightarrow>
     (let oldest = oldest_frame_seq p; newest = newest_frame_seq p; range = newest - oldest + 1;
          want = expected_stub s oldest newest (ex_cpu_passes e)
      in oldest \<noteq> 0 \<and> oldest \<le> newest \<and> range \<le> MAX_VERIFY_FRAMES \<and> frames p = range \<and>
         audio_bytes p = saturating_mul range (of_nat FRAME_BYTES) \<and>
         cpu_passes p = ex_cpu_passes e \<and> model_delay_ms p = ex_model_delay_ms e \<and>
         checksum p = st_checksum want \<and> zero_crossings p = st_zero_crossings want \<and>
         samples p = st_samples want \<and> rms_matches (rms p) (st_rms want) \<and>
         transcript p = st_transcript want)"
  unfolding verify_partial_def Let_def by (auto simp: not_less)

lemma validate_Ok_iff:
  "validate p = Ok () \<longleftrightarrow>
     0 < oldest_frame_seq p \<and> oldest_frame_seq p \<le> newest_frame_seq p \<and> 0 < frames p \<and>
     0 < samples p \<and> transcript p \<noteq> [] \<and> 0 < audio_bytes p \<and> is_finite (rms p) \<and>
     is_finite (flush_lateness_ms p) \<and> f64_le f64_zero (flush_lateness_ms p)"
  unfolding validate_def by auto

lemma rms_matches_refl:
  assumes "is_finite x"
  shows "rms_matches x x"
proof -
  have "f64_sub x x = f64_zero" using assms by (rule f64_sub_self)
  moreover have "f64_le f64_zero RMS_TOLERANCE"
    unfolding RMS_TOLERANCE_def by (rule f64_zero_le_round_ratio) simp
  ultimately show ?thesis by (simp add: rms_matches_def f64_abs_zero)
qed

lemma verify_partial_checksum:
  assumes "oldest_frame_seq p \<noteq> 0" and "oldest_frame_seq p \<le> newest_frame_seq p"
    and "newest_frame_seq p - oldest_frame_seq p + 1 \<le> MAX_VERIFY_FRAMES"
    and "checksum p \<noteq> st_checksum (expected_stub s (oldest_frame_seq p) (newest_frame_seq p) (ex_cpu_passes e))"
  shows "Checksum \<in> mm_kind ` set (verify_partial s p e)"
  using assms unfolding verify_partial_def Let_def
  by (simp add: not_less [symmetric] image_Un Mismatch_def)

subsection \<open>Continuity\<close>

lemma observe_None_iff:
  "fst (observe oldest newest c) = None \<longleftrightarrow>
     oldest \<noteq> 0 \<and> oldest \<le> newest \<and> oldest = last_newest c + 1"
  by (auto simp: observe_def Let_def not_less)

lemma observe_last:
  "last_newest (snd (observe oldest newest c)) =
     (if oldest = 0 \<or> newest < oldest then last_newest c else max (last_newest c) newest)"
  by (simp add: observe_def Let_def)

lemma observe_cases:
  obtains x where "observe oldest newest c = (Some x, snd (observe oldest newest c))"
  | "observe oldest newest c = (None, snd (observe oldest newest c))"
  by (cases "fst (observe oldest newest c)") (metis prod.collapse)+

lemma observe_all_tiles:
  assumes "fst (observe_all rs c) = []"
  shows "concat (map (case_prod range_seqs) rs) =
           seq_from (last_newest c + 1) (unat (last_newest (snd (observe_all rs c))) - unat (last_newest c))
         \<and> last_newest c \<le> last_newest (snd (observe_all rs c))"
  using assms
proof (induction rs c rule: observe_all.induct)
  case (1 c)
  then show ?case by simp
next
  case (2 oldest newest rs c)
  define l where "l = last_newest c"
  define c' where "c' = snd (observe oldest newest c)"
  have ob: "observe oldest newest c = (None, c')" and rs: "fst (observe_all rs c') = []"
    using 2(2) by (auto simp: c'_def split: prod.splits option.splits)
  have "fst (observe oldest newest c) = None" by (simp add: ob)
  from observe_None_iff [THEN iffD1, OF this, folded l_def] have o: "oldest \<noteq> 0" "oldest \<le> newest" "oldest = l + 1" by blast+
  note w = word_succ_le [of l newest, folded o(3), OF o(1,2)]
  have l': "last_newest c' = newest"
    using o(1,2) max.absorb2 [OF less_imp_le [OF w(1)]]
    by (simp only: c'_def observe_last l_def [symmetric] not_less [symmetric] simp_thms if_False)
  define L where "L = last_newest (snd (observe_all rs c'))"
  have IH: "concat (map (case_prod range_seqs) rs) = seq_from (newest + 1) (unat L - unat newest)"
    and le: "newest \<le> L"
    using 2(1) [OF ob [symmetric] rs] by (auto simp: l' L_def)
  have "oldest + of_nat (unat newest - unat l) = newest + 1"
    unfolding w(2) [symmetric] by simp
  then have "range_seqs oldest newest @ concat (map (case_prod range_seqs) rs) =
      seq_from oldest (unat newest - unat l + (unat L - unat newest))"
    using seq_from_append [of oldest "unat newest - unat l" "unat L - unat newest"] o w(2)
    by (simp add: IH range_seqs_def not_less [symmetric] add.commute [of 1])
  moreover have "snd (observe_all ((oldest, newest) # rs) c) = snd (observe_all rs c')"
    using ob by (simp split: prod.splits)
  moreover have "unat l < unat newest" "unat newest \<le> unat L"
    using w(1) le by (simp_all add: word_le_nat_alt word_less_nat_alt)
  ultimately show ?case
    using o(3) by (auto simp: L_def [symmetric] l_def [symmetric] word_le_nat_alt)
qed

definition wf_range :: "u64 \<times> u64 \<Rightarrow> bool" where
  "wf_range r \<longleftrightarrow> fst r \<noteq> 0 \<and> fst r \<le> snd r"

lemma observe_all_wf:
  "fst (observe_all rs c) = [] \<Longrightarrow> list_all wf_range rs"
proof (induction rs c rule: observe_all.induct)
  case (2 oldest newest rs c)
  define c' where "c' = snd (observe oldest newest c)"
  have ob: "observe oldest newest c = (None, c')" and rs: "fst (observe_all rs c') = []"
    using 2(2) by (auto simp: c'_def split: prod.splits option.splits)
  have "fst (observe oldest newest c) = None" by (simp add: ob)
  from observe_None_iff [THEN iffD1, OF this] have "wf_range (oldest, newest)"
    by (auto simp: wf_range_def)
  with 2(1) [OF ob [symmetric] rs] show ?case by simp
qed simp

lemma observe_all_complete:
  assumes "list_all wf_range rs"
    and "concat (map (case_prod range_seqs) rs) = seq_from (last_newest c + 1) n"
  shows "fst (observe_all rs c) = []"
  using assms
proof (induction rs c arbitrary: n rule: observe_all.induct)
  case (1 c)
  then show ?case by simp
next
  case (2 oldest newest rs c)
  define l where "l = last_newest c"
  define k where "k = unat (newest - oldest) + 1"
  have o: "oldest \<noteq> 0" "oldest \<le> newest" using 2(2) by (auto simp: wf_range_def)
  then have rk: "range_seqs oldest newest = seq_from oldest k"
    by (simp add: range_seqs_def k_def not_less [symmetric])
  have eq: "seq_from oldest k @ concat (map (case_prod range_seqs) rs) = seq_from (l + 1) n"
    using 2(3) by (simp add: rk l_def)
  from arg_cong [OF this, of length] have n: "k \<le> n" and kpos: "0 < k" by (auto simp: k_def)
  from arg_cong [OF eq, of hd] have ol: "oldest = l + 1"
    using n kpos by (simp add: hd_append hd_seq_from)
  have "fst (observe oldest newest c) = None"
    using o ol observe_None_iff [of oldest newest c] by (simp only: l_def simp_thms)
  then obtain c' where ob: "observe oldest newest c = (None, c')" by (metis fst_conv prod.exhaust)
  note w = word_succ_le [of l newest, folded ol, OF o]
  have "c' = snd (observe oldest newest c)" by (simp add: ob)
  then have l': "last_newest c' = newest"
    using o max.absorb2 [OF less_imp_le [OF w(1)]]
    by (simp only: observe_last l_def [symmetric] not_less [symmetric] simp_thms if_False)
  have "newest + 1 = l + 1 + of_nat k" by (simp add: k_def ol)
  then have "seq_from oldest k @ concat (map (case_prod range_seqs) rs) =
      seq_from oldest k @ seq_from (newest + 1) (n - k)"
    using eq n seq_from_append [of "l + 1" k "n - k"] by (simp only: ol) simp
  then have "fst (observe_all rs c') = []"
    using 2(2) by (intro 2(1) [OF ob [symmetric]]) (auto simp: l')
  then show ?case by (simp add: ob split: prod.splits)
qed

lemma observe_all_last:
  "last_newest (snd (observe_all rs c)) =
     Max (insert (last_newest c) (snd ` set (filter wf_range rs)))"
proof (induction rs c rule: observe_all.induct)
  case (1 c)
  then show ?case by simp
next
  case (2 oldest newest rs c)
  define c' where "c' = snd (observe oldest newest c)"
  define W where "W rs = snd ` set (filter wf_range rs)" for rs :: "(u64 \<times> u64) list"
  have fin: "finite (W rs)" for rs
    by (simp add: W_def)
  obtain m where ob: "observe oldest newest c = (m, c')" by (metis c'_def prod.collapse)
  have "last_newest (snd (observe_all ((oldest, newest) # rs) c)) = Max (insert (last_newest c') (W rs))"
    using 2 [OF ob [symmetric]] by (simp add: ob W_def split_beta)
  also have "\<dots> = Max (insert (last_newest c) (W ((oldest, newest) # rs)))"
  proof (cases "wf_range (oldest, newest)")
    case True
    then have "W ((oldest, newest) # rs) = insert newest (W rs)" by (auto simp: W_def)
    moreover have "last_newest c' = max (last_newest c) newest"
      using True by (auto simp: c'_def observe_last wf_range_def)
    ultimately show ?thesis
      by (cases "W rs = {}") (simp_all add: fin max.assoc)
  next
    case False
    then have "W ((oldest, newest) # rs) = W rs" by (auto simp: W_def)
    moreover have "last_newest c' = last_newest c" using False by (auto simp: c'_def observe_last wf_range_def)
    ultimately show ?thesis by simp
  qed
  finally show ?case by (simp only: W_def)
qed

subsection \<open>The properties\<close>

lemma covered_frames:
  assumes "observe_all rs continuity_default = ([], c)"
    and "check_tail frames_sent (last_newest c) = None"
    and "1 \<le> k" and "k + unat TAIL_TOLERANCE_FRAMES \<le> unat frames_sent"
  shows "distinct (concat (map (case_prod range_seqs) rs)) \<and>
         of_nat k \<in> set (concat (map (case_prod range_seqs) rs))"
proof -
  define L where "L = last_newest c"
  have tiles: "concat (map (case_prod range_seqs) rs) = seq_from 1 (unat L)"
    using observe_all_tiles [of rs continuity_default] assms(1)
    by (simp add: L_def continuity_default_def)
  have "unat L < 2 ^ LENGTH(64)" by (rule unsigned_less)
  then have "distinct (seq_from (1 :: u64) (unat L))" by (intro distinct_seq_from) simp
  moreover have "k \<le> unat L"
  proof (cases "L \<le> frames_sent")
    case True
    then have "frames_sent - L \<le> TAIL_TOLERANCE_FRAMES"
      using assms(2) by (simp add: check_tail_def saturating_sub_def L_def Let_def not_less split: if_splits)
    then have "unat frames_sent - unat L \<le> unat TAIL_TOLERANCE_FRAMES"
      using True by (simp add: word_le_nat_alt unat_sub)
    then show ?thesis using assms(4) by linarith
  next
    case False
    then show ?thesis using assms(4) by (simp add: word_le_nat_alt)
  qed
  ultimately show ?thesis using assms(3) by (simp only: tiles seq_from_one_mem simp_thms)
qed

text \<open>
  C7: a session that passes the continuity check on every response and the tail check at the end
  has every frame number it sent, up to the last \<open>TAIL_TOLERANCE_FRAMES\<close> of them, reported by
  exactly one response: the reported ranges list no number twice and miss none of these.
\<close>

theorem accepted_session_covers:
  assumes "observe_all rs continuity_default = ([], c)"
    and "check_tail frames_sent (last_newest c) = None"
    and "1 \<le> k" and "k + unat TAIL_TOLERANCE_FRAMES \<le> unat frames_sent"
  shows "distinct (concat (map (case_prod range_seqs) rs)) \<and>
         of_nat k \<in> set (concat (map (case_prod range_seqs) rs))"
  using assms by (rule covered_frames)

theorem accepted_session_covers_witness:
  "distinct (concat (map (case_prod range_seqs) [(1, 3), (4, 10)])) \<and>
   of_nat 7 \<in> set (concat (map (case_prod range_seqs) [(1, 3), (4, 10)]))"
  by (rule accepted_session_covers [where c = "\<lparr>last_newest = 10\<rparr>" and frames_sent = 307])
    (simp_all add: observe_def continuity_default_def check_tail_def saturating_sub_def
      TAIL_TOLERANCE_FRAMES_def TAIL_TOLERANCE_def FLUSH_INTERVAL_def GATEWAY_INFERENCE_TIMEOUT_def
      FRAME_INTERVAL_def)

text \<open>
  C29: the continuity check is exact. A session's responses raise no mismatch if and only if
  their ranges are well formed and, put one after another in arrival order, they list the frame
  numbers \<open>1, 2, 3, \<dots>\<close> without a gap, a repetition or a reordering.
\<close>

theorem continuity_exact:
  "fst (observe_all rs continuity_default) = [] \<longleftrightarrow>
     list_all wf_range rs \<and>
     concat (map (case_prod range_seqs) rs) =
       seq_from 1 (length (concat (map (case_prod range_seqs) rs)))"
  (is "?l \<longleftrightarrow> ?r")
proof
  assume ?l
  from observe_all_wf [OF this] observe_all_tiles [OF this] show ?r
    by (simp add: continuity_default_def)
next
  assume r: ?r
  show ?l
    by (rule observe_all_complete [OF conjunct1 [OF r], where n = "length (concat (map (case_prod range_seqs) rs))"])
      (use r in \<open>simp only: continuity_default_def continuity.simps add_0\<close>)
qed

text \<open>
  Whatever arrives, the tracker ends at the highest \<open>newest_frame_seq\<close> among the well-formed
  responses (0 if there was none): malformed responses never move it, stale ones never lower it.
\<close>

lemma continuity_tracks_maximum:
  "last_newest (snd (observe_all rs continuity_default)) =
     fold max (map snd (filter wf_range rs)) 0"
  using Max.set_eq_fold [of 0 "map snd (filter wf_range rs)"]
  by (simp only: observe_all_last continuity_default_def continuity.simps list.set set_map)

subsection \<open>Honest and dishonest partials\<close>

lemma compute_stub_rms_finite:
  assumes "unat n * (length xs div 2) < 2 ^ 64"
  shows "is_finite (st_rms (compute_stub xs n))"
proof (cases "2 \<le> length xs \<and> 0 < n")
  case True
  then show ?thesis using stub_rms_accuracy [of xs n] assms by simp
next
  case False
  then have z: "unat n * (length xs div 2) = 0" by (auto simp: not_le simp flip: word_neq_0_conv)
  have "lv_sample_count (stub_loop xs n) = 0" unfolding stub_loop_count z by simp
  then show ?thesis by (simp add: compute_stub_def stub_rms_def f64_zero_def Let_def)
qed

lemma range_small:
  assumes "oldest \<le> newest" and "newest - oldest + 1 \<le> MAX_VERIFY_FRAMES"
    and "newest - oldest + 1 \<noteq> 0"
  shows "unat (newest - oldest) + 1 \<le> 30000"
    and "unat (newest - oldest + 1) = unat (newest - oldest) + 1"
proof -
  show u: "unat (newest - oldest + 1) = unat (newest - oldest) + 1"
    using assms(3) by (rule unat_succ)
  show "unat (newest - oldest) + 1 \<le> 30000"
    using assms(2) u by (simp add: word_le_nat_alt MAX_VERIFY_FRAMES_def)
qed

lemma range_nonzero:
  fixes oldest newest :: u64
  assumes "oldest \<noteq> 0" and "oldest \<le> newest"
  shows "newest - oldest + 1 \<noteq> 0"
proof
  assume z: "newest - oldest + 1 = 0"
  then have m1: "newest - oldest = - 1" by (simp add: eq_neg_iff_add_eq_0)
  have "unat (newest - oldest) = unat newest - unat oldest" using assms(2) by (rule unat_sub)
  moreover have "unat (- 1 :: u64) = 2 ^ 64 - 1"
    by (simp add: unsigned_minus_1_eq_mask mask_eq_exp_minus_1)
  moreover have "unat newest < 2 ^ 64" using unsigned_less [of newest] by simp
  moreover have "0 < unat oldest" using assms(1) by (simp add: unat_gt_0)
  ultimately show False using m1 by simp
qed

lemma concat_payload_samples:
  assumes "oldest \<noteq> 0" and "oldest \<le> newest" and "newest - oldest + 1 \<le> MAX_VERIFY_FRAMES"
  shows "length (concat_payload s oldest newest) = 640 * unat (newest - oldest + 1)"
    and "unat (n :: u32) * (length (concat_payload s oldest newest) div 2) < 2 ^ 64"
proof -
  note r = range_small [OF assms(2,3) range_nonzero [OF assms(1,2)]]
  show l: "length (concat_payload s oldest newest) = 640 * unat (newest - oldest + 1)"
    using assms(2) by (simp add: length_concat_payload FRAME_BYTES_def r(2))
  have "unat n < 2 ^ 32" using unsigned_less [of n] by simp
  then have "unat n * (320 * unat (newest - oldest + 1)) \<le> 2 ^ 32 * (320 * 30000)"
    using r by (intro mult_mono) auto
  then show "unat n * (length (concat_payload s oldest newest) div 2) < 2 ^ 64"
    by (simp add: l)
qed

lemma honest_audio_bytes:
  assumes "oldest \<noteq> 0" and "oldest \<le> newest" and "newest - oldest + 1 \<le> MAX_VERIFY_FRAMES"
  shows "saturating_mul (newest - oldest + 1) (of_nat FRAME_BYTES) =
           of_nat (length (concat_payload s oldest newest))"
proof -
  define r where "r = newest - oldest + 1"
  have "unat r \<le> 30000"
    using range_small [OF assms(2,3) range_nonzero [OF assms(1,2)]] by (simp add: r_def)
  then have "uint r \<le> 30000" by (simp only: uint_nat)
  then have "uint r * uint (640 :: u64) < 2 ^ 64" by simp
  then have "saturating_mul r 640 = r * 640" by (simp add: saturating_mul_def)
  also have "\<dots> = of_nat (640 * unat r)" by simp
  finally show ?thesis
    by (simp add: r_def FRAME_BYTES_def concat_payload_samples(1) [OF assms])
qed

lemma honest_audio_bytes_pos:
  assumes "oldest \<noteq> 0" and "oldest \<le> newest" and "newest - oldest + 1 \<le> MAX_VERIFY_FRAMES"
  shows "0 < (of_nat (length (concat_payload s oldest newest)) :: u64)"
proof -
  note r = range_small [OF assms(2,3) range_nonzero [OF assms(1,2)]]
  note l = concat_payload_samples(1) [OF assms, of s]
  have "length (concat_payload s oldest newest) < 2 ^ 64" using r l by simp
  then have "unat (of_nat (length (concat_payload s oldest newest)) :: u64) =
      length (concat_payload s oldest newest)" by (simp add: unat_of_nat)
  then show ?thesis using l r(2) by (simp add: word_less_nat_alt)
qed

lemma pool_word_nonempty: "pool_word c \<noteq> []"
proof -
  have "\<forall>w \<in> set TRANSCRIPT_POOL. w \<noteq> []" by (simp add: TRANSCRIPT_POOL_def)
  moreover have "0 < length TRANSCRIPT_POOL" by (simp add: TRANSCRIPT_POOL_def)
  ultimately show ?thesis unfolding pool_word_def by (metis mod_less_divisor nth_mem)
qed

text \<open>The partial an honest gateway sends for a batch, from the inference result of its audio.\<close>

definition honest_partial ::
  "stub_result \<Rightarrow> u64 \<Rightarrow> u64 \<Rightarrow> expected_config \<Rightarrow> f64 \<Rightarrow> u64 \<Rightarrow> partial_message" where
  "honest_partial r oldest newest e lateness inflight =
     \<lparr>oldest_frame_seq = oldest, newest_frame_seq = newest, frames = newest - oldest + 1,
      rms = st_rms r, zero_crossings = st_zero_crossings r, checksum = st_checksum r,
      samples = st_samples r, transcript = st_transcript r, audio_bytes = st_audio_bytes r,
      cpu_passes = ex_cpu_passes e, model_delay_ms = ex_model_delay_ms e,
      flush_lateness_ms = lateness, inflight_model_jobs = inflight\<rparr>"

lemma honest_partial_verifies:
  assumes "oldest \<noteq> 0" and "oldest \<le> newest" and "newest - oldest + 1 \<le> MAX_VERIFY_FRAMES"
  shows "verify_partial s (honest_partial (compute_stub (concat_payload s oldest newest) (ex_cpu_passes e))
           oldest newest e lateness inflight) e = []"
proof -
  define xs where "xs = concat_payload s oldest newest"
  define r where "r = compute_stub xs (ex_cpu_passes e)"
  note len = concat_payload_samples [OF assms, where s = s, folded xs_def]
  have fin: "is_finite (st_rms r)" unfolding r_def by (rule compute_stub_rms_finite, rule len(2))
  show ?thesis
    unfolding verify_partial_Nil_iff Let_def
    using assms rms_matches_refl [OF fin] honest_audio_bytes [OF assms, of s]
    by (simp add: honest_partial_def expected_stub_def xs_def [symmetric] r_def [symmetric])
      (simp add: r_def compute_stub_def Let_def)
qed

lemma honest_partial_valid:
  assumes "oldest \<noteq> 0" and "oldest \<le> newest" and "newest - oldest + 1 \<le> MAX_VERIFY_FRAMES"
    and "0 < n" and "is_finite lateness" and "f64_le f64_zero lateness"
  shows "validate (honest_partial (compute_stub (concat_payload s oldest newest) n) oldest newest e lateness inflight) = Ok ()"
proof -
  define xs where "xs = concat_payload s oldest newest"
  define r where "r = compute_stub xs n"
  note len = concat_payload_samples [OF assms(1-3), where s = s, folded xs_def]
  have nz: "newest - oldest + 1 \<noteq> 0" using assms(1,2) by (rule range_nonzero)
  then have pos: "0 < unat (newest - oldest + 1)" by (simp add: unat_gt_0)
  have fin: "is_finite (st_rms r)" unfolding r_def by (rule compute_stub_rms_finite, rule len(2))
  have "st_samples r = of_nat (unat n * (length xs div 2))"
    by (simp add: r_def compute_stub_def stub_loop_count Let_def)
  then have "unat (st_samples r) = unat n * (length xs div 2)"
    using len(2) [of n] by (simp only: unat_of_nat) simp
  moreover have "0 < unat n * (length xs div 2)"
    using assms(4) pos by (simp add: len(1) unat_gt_0 word_neq_0_conv)
  ultimately have "0 < st_samples r" by (simp only: word_less_nat_alt unat_0)
  moreover have "0 < st_audio_bytes r"
    using honest_audio_bytes_pos [OF assms(1-3), of s]
    by (simp add: r_def xs_def compute_stub_def Let_def)
  moreover have "st_transcript r \<noteq> []"
    by (simp add: r_def compute_stub_def Let_def pool_word_nonempty)
  ultimately show ?thesis
    using assms(1,2,5,6) fin nz
    by (simp only: validate_Ok_iff honest_partial_def partial_message.simps
      xs_def [symmetric] r_def [symmetric] word_neq_0_conv simp_thms)
qed

text \<open>
  C16: no false alarm. The partial of an honest gateway, whose inference ran over exactly the frames
  \<open>oldest..=newest\<close> of the session, is valid and raises no mismatch.
\<close>

theorem honest_partial_accepted:
  assumes "oldest \<noteq> 0" and "oldest \<le> newest" and "newest - oldest + 1 \<le> MAX_VERIFY_FRAMES"
    and "0 < ex_cpu_passes e" and "is_finite lateness" and "f64_le f64_zero lateness"
  shows "let p = honest_partial (compute_stub (concat_payload s oldest newest) (ex_cpu_passes e))
                   oldest newest e lateness inflight
         in validate p = Ok () \<and> verify_partial s p e = []"
  using honest_partial_valid [OF assms] honest_partial_verifies [OF assms(1-3)] by (simp add: Let_def)

theorem honest_partial_accepted_witness:
  "let p = honest_partial (compute_stub (concat_payload 0 1 50) (ex_cpu_passes default_expected))
             1 50 default_expected f64_zero 0
   in validate p = Ok () \<and> verify_partial 0 p default_expected = []"
proof (rule honest_partial_accepted)
  show "(1 :: u64) \<noteq> 0" and "(1 :: u64) \<le> 50" and "(50 :: u64) - 1 + 1 \<le> MAX_VERIFY_FRAMES"
    by (simp_all add: MAX_VERIFY_FRAMES_def)
  show "0 < ex_cpu_passes default_expected" by (simp add: default_expected_def)
  show "is_finite f64_zero" and "f64_le f64_zero f64_zero" by (simp_all add: f64_zero_def)
qed

text \<open>
  C30: no missed corruption, for single-pass inference. If the audio the gateway had inferred differs
  from the frames the partial claims in exactly one sample, the partial is reported with a checksum
  mismatch, whatever else it says.
\<close>

theorem corrupted_sample_detected:
  assumes "oldest_frame_seq p \<noteq> 0" and "oldest_frame_seq p \<le> newest_frame_seq p"
    and "newest_frame_seq p - oldest_frame_seq p + 1 \<le> MAX_VERIFY_FRAMES"
    and "ex_cpu_passes e = 1" and "checksum p = st_checksum (compute_stub ys 1)"
    and "chunks_exact2 (concat_payload s (oldest_frame_seq p) (newest_frame_seq p)) = us @ c # vs"
    and "chunks_exact2 ys = us @ d # vs" and "c \<noteq> d"
  shows "Checksum \<in> mm_kind ` set (verify_partial s p e)"
proof (rule verify_partial_checksum [OF assms(1-3)])
  show "checksum p \<noteq> st_checksum (expected_stub s (oldest_frame_seq p) (newest_frame_seq p) (ex_cpu_passes e))"
    using assms(4-8)
    by (simp add: expected_stub_def compute_stub_one_pass checksum_fold_inj)
qed

text \<open>The partial of a gateway that corrupted the first byte of the first frame.\<close>

definition corrupted_first :: "bytes \<Rightarrow> bytes" where
  "corrupted_first xs = (hd xs + 1) # tl xs"

theorem corrupted_sample_detected_witness:
  "let p = honest_partial (compute_stub (corrupted_first (concat_payload 0 1 1)) 1) 1 1
             \<lparr>ex_cpu_passes = 1, ex_model_delay_ms = 75\<rparr> f64_zero 0
   in Checksum \<in> mm_kind ` set (verify_partial 0 p \<lparr>ex_cpu_passes = 1, ex_model_delay_ms = 75\<rparr>)"
proof -
  define xs where "xs = concat_payload 0 1 1"
  have "length xs = 640"
    by (simp add: xs_def concat_payload_def range_seqs_def seq_from_def FRAME_BYTES_def)
  then obtain a b rest where xs: "xs = a # b # rest"
    by (metis length_0_conv list.exhaust list.size(4) numeral_eq_one_iff One_nat_def add_0
      numeral_eq_iff semiring_norm(85) zero_neq_numeral)
  show ?thesis
    unfolding Let_def
    by (rule corrupted_sample_detected [where ys = "corrupted_first xs" and us = "[]"
          and c = "(a, b)" and d = "(a + 1, b)" and vs = "chunks_exact2 rest"])
      (simp_all add: honest_partial_def xs_def [symmetric] MAX_VERIFY_FRAMES_def,
       simp_all add: corrupted_first_def xs)
qed

end
