(* ===== verification/Gateway.thy ===== *)
theory Gateway
  imports Verify
begin

text \<open>
  What every gateway of the benchmark promises its clients, and what the load generator may conclude
  from it. The contract is the locale \<open>stt_gateway\<close>: in every reachable state the messages sent to a
  session answer for the frames it accepted, in order and each frame at most once, and every partial
  carries the stub's result for exactly the frames it names. The conclusions are proved once, here:
  the load generator's continuity check and its bit-exact verification accept every message.

  The messages are those the load generator decodes; \<open>'w\<close> is everything that is fixed during a run
  (configuration, environment, which session), \<open>'s\<close> the gateway's state.
\<close>

definition frames_of :: "bytes list \<Rightarrow> u64 \<Rightarrow> u64 \<Rightarrow> bytes list" where
  "frames_of hist oldest newest = take (unat newest - unat oldest + 1) (drop (unat oldest - 1) hist)"

text \<open>The ranges follow each other without gap or overlap from \<open>a + 1\<close> to \<open>b\<close>.\<close>

fun tiles :: "(u64 \<times> u64) list \<Rightarrow> nat \<Rightarrow> nat \<Rightarrow> bool" where
  "tiles [] a b \<longleftrightarrow> a = b"
| "tiles ((oldest, newest) # rs) a b \<longleftrightarrow>
     unat oldest = a + 1 \<and> oldest \<le> newest \<and> tiles rs (unat newest) b"

lemma tiles_append: "tiles (rs @ [(oldest, newest)]) a b \<longleftrightarrow>
    (\<exists>k. tiles rs a k \<and> unat oldest = k + 1 \<and> oldest \<le> newest \<and> b = unat newest)"
  by (induction rs a b rule: tiles.induct) auto

lemma tiles_le: "tiles rs a b \<Longrightarrow> a \<le> b"
  by (induction rs a b rule: tiles.induct) (auto simp: word_le_nat_alt)

text \<open>The frame numbers a list of ranges reports, in order.\<close>

definition reported_seqs :: "(u64 \<times> u64) list \<Rightarrow> nat list" where
  "reported_seqs rs = concat (map (\<lambda>r. [unat (fst r)..<unat (snd r) + 1]) rs)"

lemma tiles_seqs: "tiles rs a b \<Longrightarrow> reported_seqs rs = [a + 1..<b + 1]"
proof (induction rs arbitrary: a)
  case (Cons r rs)
  obtain oldest newest where r: "r = (oldest, newest)" by (cases r)
  define n where "n = unat newest"
  have o: "unat oldest = a + 1" "a + 1 \<le> n" "n \<le> b" and IH: "reported_seqs rs = [n + 1..<b + 1]"
    using Cons by (auto simp: r n_def word_le_nat_alt dest: tiles_le)
  have "[a + 1..<b + 1] = [a + 1..<n + 1] @ [n + 1..<b + 1]"
    using upt_add_eq_append [of "a + 1" "n + 1" "b - n"] o by simp
  then show ?case using o IH by (simp add: reported_seqs_def r n_def [symmetric] del: upt_Suc)
qed (simp add: reported_seqs_def)

lemma frames_of_append:
  assumes "0 < unat oldest" and "oldest \<le> n" and "unat n \<le> length hist"
  shows "frames_of (hist @ fs) oldest n = frames_of hist oldest n"
  using assms by (simp add: frames_of_def word_le_nat_alt)

subsection \<open>Messages as the load generator sees them\<close>

fun msg_seqs :: "server_message \<Rightarrow> u64 \<times> u64" where
  "msg_seqs (Partial p) = (oldest_frame_seq p, newest_frame_seq p)"
| "msg_seqs (Error e) = (em_oldest_frame_seq e, em_newest_frame_seq e)"

text \<open>A partial that carries the stub's result for exactly the frames it names.\<close>

definition honest_report :: "expected_config \<Rightarrow> bytes list \<Rightarrow> partial_message \<Rightarrow> bool" where
  "honest_report e hist p \<longleftrightarrow>
     0 < unat (oldest_frame_seq p) \<and> oldest_frame_seq p \<le> newest_frame_seq p \<and>
     unat (newest_frame_seq p) \<le> length hist \<and>
     p = honest_partial
           (compute_stub (concat (frames_of hist (oldest_frame_seq p) (newest_frame_seq p))) (ex_cpu_passes e))
           (oldest_frame_seq p) (newest_frame_seq p) e (flush_lateness_ms p) (inflight_model_jobs p)"

subsection \<open>Tiling and the continuity check\<close>

lemma tiles_observe:
  "tiles rs (unat (last_newest c)) b \<Longrightarrow> observe_all rs c = ([], \<lparr>last_newest = of_nat b\<rparr>)"
proof (induction rs arbitrary: c)
  case Nil
  then have "of_nat b = last_newest c" by auto
  then show ?case by simp
next
  case (Cons r rs)
  obtain oldest newest where r: "r = (oldest, newest)" by (cases r)
  define l where "l = last_newest c"
  have o: "unat oldest = unat l + 1" "oldest \<le> newest" "tiles rs (unat newest) b"
    using Cons.prems by (simp_all add: r l_def)
  have "of_nat (unat oldest) = (of_nat (unat l + 1) :: u64)" by (simp only: o(1))
  then have ol: "oldest = l + 1" by simp
  have nz: "oldest \<noteq> 0" using o(1) by auto
  have lt: "l \<le> newest" using o(1,2) by (simp add: word_le_nat_alt)
  have "observe oldest newest c = (None, \<lparr>last_newest = newest\<rparr>)"
    using nz o(2) ol lt by (simp add: observe_def l_def [symmetric] not_less [symmetric] max_def)
  then show ?case using Cons.IH [of "\<lparr>last_newest = newest\<rparr>"] o(3) by (simp add: r)
qed

subsection \<open>The frames of a generated session\<close>

text \<open>The audio of a range of a generated session is what the verifier concatenates.\<close>

lemma frames_of_session:
  assumes "0 < unat oldest" and "oldest \<le> newest" and "unat newest \<le> n" and "n < 2 ^ 64"
  shows "concat (frames_of (map (frame_payload sid) (seq_from 1 n)) oldest newest) = concat_payload sid oldest newest"
proof -
  define k where "k = unat (newest - oldest) + 1"
  have u: "unat (newest - oldest) = unat newest - unat oldest" using assms(2) by (rule unat_sub)
  have on: "unat oldest \<le> unat newest" using assms(2) by (simp add: word_le_nat_alt)
  have "frames_of (map (frame_payload sid) (seq_from 1 n)) oldest newest =
      map (frame_payload sid) (take k (drop (unat oldest - 1) (seq_from 1 n)))"
    by (simp add: frames_of_def k_def u take_map drop_map)
  also have "take k (drop (unat oldest - 1) (seq_from 1 n)) = seq_from oldest k"
  proof (rule nth_equalityI)
    show "length (take k (drop (unat oldest - 1) (seq_from 1 n))) = length (seq_from oldest k)"
      using assms(1,3) on by (simp add: k_def u)
    fix i assume "i < length (take k (drop (unat oldest - 1) (seq_from (1 :: u64) n)))"
    then have i: "i < k" "unat oldest - 1 + i < n" by auto
    have "(1 :: u64) + of_nat (unat oldest - 1 + i) = of_nat (unat oldest - 1 + 1) + of_nat i" by simp
    also have "\<dots> = oldest + of_nat i" using assms(1) by simp
    finally show "take k (drop (unat oldest - 1) (seq_from 1 n)) ! i = seq_from oldest k ! i"
      using i by (simp add: add.commute)
  qed
  finally show ?thesis
    using assms(2) by (simp add: concat_payload_def range_seqs_def k_def not_less [symmetric])
qed

subsection \<open>The contract\<close>

locale stt_gateway =
  fixes reachable :: "'w \<Rightarrow> 's \<Rightarrow> bool"
    and promised :: "'w \<Rightarrow> expected_config"
    and accepted :: "'w \<Rightarrow> 's \<Rightarrow> bytes list"
    and sent :: "'w \<Rightarrow> 's \<Rightarrow> server_message list"
  assumes in_order: "reachable w s \<Longrightarrow> \<exists>n \<le> length (accepted w s). tiles (map msg_seqs (sent w s)) 0 n"
    and counted: "reachable w s \<Longrightarrow> length (accepted w s) < 2 ^ 64"
    and honest: "reachable w s \<Longrightarrow> Partial p \<in> set (sent w s) \<Longrightarrow> honest_report (promised w) (accepted w s) p"
begin

lemma continuity_clean:
  assumes "reachable w s"
  shows "\<exists>n \<le> length (accepted w s).
    observe_all (map msg_seqs (sent w s)) continuity_default = ([], \<lparr>last_newest = of_nat n\<rparr>)"
proof -
  obtain n where n: "n \<le> length (accepted w s)" "tiles (map msg_seqs (sent w s)) 0 n"
    using in_order [OF assms] by blast
  then show ?thesis
    using tiles_observe [of "map msg_seqs (sent w s)" continuity_default n] by (auto simp: continuity_default_def)
qed

lemma partial_clean:
  assumes r: "reachable w s" and acc: "accepted w s = map (frame_payload sid) (seq_from 1 n)"
    and p: "Partial p \<in> set (sent w s)" and short: "newest_frame_seq p - oldest_frame_seq p + 1 \<le> MAX_VERIFY_FRAMES"
  shows "verify_partial sid p (promised w) = []"
proof -
  define oldest where "oldest = oldest_frame_seq p"
  define newest where "newest = newest_frame_seq p"
  have h: "0 < unat oldest" "oldest \<le> newest" "unat newest \<le> n"
    and hp: "p = honest_partial (compute_stub (concat (frames_of (accepted w s) oldest newest)) (ex_cpu_passes (promised w)))
      oldest newest (promised w) (flush_lateness_ms p) (inflight_model_jobs p)"
    using honest [OF r p] by (simp_all add: honest_report_def oldest_def newest_def acc)
  have n: "n < 2 ^ 64" using counted [OF r] by (simp add: acc)
  have p': "p = honest_partial (compute_stub (concat_payload sid oldest newest) (ex_cpu_passes (promised w)))
      oldest newest (promised w) (flush_lateness_ms p) (inflight_model_jobs p)"
    using hp unfolding acc frames_of_session [OF h n] .
  have "oldest \<noteq> 0" using h(1) by auto
  from honest_partial_verifies [OF this h(2), of sid "promised w" "flush_lateness_ms p" "inflight_model_jobs p"]
  show ?thesis using short by (subst p') (simp add: oldest_def newest_def)
qed

end

end
