(* ===== verification/Rust_Str.thy ===== *)
theory Rust_Str
  imports Prelude "HOL-Library.Sublist"
begin

text \<open>
  The part of Rust's \<open>str\<close> and integer formatting the crates use. A \<open>&str\<close> is the list of its
  UTF-8 bytes, as Isabelle \<open>char\<close>s (a \<open>char\<close> is one byte); a \<open>[u8]\<close> buffer is a list of \<open>u8\<close>.
  Modelled here: \<open>str::from_utf8\<close>, \<open>as_bytes\<close>, \<open>split\<close>, \<open>split_once\<close>, \<open>rsplit_once\<close>,
  \<open>strip_prefix\<close>, \<open>trim\<close>, \<open>eq_ignore_ascii_case\<close>, \<open>trim_end_matches\<close>, the unsigned
  \<open>FromStr\<close> parsers and the \<open>Display\<close> of unsigned integers.
\<close>

subsection \<open>Bytes and UTF-8\<close>

definition as_bytes :: "string \<Rightarrow> bytes" where
  "as_bytes s = map of_char s"

definition of_bytes :: "bytes \<Rightarrow> string" where
  "of_bytes bs = map (\<lambda>b. char_of (unat b)) bs"

definition utf8_cont :: "u8 \<Rightarrow> bool" where
  "utf8_cont b \<longleftrightarrow> 0x80 \<le> b \<and> b \<le> 0xBF"

text \<open>Well-formed UTF-8 (RFC 3629): the table \<open>core::str::from_utf8\<close> validates against.\<close>

fun utf8_valid :: "bytes \<Rightarrow> bool" where
  "utf8_valid [] = True"
| "utf8_valid (b # bs) =
     (if b < 0x80 then utf8_valid bs
      else if 0xC2 \<le> b \<and> b \<le> 0xDF then
        (case bs of c # r \<Rightarrow> utf8_cont c \<and> utf8_valid r | _ \<Rightarrow> False)
      else if 0xE0 \<le> b \<and> b \<le> 0xEF then
        (case bs of c # d # r \<Rightarrow>
             (if b = 0xE0 then 0xA0 \<le> c \<and> c \<le> 0xBF
              else if b = 0xED then 0x80 \<le> c \<and> c \<le> 0x9F
              else utf8_cont c) \<and> utf8_cont d \<and> utf8_valid r
         | _ \<Rightarrow> False)
      else if 0xF0 \<le> b \<and> b \<le> 0xF4 then
        (case bs of c # d # e # r \<Rightarrow>
             (if b = 0xF0 then 0x90 \<le> c \<and> c \<le> 0xBF
              else if b = 0xF4 then 0x80 \<le> c \<and> c \<le> 0x8F
              else utf8_cont c) \<and> utf8_cont d \<and> utf8_cont e \<and> utf8_valid r
         | _ \<Rightarrow> False)
      else False)"

definition from_utf8 :: "bytes \<Rightarrow> string option" where
  "from_utf8 bs = (if utf8_valid bs then Some (of_bytes bs) else None)"

subsection \<open>Splitting\<close>

definition split_once :: "string \<Rightarrow> string \<Rightarrow> (string \<times> string) option" where
  "split_once p s =
     map_option (\<lambda>i. (take i s, drop (i + length p) s)) (find_sub p s)"

definition rsplit_once :: "char \<Rightarrow> string \<Rightarrow> (string \<times> string) option" where
  "rsplit_once c s =
     map_option (\<lambda>i. (rev (drop (Suc i) (rev s)), rev (take i (rev s)))) (position ((=) c) (rev s))"

function split_str :: "string \<Rightarrow> string \<Rightarrow> string list" where
  "split_str p s =
     (if p = [] then [s]
      else case find_sub p s of
             None \<Rightarrow> [s]
           | Some i \<Rightarrow> take i s # split_str p (drop (i + length p) s))"
  by pat_completeness auto
termination
proof (relation "measure (\<lambda>(p, s). length s)", goal_cases)
  case 1
  show ?case by simp
next
  case (2 p s i)
  from 2(2) have "i + length p \<le> length s"
    using find_sub_SomeD by blast
  with 2(1) show ?case by (cases p) auto
qed

declare split_str.simps [simp del]

definition strip_prefix :: "string \<Rightarrow> string \<Rightarrow> string option" where
  "strip_prefix p s = (if take (length p) s = p then Some (drop (length p) s) else None)"

text \<open>\<open>Iterator::nth\<close> on a split.\<close>

definition nth_opt :: "nat \<Rightarrow> 'a list \<Rightarrow> 'a option" where
  "nth_opt i xs = (if i < length xs then Some (xs ! i) else None)"

subsection \<open>Trimming and case folding\<close>

text \<open>The UTF-8 encodings of the code points with the Unicode property \<open>White_Space\<close>.\<close>

definition white_space :: "string list" where
  "white_space =
     [[CHR 0x09], [CHR 0x0A], [CHR 0x0B], [CHR 0x0C], [CHR 0x0D], [CHR 0x20],
      [CHR 0xC2, CHR 0x85], [CHR 0xC2, CHR 0xA0], [CHR 0xE1, CHR 0x9A, CHR 0x80],
      [CHR 0xE2, CHR 0x80, CHR 0x80], [CHR 0xE2, CHR 0x80, CHR 0x81],
      [CHR 0xE2, CHR 0x80, CHR 0x82], [CHR 0xE2, CHR 0x80, CHR 0x83],
      [CHR 0xE2, CHR 0x80, CHR 0x84], [CHR 0xE2, CHR 0x80, CHR 0x85],
      [CHR 0xE2, CHR 0x80, CHR 0x86], [CHR 0xE2, CHR 0x80, CHR 0x87],
      [CHR 0xE2, CHR 0x80, CHR 0x88], [CHR 0xE2, CHR 0x80, CHR 0x89],
      [CHR 0xE2, CHR 0x80, CHR 0x8A], [CHR 0xE2, CHR 0x80, CHR 0xA8],
      [CHR 0xE2, CHR 0x80, CHR 0xA9], [CHR 0xE2, CHR 0x80, CHR 0xAF],
      [CHR 0xE2, CHR 0x81, CHR 0x9F], [CHR 0xE3, CHR 0x80, CHR 0x80]]"

lemma white_space_nonempty: "w \<in> set white_space \<Longrightarrow> w \<noteq> []"
  by (auto simp: white_space_def)

function trim_start :: "string \<Rightarrow> string" where
  "trim_start s =
     (case find (\<lambda>w. take (length w) s = w) white_space of
        None \<Rightarrow> s
      | Some w \<Rightarrow> trim_start (drop (length w) s))"
  by pat_completeness auto
termination
proof (relation "measure length", goal_cases)
  case 1
  show ?case by simp
next
  case (2 s w)
  then have w: "w \<in> set white_space" "take (length w) s = w"
    by (auto simp: find_Some_iff)
  then have "w \<noteq> []" by (simp add: white_space_nonempty)
  with w(2) have "s \<noteq> []" by auto
  with \<open>w \<noteq> []\<close> show ?case by (cases w; cases s) auto
qed

declare trim_start.simps [simp del]

function trim_end :: "string \<Rightarrow> string" where
  "trim_end s =
     (case find (\<lambda>w. length w \<le> length s \<and> drop (length s - length w) s = w) white_space of
        None \<Rightarrow> s
      | Some w \<Rightarrow> trim_end (take (length s - length w) s))"
  by pat_completeness auto
termination
proof (relation "measure length", goal_cases)
  case 1
  show ?case by simp
next
  case (2 s w)
  then have w: "w \<in> set white_space" "length w \<le> length s"
    by (auto simp: find_Some_iff)
  then have "w \<noteq> []" by (simp add: white_space_nonempty)
  with w(2) show ?case by (cases w) auto
qed

declare trim_end.simps [simp del]

definition trim :: "string \<Rightarrow> string" where
  "trim s = trim_end (trim_start s)"

text \<open>\<open>trim_end_matches('/')\<close>: drop every trailing occurrence of one character.\<close>

definition trim_end_matches :: "char \<Rightarrow> string \<Rightarrow> string" where
  "trim_end_matches c s = rev (dropWhile ((=) c) (rev s))"

definition to_ascii_lower :: "char \<Rightarrow> char" where
  "to_ascii_lower c =
     (let n = (of_char c :: nat) in if 65 \<le> n \<and> n \<le> 90 then char_of (n + 32) else c)"

definition eq_ignore_ascii_case :: "string \<Rightarrow> string \<Rightarrow> bool" where
  "eq_ignore_ascii_case a b \<longleftrightarrow> map to_ascii_lower a = map to_ascii_lower b"

subsection \<open>Unsigned integers: printing and parsing\<close>

fun dec :: "nat \<Rightarrow> string" where
  "dec n = (if n < 10 then [char_of (48 + n)] else dec (n div 10) @ [char_of (48 + n mod 10)])"

declare dec.simps [simp del]

definition digit_val :: "char \<Rightarrow> nat option" where
  "digit_val c = (let n = of_char c in if 48 \<le> n \<and> n \<le> 57 then Some (n - 48) else None)"

fun parse_digits :: "nat \<Rightarrow> string \<Rightarrow> nat option" where
  "parse_digits acc [] = Some acc"
| "parse_digits acc (c # cs) =
     (case digit_val c of None \<Rightarrow> None | Some d \<Rightarrow> parse_digits (acc * 10 + d) cs)"

text \<open>
  \<open>str::parse\<close> for an unsigned type with largest value \<open>m\<close>: an optional plus sign, at least one
  digit, only digits, and no overflow.
\<close>

definition parse_uint :: "nat \<Rightarrow> string \<Rightarrow> nat option" where
  "parse_uint m s =
     (let ds = (case s of [] \<Rightarrow> [] | c # r \<Rightarrow> if c = CHR ''+'' then r else s)
      in if ds = [] then None
         else case parse_digits 0 ds of
                None \<Rightarrow> None
              | Some n \<Rightarrow> if n \<le> m then Some n else None)"

definition parse_u16 :: "string \<Rightarrow> u16 option" where
  "parse_u16 s = map_option of_nat (parse_uint 0xFFFF s)"

definition parse_u32 :: "string \<Rightarrow> u32 option" where
  "parse_u32 s = map_option of_nat (parse_uint 0xFFFFFFFF s)"

definition parse_u64 :: "string \<Rightarrow> u64 option" where
  "parse_u64 s = map_option of_nat (parse_uint 0xFFFFFFFFFFFFFFFF s)"

subsection \<open>Lemmas\<close>

lemma length_as_bytes [simp]: "length (as_bytes s) = length s"
  by (simp add: as_bytes_def)

lemma as_bytes_append [simp]: "as_bytes (s @ t) = as_bytes s @ as_bytes t"
  by (simp add: as_bytes_def)

lemma of_bytes_as_bytes [simp]: "of_bytes (as_bytes s) = s"
proof -
  have "char_of (unat (of_char c :: u8)) = c" for c
  proof -
    have lt: "(of_char c :: nat) < 256"
      using of_char_mod_256 [of c] by (metis mod_less_divisor zero_less_numeral)
    have "(of_char c :: u8) = of_nat (of_char c)"
      by (simp add: of_nat_of_char)
    then have "unat (of_char c :: u8) = of_char c"
      using lt by (simp add: unat_of_nat)
    then show ?thesis by simp
  qed
  then show ?thesis
    by (simp add: of_bytes_def as_bytes_def comp_def)
qed

lemma utf8_valid_ascii: "(\<forall>b \<in> set bs. b < 0x80) \<Longrightarrow> utf8_valid bs"
  by (induction bs) auto

lemma digit_val_char_of [simp]: "n < 10 \<Longrightarrow> digit_val (char_of (48 + n)) = Some n"
  by (simp add: digit_val_def Let_def of_char_of)

lemma parse_digits_append:
  "parse_digits acc (xs @ ys) =
     (case parse_digits acc xs of None \<Rightarrow> None | Some n \<Rightarrow> parse_digits n ys)"
  by (induction xs arbitrary: acc) (auto split: option.splits)

lemma parse_digits_dec: "parse_digits 0 (dec n) = Some n"
proof (induction n rule: dec.induct)
  case (1 n)
  show ?case
  proof (cases "n < 10")
    case True
    then show ?thesis by (subst dec.simps) simp
  next
    case False
    with 1 have "parse_digits 0 (dec (n div 10)) = Some (n div 10)" by simp
    with False show ?thesis
      by (subst dec.simps) (simp add: parse_digits_append div_mult_mod_eq)
  qed
qed

lemma dec_nonempty [simp]: "dec n \<noteq> []"
  by (subst dec.simps) simp

lemma dec_set: "c \<in> set (dec n) \<Longrightarrow> \<exists>d < (10 :: nat). c = char_of (48 + d)"
proof (induction n rule: dec.induct)
  case (1 n)
  show ?case
  proof (cases "n < 10")
    case True
    with 1(2) show ?thesis by (subst (asm) dec.simps) auto
  next
    case False
    with 1(2) have "c \<in> set (dec (n div 10)) \<or> c = char_of (48 + n mod 10)"
      by (subst (asm) dec.simps) auto
    moreover have "n mod 10 < 10" by simp
    ultimately show ?thesis using 1(1) False by blast
  qed
qed

text \<open>Printing an unsigned integer and parsing it back gives the integer.\<close>

lemma parse_uint_dec [rust_simps]: "n \<le> m \<Longrightarrow> parse_uint m (dec n) = Some n"
proof -
  assume le: "n \<le> m"
  obtain c r where cr: "dec n = c # r" by (cases "dec n") auto
  then obtain d :: nat where "d < 10" and c: "c = char_of (48 + d)"
    using dec_set [of c n] by auto
  then have "c \<noteq> CHR ''+''"
  proof -
    have "of_char c \<noteq> (of_char (CHR ''+'') :: nat)"
      using \<open>d < 10\<close> c by (simp add: of_char_of)
    then show ?thesis by auto
  qed
  with cr le show ?thesis
    using parse_digits_dec [of n] by (simp add: parse_uint_def Let_def)
qed

lemma parse_uint_le: "parse_uint m s = Some n \<Longrightarrow> n \<le> m"
  by (auto simp: parse_uint_def Let_def split: if_splits option.splits)

text \<open>Trimming around visible ASCII characters.\<close>

definition visible :: "char \<Rightarrow> bool" where
  "visible c \<longleftrightarrow> 32 < (of_char c :: nat) \<and> (of_char c :: nat) < 128"

lemma white_space_ends:
  assumes "w \<in> set white_space"
  shows "\<not> visible (hd w)" and "\<not> visible (last w)"
  using assms by (auto simp: white_space_def visible_def)

lemma trim_start_visible:
  assumes "s \<noteq> []" and "visible (hd s)"
  shows "trim_start s = s"
proof -
  have "find (\<lambda>w. take (length w) s = w) white_space = None"
  proof (rule find_None_iff [THEN iffD2], rule notI)
    assume "\<exists>w. w \<in> set white_space \<and> take (length w) s = w"
    then obtain w where w: "w \<in> set white_space" "take (length w) s = w" by blast
    then have "hd w = hd s" using white_space_nonempty [OF w(1)] by (metis hd_take length_greater_0_conv)
    with white_space_ends(1) [OF w(1)] assms(2) show False by simp
  qed
  then show ?thesis by (subst trim_start.simps) simp
qed

lemma trim_end_visible:
  assumes "s \<noteq> []" and "visible (last s)"
  shows "trim_end s = s"
proof -
  have "find (\<lambda>w. length w \<le> length s \<and> drop (length s - length w) s = w) white_space = None"
  proof (rule find_None_iff [THEN iffD2], rule notI)
    assume "\<exists>w. w \<in> set white_space \<and> length w \<le> length s \<and> drop (length s - length w) s = w"
    then obtain w where w: "w \<in> set white_space" "drop (length s - length w) s = w" by blast
    then have "last w = last s" using white_space_nonempty [OF w(1)] by (metis drop_eq_Nil last_drop not_le)
    with white_space_ends(2) [OF w(1)] assms(2) show False by simp
  qed
  then show ?thesis by (subst trim_end.simps) simp
qed

lemma trim_start_blank: "trim_start (CHR '' '' # s) = trim_start s"
proof -
  have "find (\<lambda>w. take (length w) (CHR '' '' # s) = w) white_space = Some '' ''"
    by (simp add: white_space_def)
  then show ?thesis by (subst trim_start.simps) simp
qed

lemma trim_visible:
  assumes "s \<noteq> []" and "visible (hd s)" and "visible (last s)"
  shows "trim s = s" and "trim (CHR '' '' # s) = s"
  using assms by (simp_all add: trim_def trim_start_blank trim_start_visible trim_end_visible)

end
