(* ===== verification/Rust_Io.thy ===== *)
theory Rust_Io
  imports Rust_Str
begin

text \<open>
  Non-blocking sockets and HTTP heads. A socket is the script of what its next \<open>read\<close> (or
  \<open>write\<close>) calls return; when the script is used up the socket has nothing more for now, which is
  \<open>WouldBlock\<close>. \<open>Ok(0)\<close>, the end of the stream, is a read of no bytes. The second half is about
  HTTP/1.1 heads: lines ended by \<open>\r\n\<close> and an empty line.
\<close>

datatype io_error =
    WouldBlock | Interrupted | UnexpectedEof | InvalidData | WriteZero
  | Io_message string
  | Io_os string

text \<open>\<open>io::Error::to_string\<close>: the kind's description, the custom message, or the OS message.\<close>

fun io_to_string :: "io_error \<Rightarrow> string" where
  "io_to_string WouldBlock = ''operation would block''"
| "io_to_string Interrupted = ''operation interrupted''"
| "io_to_string UnexpectedEof = ''unexpected end of file''"
| "io_to_string InvalidData = ''invalid data''"
| "io_to_string WriteZero = ''write zero''"
| "io_to_string (Io_message m) = m"
| "io_to_string (Io_os m) = m"

datatype io_read = Rd bytes | Rd_err io_error

datatype io_write = Wr nat | Wr_err io_error

definition CRLF :: string where
  "CRLF = [CHR 0x0D, CHR 0x0A]"

definition CRLFCRLF :: bytes where
  "CRLFCRLF = [0x0D, 0x0A, 0x0D, 0x0A]"

subsection \<open>HTTP heads\<close>

text \<open>The bytes of a head with the given lines: what a peer sends, not what a gateway computes.\<close>

definition http_head :: "string list \<Rightarrow> string" where
  "http_head ls = concat (map (\<lambda>l. l @ CRLF) ls) @ CRLF"

definition line_ok :: "string \<Rightarrow> bool" where
  "line_ok l \<longleftrightarrow> l \<noteq> [] \<and> CHR 0x0D \<notin> set l \<and> list_all (\<lambda>c. of_char c < (128 :: nat)) l"

lemma take_append_pattern:
  assumes "p \<noteq> []" and "hd p \<notin> set a" and "a \<noteq> []"
  shows "take (length p) (a @ b) \<noteq> p"
  using assms by (cases p; cases a) auto

lemma find_sub_first:
  assumes "p \<noteq> []" and "hd p \<notin> set a"
  shows "find_sub p (a @ p @ b) = Some (length a)"
  using assms(2)
proof (induction a)
  case Nil
  show ?case using assms(1) by (cases p) auto
next
  case (Cons x a)
  then have "take (length p) ((x # a) @ p @ b) \<noteq> p"
    using assms(1) by (intro take_append_pattern) auto
  with Cons show ?case by simp
qed

lemma find_sub_none:
  assumes "p \<noteq> []" and "hd p \<notin> set a"
  shows "find_sub p a = None"
  using assms(2)
proof (induction a)
  case Nil
  then show ?case using assms(1) by simp
next
  case (Cons x a)
  then have "take (length p) ((x # a) @ []) \<noteq> p"
    using assms(1) by (intro take_append_pattern) auto
  with Cons show ?case by simp
qed

lemma find_sub_skip:
  assumes "p \<noteq> []" and "hd p \<notin> set a"
  shows "find_sub p (a @ b) = map_option ((+) (length a)) (find_sub p b)"
  using assms(2)
proof (induction a)
  case Nil
  then show ?case by (simp add: option.map_ident)
next
  case (Cons x a)
  then have "take (length p) ((x # a) @ b) \<noteq> p"
    using assms(1) by (intro take_append_pattern) auto
  with Cons show ?case by (simp add: option.map_comp comp_def)
qed

lemma find_sub_map:
  assumes "inj f"
  shows "find_sub (map f p) (map f xs) = find_sub p xs"
proof (induction xs)
  case Nil
  then show ?case by simp
next
  case (Cons x xs)
  have "take (length p) (f x # map f xs) = map f p \<longleftrightarrow> take (length p) (x # xs) = p"
    using inj_map_eq_map [OF assms] by (metis list.map(2) take_map)
  with Cons show ?case by simp
qed

text \<open>The empty line is found exactly at the end of the head, whatever follows it.\<close>

lemma find_head_end_str:
  assumes "list_all line_ok ls" and "ls \<noteq> []"
  shows "find_sub (CRLF @ CRLF) (http_head ls @ rest) = Some (length (http_head ls) - 4)"
  using assms
proof (induction ls)
  case Nil
  then show ?case by simp
next
  case (Cons l ls)
  have l: "l \<noteq> []" "CHR 0x0D \<notin> set l" using Cons.prems by (auto simp: line_ok_def)
  have skip: "find_sub (CRLF @ CRLF) (l @ b) = map_option ((+) (length l)) (find_sub (CRLF @ CRLF) b)" for b
    using l by (intro find_sub_skip) (auto simp: CRLF_def)
  show ?case
  proof (cases ls)
    case Nil
    then show ?thesis
      using skip [of "CRLF @ CRLF @ rest"] by (simp add: http_head_def CRLF_def)
  next
    case (Cons l' ls')
    then have l': "l' \<noteq> []" "CHR 0x0D \<notin> set l'" using Cons.prems by (auto simp: line_ok_def)
    obtain c t where ct: "l' = c # t" using l' by (cases l') auto
    have c: "c \<noteq> CHR 0x0D" using l' ct by auto
    have IH: "find_sub (CRLF @ CRLF) (http_head ls @ rest) = Some (length (http_head ls) - 4)"
      using Cons.IH Cons.prems Cons by auto
    have "find_sub (CRLF @ CRLF) (CRLF @ http_head ls @ rest) =
        map_option ((+) 2) (find_sub (CRLF @ CRLF) (http_head ls @ rest))"
      using c by (simp add: Cons ct http_head_def CRLF_def option.map_comp comp_def)
    moreover have "4 \<le> length (http_head ls)"
      using Cons ct by (simp add: http_head_def CRLF_def)
    ultimately show ?thesis
      using skip [of "CRLF @ http_head ls @ rest"] IH
      by (simp add: http_head_def CRLF_def)
  qed
qed

lemma split_str_cons:
  assumes "CHR 0x0D \<notin> set l"
  shows "split_str CRLF (l @ CRLF @ rest) = l # split_str CRLF rest"
proof -
  have "find_sub CRLF (l @ CRLF @ rest) = Some (length l)"
    using assms by (intro find_sub_first) (simp_all add: CRLF_def)
  then show ?thesis by (subst split_str.simps) (simp add: CRLF_def)
qed

lemma split_str_last: "CHR 0x0D \<notin> set l \<Longrightarrow> split_str CRLF l = [l]"
  using find_sub_none [of CRLF l] by (subst split_str.simps) (simp add: CRLF_def)

lemma http_head_Cons: "http_head (l # ls) = l @ CRLF @ http_head ls"
  by (simp add: http_head_def)

lemma length_http_head_ge: "list_all line_ok ls \<Longrightarrow> ls \<noteq> [] \<Longrightarrow> 5 \<le> length (http_head ls)"
  by (cases ls) (auto simp: http_head_def CRLF_def line_ok_def Suc_le_eq)

lemma split_http_head:
  assumes "list_all line_ok ls" and "ls \<noteq> []"
  shows "split_str CRLF (take (length (http_head ls) - 4) (http_head ls)) = ls"
  using assms
proof (induction ls)
  case Nil
  then show ?case by simp
next
  case (Cons l ls)
  have l: "CHR 0x0D \<notin> set l" using Cons.prems by (auto simp: line_ok_def)
  show ?case
  proof (cases "ls = []")
    case True
    then show ?thesis using split_str_last [OF l] by (simp add: http_head_def CRLF_def)
  next
    case False
    then have ge: "5 \<le> length (http_head ls)"
      using length_http_head_ge Cons.prems by auto
    have "take (length (http_head (l # ls)) - 4) (http_head (l # ls)) =
        l @ CRLF @ take (length (http_head ls) - 4) (http_head ls)"
      using ge by (simp add: http_head_Cons CRLF_def take_Cons' numeral_eq_Suc)
    then show ?thesis using split_str_cons [OF l] Cons False by simp
  qed
qed

lemma split_http_head_full:
  "list_all line_ok ls \<Longrightarrow> split_str CRLF (http_head ls) = ls @ [[], []]"
proof (induction ls)
  case Nil
  then show ?case
    using split_str_cons [of "[]" "[]"] split_str_last [of "[]"] by (simp add: http_head_def)
next
  case (Cons l ls)
  then show ?case using split_str_cons [of l "http_head ls"] by (simp add: http_head_Cons line_ok_def)
qed

lemma inj_byte_of_char: "inj (of_char :: char \<Rightarrow> u8)"
  by (rule injI) (metis as_bytes_def list.inject list.map of_bytes_as_bytes)

lemma as_bytes_CRLFCRLF: "as_bytes (CRLF @ CRLF) = CRLFCRLF"
  by (simp add: as_bytes_def CRLF_def CRLFCRLF_def)

lemma find_head_end:
  assumes "list_all line_ok ls" and "ls \<noteq> []"
  shows "find_sub CRLFCRLF (as_bytes (http_head ls) @ rest) = Some (length (http_head ls) - 4)"
proof -
  have "find_sub CRLFCRLF (as_bytes (http_head ls)) = find_sub (CRLF @ CRLF) (http_head ls)"
    unfolding as_bytes_CRLFCRLF [symmetric] unfolding as_bytes_def
    by (rule find_sub_map [OF inj_byte_of_char])
  also have "\<dots> = Some (length (http_head ls) - 4)"
    using find_head_end_str [OF assms, of "[]"] by simp
  finally show ?thesis by (rule find_sub_append)
qed

definition ascii :: "string \<Rightarrow> bool" where
  "ascii s \<longleftrightarrow> list_all (\<lambda>c. of_char c < (128 :: nat)) s"

lemma utf8_valid_as_bytes: "ascii s \<Longrightarrow> utf8_valid (as_bytes s)"
proof (rule utf8_valid_ascii, rule ballI)
  fix b assume s: "ascii s" and "b \<in> set (as_bytes s)"
  then obtain c where c: "c \<in> set s" and b: "b = of_char c" by (auto simp: as_bytes_def)
  have n: "(of_char c :: nat) < 128" using s c by (auto simp: ascii_def list_all_iff)
  have "b = of_nat (of_char c)" by (simp add: b of_nat_of_char)
  then have "unat b = of_char c" using n by (simp add: unat_of_nat)
  then show "b < 0x80" using n by (simp add: word_less_nat_alt)
qed

lemma from_utf8_ascii: "ascii s \<Longrightarrow> from_utf8 (as_bytes s) = Some s"
  by (simp add: from_utf8_def utf8_valid_as_bytes)

lemma ascii_http_head: "list_all line_ok ls \<Longrightarrow> ascii (http_head ls)"
  by (induction ls) (auto simp: http_head_def CRLF_def ascii_def line_ok_def)

lemma ascii_take: "ascii s \<Longrightarrow> ascii (take n s)"
  by (auto simp: ascii_def list_all_iff dest: in_set_takeD)

lemma as_bytes_take: "as_bytes (take n s) = take n (as_bytes s)"
  by (simp add: as_bytes_def take_map)

lemma split_str_space:
  assumes "CHR '' '' \<notin> set l"
  shows "split_str '' '' (l @ '' '' @ rest) = l # split_str '' '' rest"
proof -
  have "find_sub '' '' (l @ '' '' @ rest) = Some (length l)"
    using assms by (intro find_sub_first) simp_all
  then show ?thesis by (subst split_str.simps) simp
qed

text \<open>A proper prefix of a head has no empty line yet.\<close>

lemma head_incomplete:
  assumes "list_all line_ok ls" and "ls \<noteq> []" and "as_bytes (http_head ls) = xs @ ys" and "ys \<noteq> []"
  shows "find_sub CRLFCRLF xs = None"
proof (rule ccontr)
  assume "find_sub CRLFCRLF xs \<noteq> None"
  then obtain i where i: "find_sub CRLFCRLF xs = Some i" by auto
  have "find_sub CRLFCRLF (xs @ ys) = Some (length (http_head ls) - 4)"
    using find_head_end [OF assms(1,2), of "[]"] assms(3) by simp
  then have "i = length (http_head ls) - 4" using find_sub_append [OF i, of ys] by simp
  moreover have "i + 4 \<le> length xs" using find_sub_SomeD [OF i] by (simp add: CRLFCRLF_def)
  moreover have "length (http_head ls) = length xs + length ys"
    using arg_cong [OF assms(3), of length] by simp
  ultimately show False using assms(4) by (cases ys) auto
qed

end
