(* ===== verification/Rust_F64.thy ===== *)
theory Rust_F64
  imports F64 Rust_Io
begin

text \<open>
  \<open>f64::from_str\<close> and \<open>Duration::from_secs_f64\<close> of the Rust standard library: the decimal grammar
  of \<open>FromStr\<close> (sign, digits with an optional point, exponent, \<open>inf\<close>, \<open>infinity\<close>, \<open>nan\<close>), rounded
  once to the nearest double, and the conversion of seconds to whole nanoseconds, which panics on a
  negative value, on an overflow and on a value that is not finite.
\<close>

definition is_digit :: "char \<Rightarrow> bool" where
  "is_digit c \<longleftrightarrow> digit_val c \<noteq> None"

definition digits_value :: "string \<Rightarrow> nat" where
  "digits_value ds = (case parse_digits 0 ds of Some n \<Rightarrow> n | None \<Rightarrow> 0)"

definition split_sign :: "string \<Rightarrow> bool \<times> string" where
  "split_sign s =
     (case s of
        [] \<Rightarrow> (False, [])
      | c # r \<Rightarrow> if c = CHR ''-'' then (True, r) else if c = CHR ''+'' then (False, r) else (False, s))"

text \<open>A decimal number as a mantissa and a power of ten.\<close>

definition parse_number :: "string \<Rightarrow> (nat \<times> int) option" where
  "parse_number s =
     (let ip = takeWhile is_digit s; r = dropWhile is_digit s;
          (fp, r2) = (case r of
              c # r' \<Rightarrow> if c = CHR ''.'' then (takeWhile is_digit r', dropWhile is_digit r') else ([], r)
            | [] \<Rightarrow> ([], []));
          m = digits_value (ip @ fp)
      in if ip = [] \<and> fp = [] then None
         else case r2 of
           [] \<Rightarrow> Some (m, - int (length fp))
         | c # r3 \<Rightarrow>
             if c = CHR ''e'' \<or> c = CHR ''E'' then
               (case split_sign r3 of
                  (neg, ds) \<Rightarrow>
                    if ds = [] \<or> \<not> list_all is_digit ds then None
                    else Some (m, (if neg then - int (digits_value ds) else int (digits_value ds)) - int (length fp)))
             else None)"

definition decimal_f64 :: "bool \<Rightarrow> nat \<Rightarrow> int \<Rightarrow> f64" where
  "decimal_f64 neg m e =
     (let v = (if 0 \<le> e then round_ratio (int m * 10 ^ nat e) 1 else round_ratio (int m) (10 ^ nat (- e)))
      in if neg then f64_neg v else v)"

definition parse_f64 :: "string \<Rightarrow> f64 option" where
  "parse_f64 s =
     (case split_sign s of
        (neg, r) \<Rightarrow>
          if eq_ignore_ascii_case r ''inf'' \<or> eq_ignore_ascii_case r ''infinity'' then Some (Infinity neg)
          else if eq_ignore_ascii_case r ''nan'' then Some NaN
          else map_option (\<lambda>(m, e). decimal_f64 neg m e) (parse_number r))"

definition from_secs_f64 :: "f64 \<Rightarrow> duration rust" where
  "from_secs_f64 x =
     (case x of
        Finite m e \<Rightarrow>
          if m < 0 then Panic
          else let n = rne (nat (fin_num m e) * 1000000000) (fin_den e)
               in if n < 2 ^ 64 * 1000000000 then Ret n else Panic
      | _ \<Rightarrow> Panic)"

subsection \<open>Decimal integers\<close>

lemma takeWhile_all: "list_all P xs \<Longrightarrow> takeWhile P xs = xs"
  by (induction xs) auto

lemma dropWhile_all: "list_all P xs \<Longrightarrow> dropWhile P xs = []"
  by (induction xs) auto

lemma is_digit_dec: "list_all is_digit (dec n)"
  using dec_set [of _ n] by (fastforce simp: list_all_iff is_digit_def)

lemma parse_number_dec: "parse_number (dec n) = Some (n, 0)"
  using is_digit_dec [of n] by (simp add: parse_number_def takeWhile_all dropWhile_all digits_value_def parse_digits_dec)

text \<open>An integer is read exactly as the conversion of that integer.\<close>

lemma parse_f64_dec: "parse_f64 (dec n) = Some (f64_of_int (int n))"
proof -
  obtain c r where cr: "dec n = c # r" by (cases "dec n") auto
  obtain d :: nat where d: "d < 10" "c = char_of (48 + d)" using dec_set [of c n] cr by auto
  have oc: "(of_char c :: nat) = 48 + d" using d by (simp add: of_char_of)
  have ne: "c \<noteq> CHR ''-''" "c \<noteq> CHR ''+''" using oc d(1) by auto
  have low: "to_ascii_lower c = c" using oc d(1) by (simp add: to_ascii_lower_def Let_def)
  have neq: "\<not> eq_ignore_ascii_case (dec n) (x # y)" if "to_ascii_lower x \<noteq> c" for x y
    using that low by (auto simp: eq_ignore_ascii_case_def cr)
  have l: "to_ascii_lower CHR ''i'' \<noteq> c" "to_ascii_lower CHR ''n'' \<noteq> c"
    using oc d(1) by (auto simp: to_ascii_lower_def)
  have "split_sign (dec n) = (False, dec n)" using ne by (simp add: split_sign_def cr)
  then show ?thesis
    using neq [OF l(1)] neq [OF l(2)] by (simp add: parse_f64_def parse_number_dec decimal_f64_def f64_of_int_def)
qed

subsection \<open>Seconds to nanoseconds\<close>

text \<open>The result is within half a nanosecond of the value.\<close>

lemma from_secs_f64_near:
  assumes "from_secs_f64 x = Ret d"
  shows "\<bar>real d - f64_val x * 10 ^ 9\<bar> \<le> 1 / 2" and "0 \<le> f64_val x" and "d < 2 ^ 64 * 1000000000"
proof -
  obtain m e where x: "x = Finite m e" and m: "0 \<le> m"
    and d: "d = rne (nat (fin_num m e) * 1000000000) (fin_den e)" and lt: "d < 2 ^ 64 * 1000000000"
    using assms by (auto simp: from_secs_f64_def Let_def split: f64.splits if_splits)
  show "d < 2 ^ 64 * 1000000000" by (rule lt)
  show "0 \<le> f64_val x" using m by (simp add: x)
  have nn: "0 \<le> fin_num m e" using m by (simp add: fin_num_def)
  have r: "real (nat (fin_num m e) * 1000000000) / real (fin_den e) = f64_val x * 10 ^ 9"
    using fin_ratio [of m e] nn by (simp add: x flip: times_divide_eq_left)
  show "\<bar>real d - f64_val x * 10 ^ 9\<bar> \<le> 1 / 2"
    using rne_bounds(1) [of "fin_den e" "nat (fin_num m e) * 1000000000"] unfolding d r by simp
qed

end
