(* ===== verification/Loadgen_Report.thy ===== *)
theory Loadgen_Report
  imports Verify Rust_F64 "HOL-Library.Char_ord" "HOL-Library.List_Lexorder" "HOL-Library.Product_Lexorder"
begin

text \<open>
  What the load generator counts and prints, \<open>loadgen/rust/src/main.rs\<close>: its arguments, the timeout
  counters, the counts and samples of gateway errors and of incorrect responses, the start delays of
  the sessions, the latency percentiles and the samples file.

  Atomic counters and mutex-protected values are plain fields: each access in the source is one
  atomic operation. The histogram is the crate hdrhistogram's.
\<close>

subsection \<open>Arguments\<close>

definition DEFAULT_CONNECT_TIMEOUT_MS :: u64 where
  "DEFAULT_CONNECT_TIMEOUT_MS = 5000"

definition DEFAULT_SEND_TIMEOUT_MS :: u64 where
  "DEFAULT_SEND_TIMEOUT_MS = 5000"

definition DEFAULT_CLOSE_GRACE_MS :: u64 where
  "DEFAULT_CLOSE_GRACE_MS = 5000"

definition DEFAULT_SESSION_GRACE_SECS :: u64 where
  "DEFAULT_SESSION_GRACE_SECS = 15"

record args =
  ar_url :: string
  ar_sessions :: usize
  ar_warmup_secs :: u64
  ar_measure_secs :: u64
  ar_ramp_up_secs :: u64
  ar_session_start_spread_ms :: u64
  ar_repeat :: u32
  ar_connect_timeout_ms :: u64
  ar_send_timeout_ms :: u64
  ar_close_grace_ms :: u64
  ar_session_grace_secs :: u64
  ar_samples_out :: "string option"
  ar_service_name :: "string option"
  ar_verify_every :: u64
  ar_expect_cpu_passes :: u32
  ar_expect_model_delay_ms :: u64
  ar_read_buffer_bytes :: usize
  ar_tcp_nodelay :: bool

text \<open>The arguments when only the two required ones are given.\<close>

definition default_args :: "string \<Rightarrow> usize \<Rightarrow> args" where
  "default_args url n =
     \<lparr>ar_url = url, ar_sessions = n, ar_warmup_secs = 15, ar_measure_secs = 90, ar_ramp_up_secs = 0,
      ar_session_start_spread_ms = 0, ar_repeat = 1, ar_connect_timeout_ms = DEFAULT_CONNECT_TIMEOUT_MS,
      ar_send_timeout_ms = DEFAULT_SEND_TIMEOUT_MS, ar_close_grace_ms = DEFAULT_CLOSE_GRACE_MS,
      ar_session_grace_secs = DEFAULT_SESSION_GRACE_SECS, ar_samples_out = None, ar_service_name = None,
      ar_verify_every = 1, ar_expect_cpu_passes = ex_cpu_passes default_expected,
      ar_expect_model_delay_ms = ex_model_delay_ms default_expected, ar_read_buffer_bytes = 4096,
      ar_tcp_nodelay = True\<rparr>"

subsection \<open>Timeouts\<close>

record timeout_config =
  to_connect :: duration
  to_send :: duration
  to_close_grace :: duration
  to_session :: duration

datatype timeout_kind = Tk_Connect | Tk_Send | Tk_Close | Tk_Session

record timeout_counters =
  tc_connect :: u64
  tc_send :: u64
  tc_close :: u64
  tc_session :: u64

definition timeout_counters_default :: timeout_counters where
  "timeout_counters_default = \<lparr>tc_connect = 0, tc_send = 0, tc_close = 0, tc_session = 0\<rparr>"

fun increment :: "timeout_kind \<Rightarrow> timeout_counters \<Rightarrow> timeout_counters" where
  "increment Tk_Connect c = c\<lparr>tc_connect := tc_connect c + 1\<rparr>"
| "increment Tk_Send c = c\<lparr>tc_send := tc_send c + 1\<rparr>"
| "increment Tk_Close c = c\<lparr>tc_close := tc_close c + 1\<rparr>"
| "increment Tk_Session c = c\<lparr>tc_session := tc_session c + 1\<rparr>"

subsection \<open>Ordered counters\<close>

text \<open>
  A \<open>BTreeMap\<close> from keys to counts as the list of its entries in key order;
  \<open>bump k\<close> is \<open>*counts.entry(k).or_default() += 1\<close>.
\<close>

fun bump :: "'k::linorder \<Rightarrow> ('k \<times> u64) list \<Rightarrow> ('k \<times> u64) list" where
  "bump k [] = [(k, 1)]"
| "bump k ((k', n) # r) =
     (if k < k' then (k, 1) # (k', n) # r
      else if k = k' then (k', n + 1) # r
      else (k', n) # bump k r)"

definition counted :: "'k \<Rightarrow> ('k \<times> u64) list \<Rightarrow> u64" where
  "counted k m = (case map_of m k of None \<Rightarrow> 0 | Some n \<Rightarrow> n)"

lemma bump_keys: "set (map fst (bump k m)) = insert k (set (map fst m))"
  by (induction k m rule: bump.induct) auto

lemma bump_ordered: "sorted_wrt (<) (map fst m) \<Longrightarrow> sorted_wrt (<) (map fst (bump k m))"
proof (induction k m rule: bump.induct)
  case (2 k k' n r)
  then show ?case using bump_keys [of k r] by auto
qed simp

lemma bump_counted: "sorted_wrt (<) (map fst m) \<Longrightarrow> counted j (bump k m) = counted j m + (if j = k then 1 else 0)"
proof (induction k m rule: bump.induct)
  case (2 k k' n r)
  have "counted k r = 0" if "k < k'"
  proof (cases "map_of r k")
    case (Some x)
    then have "(k, x) \<in> set r" by (rule map_of_SomeD)
    then have "k' < k" using "2.prems" by force
    then show ?thesis using that by simp
  qed (simp add: counted_def)
  then show ?case using 2 by (auto simp: counted_def)
qed (simp add: counted_def)

lemma fold_bump_ordered: "sorted_wrt (<) (map fst m) \<Longrightarrow> sorted_wrt (<) (map fst (fold bump ks m))"
  by (induction ks arbitrary: m) (auto intro: bump_ordered)

lemma fold_bump_counted:
  "sorted_wrt (<) (map fst m) \<Longrightarrow> counted j (fold bump ks m) = counted j m + of_nat (count_list ks j)"
  by (induction ks arbitrary: m) (auto simp: bump_counted bump_ordered)

subsection \<open>Gateway error frames\<close>

definition MAX_INFERENCE_ERROR_SAMPLES :: nat where
  "MAX_INFERENCE_ERROR_SAMPLES = 5"

record inference_error_sample =
  ies_stage :: string
  ies_kind :: string
  ies_message :: string
  ies_inference_status :: "u16 option"
  ies_retryable :: bool

definition error_sample :: "error_message \<Rightarrow> inference_error_sample" where
  "error_sample e =
     \<lparr>ies_stage = em_stage e, ies_kind = em_kind e, ies_message = em_message e,
      ies_inference_status = em_inference_status e, ies_retryable = em_retryable e\<rparr>"

record inference_error_details =
  ied_counts :: "((string \<times> string) \<times> u64) list"
  ied_samples :: "inference_error_sample list"

definition error_details_default :: inference_error_details where
  "error_details_default = \<lparr>ied_counts = [], ied_samples = []\<rparr>"

definition details_record :: "error_message \<Rightarrow> inference_error_details \<Rightarrow> inference_error_details" where
  "details_record e d =
     (let d1 = d\<lparr>ied_counts := bump (em_stage e, em_kind e) (ied_counts d)\<rparr>; sample = error_sample e
      in if length (ied_samples d1) < MAX_INFERENCE_ERROR_SAMPLES \<and> sample \<notin> set (ied_samples d1)
         then d1\<lparr>ied_samples := ied_samples d1 @ [sample]\<rparr> else d1)"

text \<open>The snapshot: stage, kind and count of every entry, and the samples.\<close>

definition details_snapshot ::
  "inference_error_details \<Rightarrow> (string \<times> string \<times> u64) list \<times> inference_error_sample list" where
  "details_snapshot d = (map (\<lambda>((stage, kind), n). (stage, kind, n)) (ied_counts d), ied_samples d)"

subsection \<open>Incorrect responses\<close>

text \<open>\<open>MismatchKind\<close> is ordered by declaration.\<close>

fun kind_rank :: "mismatch_kind \<Rightarrow> nat" where
  "kind_rank ContinuityGap = 0" | "kind_rank ContinuityOverlap = 1" | "kind_rank InvalidRange = 2"
| "kind_rank UnsentFrame = 3" | "kind_rank RangeTooLarge = 4" | "kind_rank MissingTail = 5"
| "kind_rank MalformedMessage = 6" | "kind_rank InvalidPartial = 7" | "kind_rank Frames = 8"
| "kind_rank AudioBytes = 9" | "kind_rank CpuPasses = 10" | "kind_rank ModelDelayMs = 11"
| "kind_rank Checksum = 12" | "kind_rank ZeroCrossings = 13" | "kind_rank Samples = 14"
| "kind_rank Rms = 15" | "kind_rank Transcript = 16"

lemma kind_rank_inj: "kind_rank a = kind_rank b \<Longrightarrow> a = b"
  by (cases a; cases b) simp_all

instantiation mismatch_kind :: linorder
begin

definition less_eq_mismatch_kind :: "mismatch_kind \<Rightarrow> mismatch_kind \<Rightarrow> bool" where
  "less_eq_mismatch_kind a b \<longleftrightarrow> kind_rank a \<le> kind_rank b"

definition less_mismatch_kind :: "mismatch_kind \<Rightarrow> mismatch_kind \<Rightarrow> bool" where
  "less_mismatch_kind a b \<longleftrightarrow> kind_rank a < kind_rank b"

instance
  by intro_classes (auto simp: less_eq_mismatch_kind_def less_mismatch_kind_def intro: kind_rank_inj)

end

definition MAX_CORRECTNESS_ERROR_SAMPLES :: nat where
  "MAX_CORRECTNESS_ERROR_SAMPLES = 5"

definition MAX_CORRECTNESS_WARNINGS :: u64 where
  "MAX_CORRECTNESS_WARNINGS = 20"

text \<open>A sample keeps the mismatches whose texts its \<open>detail\<close> joins.\<close>

record correctness_error_sample =
  ces_session_id :: usize
  ces_message_type :: string
  ces_oldest_frame_seq :: u64
  ces_newest_frame_seq :: u64
  ces_kind :: string
  ces_detail :: "mismatch list"

text \<open>\<open>co_warnings\<close> are the lines logged.\<close>

record correctness =
  co_expected :: expected_config
  co_verify_every :: u64
  co_errors :: u64
  co_verified :: u64
  co_verify_dropped :: u64
  co_counts :: "(mismatch_kind \<times> u64) list"
  co_samples :: "correctness_error_sample list"
  co_warnings :: "(usize \<times> u64 \<times> u64 \<times> string \<times> mismatch) list"

definition correctness_new :: "expected_config \<Rightarrow> u64 \<Rightarrow> correctness" where
  "correctness_new expected verify_every =
     \<lparr>co_expected = expected, co_verify_every = verify_every, co_errors = 0, co_verified = 0,
      co_verify_dropped = 0, co_counts = [], co_samples = [], co_warnings = []\<rparr>"

definition correctness_record ::
  "usize \<Rightarrow> string \<Rightarrow> u64 \<Rightarrow> u64 \<Rightarrow> mismatch list \<Rightarrow> correctness \<Rightarrow> correctness" where
  "correctness_record session_id message_type oldest newest mismatches c =
     (case mismatches of
        [] \<Rightarrow> c
      | first # _ \<Rightarrow>
          let previous = co_errors c;
              c1 = c\<lparr>co_errors := co_errors c + 1\<rparr>;
              c2 = (if previous < MAX_CORRECTNESS_WARNINGS
                    then c1\<lparr>co_warnings := co_warnings c1 @ [(session_id, oldest, newest, message_type, first)]\<rparr>
                    else c1);
              c3 = c2\<lparr>co_counts := fold bump (map mm_kind mismatches) (co_counts c2)\<rparr>
          in if length (co_samples c3) < MAX_CORRECTNESS_ERROR_SAMPLES
             then c3\<lparr>co_samples := co_samples c3 @
               [\<lparr>ces_session_id = session_id, ces_message_type = message_type, ces_oldest_frame_seq = oldest,
                 ces_newest_frame_seq = newest, ces_kind = as_str (mm_kind first), ces_detail = mismatches\<rparr>]\<rparr>
             else c3)"

definition record_malformed :: "usize \<Rightarrow> mismatch_detail \<Rightarrow> correctness \<Rightarrow> correctness" where
  "record_malformed session_id detail c =
     correctness_record session_id ''malformed'' 0 0 [Mismatch MalformedMessage detail] c"

definition correctness_snapshot :: "correctness \<Rightarrow> (string \<times> u64) list \<times> correctness_error_sample list" where
  "correctness_snapshot c = (map (\<lambda>(kind, n). (as_str kind, n)) (co_counts c), co_samples c)"

lemma record_errors [simp]:
  "co_errors (correctness_record i t a b ms c) = co_errors c + (if ms = [] then 0 else 1)"
  by (simp add: correctness_record_def Let_def split: list.split)

lemma record_fields [simp]:
  "co_expected (correctness_record i t a b ms c) = co_expected c"
  "co_verify_every (correctness_record i t a b ms c) = co_verify_every c"
  "co_verified (correctness_record i t a b ms c) = co_verified c"
  "co_verify_dropped (correctness_record i t a b ms c) = co_verify_dropped c"
  by (simp_all add: correctness_record_def Let_def split: list.split)

lemma record_Nil [simp]: "correctness_record i t a b [] c = c"
  by (simp add: correctness_record_def)

lemma record_counts: "co_counts (correctness_record i t a b ms c) = fold bump (map mm_kind ms) (co_counts c)"
  by (simp add: correctness_record_def Let_def split: list.split)

text \<open>A sequence of calls of \<open>record\<close>, each with its arguments.\<close>

type_synonym report_call = "usize \<times> string \<times> u64 \<times> u64 \<times> mismatch list"

definition record_all :: "report_call list \<Rightarrow> correctness \<Rightarrow> correctness" where
  "record_all = fold (\<lambda>(i, t, a, b, ms). correctness_record i t a b ms)"

definition incorrect :: "report_call list \<Rightarrow> report_call list" where
  "incorrect = filter (\<lambda>(i, t, a, b, ms). ms \<noteq> [])"

fun sample_of :: "report_call \<Rightarrow> correctness_error_sample" where
  "sample_of (i, t, a, b, ms) =
     \<lparr>ces_session_id = i, ces_message_type = t, ces_oldest_frame_seq = a, ces_newest_frame_seq = b,
      ces_kind = as_str (mm_kind (hd ms)), ces_detail = ms\<rparr>"

fun warning_of :: "report_call \<Rightarrow> usize \<times> u64 \<times> u64 \<times> string \<times> mismatch" where
  "warning_of (i, t, a, b, ms) = (i, a, b, t, hd ms)"

fun report_kinds :: "report_call \<Rightarrow> mismatch_kind list" where
  "report_kinds (i, t, a, b, ms) = map mm_kind ms"

lemma record_all_snoc: "record_all (rs @ [(i, t, a, b, ms)]) c = correctness_record i t a b ms (record_all rs c)"
  by (simp add: record_all_def)

lemma record_all_counts:
  "co_counts (record_all rs c) = fold bump (concat (map report_kinds rs)) (co_counts c)"
  by (induction rs rule: rev_induct) (simp_all add: record_all_def record_counts split: prod.split)

text \<open>
  C38. The summary of incorrect responses is exact. After any number of responses, in any order,
  \<open>correctness_errors\<close> is the number of responses with a mismatch, the count of every kind is the
  number of mismatches of that kind, the counts come in the order of the kinds, the samples are the
  first five incorrect responses and the log holds the first twenty.
\<close>

theorem correctness_accounting:
  assumes "length rs < 2 ^ 64" and "c = record_all rs (correctness_new e v)"
  shows "unat (co_errors c) = length (incorrect rs) \<and>
    (\<forall>k. counted k (co_counts c) = of_nat (count_list (concat (map report_kinds rs)) k)) \<and>
    sorted_wrt (<) (map fst (co_counts c)) \<and>
    co_samples c = map sample_of (take MAX_CORRECTNESS_ERROR_SAMPLES (incorrect rs)) \<and>
    co_warnings c = map warning_of (take (unat MAX_CORRECTNESS_WARNINGS) (incorrect rs))"
proof -
  have "unat (co_errors c) = length (incorrect rs) \<and>
      co_samples c = map sample_of (take MAX_CORRECTNESS_ERROR_SAMPLES (incorrect rs)) \<and>
      co_warnings c = map warning_of (take (unat MAX_CORRECTNESS_WARNINGS) (incorrect rs))"
    using assms
  proof (induction rs arbitrary: c rule: rev_induct)
    case Nil
    then show ?case by (simp add: record_all_def incorrect_def correctness_new_def)
  next
    case (snoc r rs)
    obtain i t a b ms where r: "r = (i, t, a, b, ms)" by (cases r)
    define d where "d = record_all rs (correctness_new e v)"
    have c: "c = correctness_record i t a b ms d" using snoc.prems(2) by (simp add: r record_all_snoc d_def)
    note IH = snoc.IH [OF _ d_def]
    show ?case
    proof (cases ms)
      case Nil
      then show ?thesis using IH snoc.prems(1) by (simp add: c r incorrect_def)
    next
      case (Cons m ms')
      have len: "length (incorrect rs) \<le> length rs" by (simp add: incorrect_def)
      have errs: "unat (co_errors d) = length (incorrect rs)" using IH snoc.prems(1) by simp
      then have "unat (co_errors d + 1) = Suc (length (incorrect rs))"
        using len snoc.prems(1) by (subst unat_add_lem [THEN iffD1]) simp_all
      moreover have "co_errors d < MAX_CORRECTNESS_WARNINGS \<longleftrightarrow> length (incorrect rs) < unat MAX_CORRECTNESS_WARNINGS"
        by (simp add: word_less_nat_alt errs)
      ultimately show ?thesis using IH snoc.prems(1)
        by (simp add: c r Cons correctness_record_def Let_def incorrect_def not_less)
    qed
  qed
  moreover have "co_counts c = fold bump (concat (map report_kinds rs)) []"
    by (simp add: assms(2) record_all_counts correctness_new_def)
  moreover have "sorted_wrt (<) (map fst (fold bump (concat (map report_kinds rs)) []))"
    by (rule fold_bump_ordered) simp
  moreover have "counted k (fold bump (concat (map report_kinds rs)) []) =
      of_nat (count_list (concat (map report_kinds rs)) k)" for k
    by (subst fold_bump_counted) (simp_all add: counted_def)
  ultimately show ?thesis by simp
qed

theorem correctness_accounting_witness:
  "unat (co_errors (record_all [(3, ''partial'', 1, 50, []), (4, ''partial'', 1, 50, [Mismatch Checksum (Detail_u32 1 2)])]
     (correctness_new default_expected 1))) = 1"
  using correctness_accounting [of "[(3, ''partial'', 1, 50, []), (4, ''partial'', 1, 50, [Mismatch Checksum (Detail_u32 1 2)])]",
    OF _ refl, of default_expected 1]
  by (simp add: incorrect_def)

subsection \<open>Start delays\<close>

text \<open>
  A \<open>Duration\<close> holds less than \<open>2 ^ 64\<close> seconds; adding beyond that panics.
\<close>

definition duration_add :: "duration \<Rightarrow> duration \<Rightarrow> duration rust" where
  "duration_add a b = (if a + b < 2 ^ 64 * 1000000000 then Ret (a + b) else Panic)"

definition measure_start_delay :: "duration \<Rightarrow> duration \<Rightarrow> duration \<Rightarrow> duration rust" where
  "measure_start_delay warmup ramp_up session_start_spread =
     (case duration_add ramp_up session_start_spread of
        Panic \<Rightarrow> Panic
      | Ret d \<Rightarrow> duration_add d warmup)"

text \<open>The product saturates at \<open>u128::MAX\<close>, the quotient is cut at \<open>u64::MAX\<close> nanoseconds.\<close>

definition scale_duration :: "duration \<Rightarrow> usize \<Rightarrow> usize \<Rightarrow> duration" where
  "scale_duration d numerator denominator =
     (if d = 0 \<or> numerator = 0 \<or> denominator = 0 then 0
      else min (min (d * unat numerator) (2 ^ 128 - 1) div unat denominator) (2 ^ 64 - 1))"

definition session_start_delay :: "usize \<Rightarrow> usize \<Rightarrow> duration \<Rightarrow> duration \<Rightarrow> duration rust" where
  "session_start_delay session_id sessions ramp_up session_start_spread =
     (if sessions = 0 then Ret 0
      else duration_add (scale_duration ramp_up session_id sessions)
             (scale_duration session_start_spread session_id sessions))"

lemma scale_duration_le: "i < n \<Longrightarrow> scale_duration d i n \<le> d"
proof -
  assume "i < n"
  then have lt: "unat i < unat n" by (simp add: word_less_nat_alt)
  have "min (d * unat i) (2 ^ 128 - 1) div unat n \<le> d * unat i div unat n" by (intro div_le_mono) simp
  also have "\<dots> \<le> d * unat n div unat n" using lt by (intro div_le_mono mult_le_mono2) simp
  also have "\<dots> = d" using lt by simp
  finally show ?thesis by (simp add: scale_duration_def min.coboundedI1)
qed

lemma scale_duration_mono: "i \<le> j \<Longrightarrow> scale_duration d i n \<le> scale_duration d j n"
proof -
  assume "i \<le> j"
  then have le: "unat i \<le> unat j" by (simp add: word_le_nat_alt)
  have "min (d * unat i) (2 ^ 128 - 1) div unat n \<le> min (d * unat j) (2 ^ 128 - 1) div unat n"
    using le by (intro div_le_mono min.mono mult_le_mono2) simp_all
  then have m: "min (min (d * unat i) (2 ^ 128 - 1) div unat n) (2 ^ 64 - 1) \<le>
      min (min (d * unat j) (2 ^ 128 - 1) div unat n) (2 ^ 64 - 1)" by (rule min.mono) simp
  show ?thesis
  proof (cases "j = 0")
    case True
    then show ?thesis using \<open>i \<le> j\<close> by simp
  next
    case False
    then show ?thesis using m by (simp add: scale_duration_def)
  qed
qed



subsection \<open>Latency percentiles\<close>

record percentiles =
  pe_p50_ms :: f64
  pe_p95_ms :: f64
  pe_p99_ms :: f64
  pe_p999_ms :: f64
  pe_max_ms :: f64

text \<open>What the summary reads of a histogram.\<close>

record histogram =
  hi_len :: u64
  hi_value_at_quantile :: "f64 \<Rightarrow> u64"
  hi_max :: u64

definition micros_to_ms :: "u64 \<Rightarrow> f64" where
  "micros_to_ms micros = f64_div (f64_of_int (uint micros)) (f64_of_int 1000)"

definition percentiles_of :: "histogram \<Rightarrow> percentiles" where
  "percentiles_of h =
     (if hi_len h = 0
      then \<lparr>pe_p50_ms = f64_zero, pe_p95_ms = f64_zero, pe_p99_ms = f64_zero, pe_p999_ms = f64_zero,
            pe_max_ms = f64_zero\<rparr>
      else \<lparr>pe_p50_ms = micros_to_ms (hi_value_at_quantile h (round_ratio 1 2)),
            pe_p95_ms = micros_to_ms (hi_value_at_quantile h (round_ratio 95 100)),
            pe_p99_ms = micros_to_ms (hi_value_at_quantile h (round_ratio 99 100)),
            pe_p999_ms = micros_to_ms (hi_value_at_quantile h (round_ratio 999 1000)),
            pe_max_ms = micros_to_ms (hi_max h)\<rparr>)"

definition micros_since :: "instant \<Rightarrow> instant \<Rightarrow> u64" where
  "micros_since now since = of_nat (as_micros (now - since))"

text \<open>\<open>x.round() as u64\<close>: halves round away from zero, the conversion saturates.\<close>

fun f64_round_u64 :: "f64 \<Rightarrow> u64" where
  "f64_round_u64 (Finite m e) =
     of_nat (min ((2 * nat (fin_num m e) + fin_den e) div (2 * fin_den e)) (2 ^ 64 - 1))"
| "f64_round_u64 (Infinity neg) = (if neg then 0 else - 1)"
| "f64_round_u64 NaN = 0"

subsection \<open>The samples file\<close>

record sample =
  sa_session_id :: usize
  sa_oldest_frame_seq :: u64
  sa_newest_frame_seq :: u64
  sa_frames :: u64
  sa_transcript :: string
  sa_audio_bytes :: u64
  sa_newest_us :: u64
  sa_oldest_us :: u64
  sa_flush_lateness_us :: u64
  sa_received_us :: u64

definition NEWLINE :: string where
  "NEWLINE = [CHR 0x0A]"

definition samples_csv_header :: string where
  "samples_csv_header =
     ''sample_index,session_id,oldest_frame_seq,newest_frame_seq,frames,'' @ ''transcript,audio_bytes,'' @
     ''newest_latency_ms,oldest_latency_ms,flush_lateness_ms,received_ms'' @ NEWLINE"

text \<open>\<open>{:03}\<close> of a number below 1000.\<close>

definition dec3 :: "nat \<Rightarrow> string" where
  "dec3 n = replicate (3 - length (dec n)) (CHR ''0'') @ dec n"

definition write_millis :: "u64 \<Rightarrow> string" where
  "write_millis micros = dec (unat (micros div 1000)) @ ''.'' @ dec3 (unat (micros mod 1000))"

definition sample_csv_row :: "u64 \<Rightarrow> sample \<Rightarrow> string" where
  "sample_csv_row sample_index s =
     dec (unat sample_index) @ '','' @ dec (unat (sa_session_id s)) @ '','' @ dec (unat (sa_oldest_frame_seq s)) @ '','' @
     dec (unat (sa_newest_frame_seq s)) @ '','' @ dec (unat (sa_frames s)) @ '','' @ sa_transcript s @ '','' @
     dec (unat (sa_audio_bytes s)) @ '','' @ write_millis (sa_newest_us s) @ '','' @ write_millis (sa_oldest_us s) @ '','' @
     write_millis (sa_flush_lateness_us s) @ '','' @ write_millis (sa_received_us s) @ NEWLINE"

lemma digit_inj: "a < 10 \<Longrightarrow> b < 10 \<Longrightarrow> char_of (48 + a) = (char_of (48 + b) :: char) \<Longrightarrow> a = (b :: nat)"
proof -
  assume "a < 10" "b < 10" and "char_of (48 + a) = (char_of (48 + b) :: char)"
  moreover from this(3) have "of_char (char_of (48 + a) :: char) = (of_char (char_of (48 + b) :: char) :: nat)" by simp
  ultimately show "a = b" by simp
qed

lemma dec3_digits: "n < 1000 \<Longrightarrow> dec3 n = [char_of (48 + n div 100), char_of (48 + n div 10 mod 10), char_of (48 + n mod 10)]"
proof -
  assume n: "n < 1000"
  have z: "CHR ''0'' = char_of (48 :: nat)" by (simp add: char_of_def bit_0)
  consider "n < 10" | "10 \<le> n" "n < 100" | "100 \<le> n" by linarith
  then show ?thesis
  proof cases
    case 1
    then have "dec n = [char_of (48 + n)]" by (simp add: dec.simps)
    then show ?thesis using 1 by (simp add: dec3_def z numeral_2_eq_2)
  next
    case 2
    then have "dec n = [char_of (48 + n div 10), char_of (48 + n mod 10)]"
      by (simp add: dec.simps [of n] dec.simps [of "n div 10"])
    then show ?thesis using 2 by (simp add: dec3_def z)
  next
    case 3
    then have "\<not> n < 10" "\<not> n div 10 < 10" "n div 10 div 10 < 10" "n div 10 div 10 = n div 100"
      using n by (simp_all add: div_mult2_eq [symmetric])
    then have "dec n = [char_of (48 + n div 100), char_of (48 + n div 10 mod 10), char_of (48 + n mod 10)]"
      by (simp add: dec.simps [of n] dec.simps [of "n div 10"] dec.simps [of "n div 100"])
    then show ?thesis by (simp add: dec3_def)
  qed
qed

lemma dec3_inj: "m < 1000 \<Longrightarrow> n < 1000 \<Longrightarrow> dec3 m = dec3 n \<Longrightarrow> m = n"
proof -
  assume mn: "m < 1000" "n < 1000" and "dec3 m = dec3 n"
  then have "m div 100 = n div 100" "m div 10 mod 10 = n div 10 mod 10" "m mod 10 = n mod 10"
    by (auto simp: dec3_digits intro: digit_inj)
  note d = this
  have q: "k div 10 div 10 = k div 100" for k :: nat using div_mult2_eq [of k 10 10] by simp
  have "m div 10 div 10 * 10 + m div 10 mod 10 = n div 10 div 10 * 10 + n div 10 mod 10"
    by (simp only: q d(1,2))
  then have "m div 10 = n div 10" by (simp only: div_mult_mod_eq)
  then have "m div 10 * 10 + m mod 10 = n div 10 * 10 + n mod 10" using d(3) by (simp only:)
  then show "m = n" by (simp only: div_mult_mod_eq)
qed

lemma dec_inj: "dec m = dec n \<Longrightarrow> m = n"
  by (metis parse_uint_dec max.cobounded1 max.cobounded2 option.inject)

lemma digit_chars:
  "is_digit (CHR ''0'')" "\<not> is_digit (CHR ''.'')" "\<not> is_digit (CHR '','')" "\<not> is_digit (CHR 0x0A)"
  by (simp_all add: is_digit_def digit_val_def Let_def)

lemma dec_chars: "c \<in> set (dec n) \<Longrightarrow> is_digit c"
  using is_digit_dec [of n] by (simp add: list_all_iff)

lemma dec3_chars: "c \<in> set (dec3 n) \<Longrightarrow> is_digit c"
  by (auto simp: dec3_def digit_chars dest: dec_chars)

text \<open>A separator that occurs in neither field splits a line in one way only.\<close>

lemma field_inj:
  "c \<notin> set a \<Longrightarrow> c \<notin> set b \<Longrightarrow> a @ c # r = b @ c # r' \<longleftrightarrow> a = b \<and> r = r'"
proof (induction a arbitrary: b)
  case Nil
  then show ?case by (cases b) auto
next
  case (Cons x a)
  then show ?case by (cases b) auto
qed

lemma write_millis_chars: "c \<in> set (write_millis n) \<Longrightarrow> is_digit c \<or> c = CHR ''.''"
  by (auto simp: write_millis_def dest: dec_chars dec3_chars)

lemma write_millis_inj: "write_millis m = write_millis n \<Longrightarrow> m = n"
proof -
  assume eq: "write_millis m = write_millis n"
  have "CHR ''.'' \<notin> set (dec k)" for k by (auto simp: digit_chars dest: dec_chars)
  then have d: "dec (unat (m div 1000)) = dec (unat (n div 1000))" "dec3 (unat (m mod 1000)) = dec3 (unat (n mod 1000))"
    using eq by (simp_all add: write_millis_def field_inj)
  have lt: "unat (k mod 1000 :: u64) < 1000" for k by (simp add: unat_mod)
  have "m div 1000 = n div 1000" "m mod 1000 = n mod 1000"
    using dec_inj [OF d(1)] dec3_inj [OF lt lt d(2)] by (simp_all add: word_unat_eq_iff)
  then show "m = n" by (metis div_mult_mod_eq)
qed

text \<open>
  A line of the samples file determines its index and its sample: five fields are read from the left
  and five from the right, and what is between them is the transcript, commas included.
\<close>

lemma sample_csv_row_inj:
  assumes "sample_csv_row i s = sample_csv_row j t"
  shows "i = j \<and> s = t"
proof -
  have dc: "CHR '','' \<notin> set (dec k)" "CHR '','' \<notin> set (rev (dec k))" for k by (auto simp: digit_chars dest: dec_chars)
  have wc: "CHR '','' \<notin> set (rev (write_millis k))" for k by (auto simp: digit_chars dest: write_millis_chars)
  have di: "unat (a :: u64) = unat b \<longleftrightarrow> a = b" for a b by (simp add: word_unat_eq_iff)
  have dq: "dec (unat a) = dec (unat b) \<longleftrightarrow> a = b" for a b :: u64 using dec_inj di by blast
  have wq: "write_millis a = write_millis b \<longleftrightarrow> a = b" for a b using write_millis_inj by blast
  define tail where "tail u = '','' @ dec (unat (sa_audio_bytes u)) @ '','' @ write_millis (sa_newest_us u) @ '','' @
    write_millis (sa_oldest_us u) @ '','' @ write_millis (sa_flush_lateness_us u) @ '','' @ write_millis (sa_received_us u) @ NEWLINE" for u :: sample
  note eq = assms [unfolded sample_csv_row_def, folded tail_def, unfolded append_Cons append_Nil]
  have l: "i = j \<and> sa_session_id s = sa_session_id t \<and> sa_oldest_frame_seq s = sa_oldest_frame_seq t \<and>
    sa_newest_frame_seq s = sa_newest_frame_seq t \<and> sa_frames s = sa_frames t \<and>
    sa_transcript s @ tail s = sa_transcript t @ tail t"
    using eq by (simp only: field_inj [OF dc(1) dc(1)] dq)
  then have "rev (sa_transcript s @ tail s) = rev (sa_transcript t @ tail t)" by simp
  then have "rev (write_millis (sa_received_us s)) = rev (write_millis (sa_received_us t)) \<and>
      rev (write_millis (sa_flush_lateness_us s)) = rev (write_millis (sa_flush_lateness_us t)) \<and>
      rev (write_millis (sa_oldest_us s)) = rev (write_millis (sa_oldest_us t)) \<and>
      rev (write_millis (sa_newest_us s)) = rev (write_millis (sa_newest_us t)) \<and>
      rev (dec (unat (sa_audio_bytes s))) = rev (dec (unat (sa_audio_bytes t))) \<and> rev (sa_transcript s) = rev (sa_transcript t)"
    by (simp only: tail_def NEWLINE_def rev_append rev.simps append_assoc append_Cons append_Nil list.inject
        field_inj [OF wc wc] field_inj [OF dc(2) dc(2)] simp_thms)
  then show ?thesis using l by (simp add: dq wq)
qed

definition example_sample :: sample where
  "example_sample = \<lparr>sa_session_id = 1, sa_oldest_frame_seq = 1, sa_newest_frame_seq = 50, sa_frames = 50,
     sa_transcript = ''alpha'', sa_audio_bytes = 32000, sa_newest_us = 75012, sa_oldest_us = 1055012,
     sa_flush_lateness_us = 3, sa_received_us = 2000000\<rparr>"

end
