(* ===== verification/Loadgen_Session.thy ===== *)
theory Loadgen_Session
  imports Loadgen_Report
begin

text \<open>
  One session of the load generator, \<open>run_session\<close>, \<open>process_inbound\<close>, \<open>check_session_tail\<close> and
  \<open>record_session_outcome\<close> of \<open>loadgen/rust/src/main.rs\<close>, and the verifier thread. The sessions share
  the counters and the bounded queue of the verifier (\<open>lg_shared\<close>); everything else is a session's own.

  Decoding a server message is serde's. A call that can time out comes with its outcome, a received
  message with the instant it is handled at.
\<close>

subsection \<open>Shared state\<close>

definition VERIFY_QUEUE_CAPACITY :: nat where
  "VERIFY_QUEUE_CAPACITY = 16384"

record verify_job =
  vj_session_id :: usize
  vj_partial :: partial_message
  vj_inline :: "mismatch list"

text \<open>\<open>sh_samples\<close> is what was sent on the sample channel, \<open>sh_reports\<close> the calls of \<open>record\<close>.\<close>

record lg_shared =
  sh_correctness :: correctness
  sh_queue :: "verify_job list"
  sh_inference_errors :: u64
  sh_details :: inference_error_details
  sh_samples :: "sample list"
  sh_protocol_errors :: u64
  sh_timeouts :: timeout_counters
  sh_reports :: "report_call list"

definition shared_new :: "expected_config \<Rightarrow> u64 \<Rightarrow> lg_shared" where
  "shared_new expected verify_every =
     \<lparr>sh_correctness = correctness_new expected verify_every, sh_queue = [], sh_inference_errors = 0,
      sh_details = error_details_default, sh_samples = [], sh_protocol_errors = 0,
      sh_timeouts = timeout_counters_default, sh_reports = []\<rparr>"

definition report_response :: "usize \<Rightarrow> string \<Rightarrow> u64 \<Rightarrow> u64 \<Rightarrow> mismatch list \<Rightarrow> lg_shared \<Rightarrow> lg_shared" where
  "report_response i t a b ms sh =
     sh\<lparr>sh_correctness := correctness_record i t a b ms (sh_correctness sh),
        sh_reports := sh_reports sh @ [(i, t, a, b, ms)]\<rparr>"

definition report_bad_message :: "usize \<Rightarrow> mismatch_detail \<Rightarrow> lg_shared \<Rightarrow> lg_shared" where
  "report_bad_message i d sh =
     sh\<lparr>sh_correctness := record_malformed i d (sh_correctness sh),
        sh_reports := sh_reports sh @ [(i, ''malformed'', 0, 0, [Mismatch MalformedMessage d])]\<rparr>"

subsection \<open>The verifier\<close>

text \<open>\<open>submit_verify\<close>: \<open>alive\<close> says that the verifier thread still holds its receiver.\<close>

definition submit_verify :: "bool \<Rightarrow> verify_job \<Rightarrow> lg_shared \<Rightarrow> lg_shared" where
  "submit_verify alive job sh =
     (if alive \<and> length (sh_queue sh) < VERIFY_QUEUE_CAPACITY
      then sh\<lparr>sh_queue := sh_queue sh @ [job]\<rparr>
      else report_response (vj_session_id job) ''partial'' (oldest_frame_seq (vj_partial job))
             (newest_frame_seq (vj_partial job)) (vj_inline job)
             (sh\<lparr>sh_correctness := (sh_correctness sh)
                \<lparr>co_verify_dropped := co_verify_dropped (sh_correctness sh) + 1\<rparr>\<rparr>))"

text \<open>One round of the verifier thread's loop.\<close>

definition verify_one :: "lg_shared \<Rightarrow> lg_shared" where
  "verify_one sh =
     (case sh_queue sh of
        [] \<Rightarrow> sh
      | job # jobs \<Rightarrow>
          let mismatches = vj_inline job @
                verify_partial (vj_session_id job) (vj_partial job) (co_expected (sh_correctness sh));
              sh1 = sh\<lparr>sh_queue := jobs, sh_correctness := (sh_correctness sh)
                \<lparr>co_verified := co_verified (sh_correctness sh) + 1\<rparr>\<rparr>
          in report_response (vj_session_id job) ''partial'' (oldest_frame_seq (vj_partial job))
               (newest_frame_seq (vj_partial job)) mismatches sh1)"

subsection \<open>A message from the gateway\<close>

datatype ws_error = Ws_connection_closed | Ws_already_closed | Ws_other string

datatype lg_message = Lm_text string | Lm_binary bytes | Lm_close | Lm_control

datatype lg_recv = Lr_msg lg_message | Lr_err ws_error | Lr_none

datatype inbound_state = Ib_open | Ib_closed

record session_check =
  sc_continuity :: continuity
  sc_measured_partials :: u64

definition session_check_default :: session_check where
  "session_check_default = \<lparr>sc_continuity = continuity_default, sc_measured_partials = 0\<rparr>"

text \<open>
  The instant a message is handled at, whether the receiver of the sample channel is still there, and
  whether the verifier thread is.
\<close>

record inbound_env =
  ib_now :: instant
  ib_rx_ok :: bool
  ib_connected :: bool

definition opt_list :: "'a option \<Rightarrow> 'a list" where
  "opt_list x = (case x of None \<Rightarrow> [] | Some a \<Rightarrow> [a])"

definition inbound_error ::
  "usize \<Rightarrow> error_message \<Rightarrow> bool \<Rightarrow> lg_shared \<Rightarrow> session_check \<Rightarrow> lg_shared \<times> session_check" where
  "inbound_error session_id e measured sh check =
     (case observe (em_oldest_frame_seq e) (em_newest_frame_seq e) (sc_continuity check) of (gap, c) \<Rightarrow>
        let sh1 = (case gap of
                     Some mismatch \<Rightarrow>
                       if measured
                       then report_response session_id ''error'' (em_oldest_frame_seq e) (em_newest_frame_seq e) [mismatch] sh
                       else sh
                   | None \<Rightarrow> sh)
        in (sh1\<lparr>sh_inference_errors := sh_inference_errors sh1 + 1, sh_details := details_record e (sh_details sh1)\<rparr>,
            check\<lparr>sc_continuity := c\<rparr>))"

definition sent_at :: "instant list \<Rightarrow> u64 \<Rightarrow> instant option" where
  "sent_at sent_times seq =
     (let i = unat (saturating_sub seq 1) in if i < length sent_times then Some (sent_times ! i) else None)"

definition latency_sample ::
  "usize \<Rightarrow> partial_message \<Rightarrow> instant \<Rightarrow> instant \<Rightarrow> instant \<Rightarrow> instant \<Rightarrow> sample" where
  "latency_sample session_id p now measure_start newest_sent oldest_sent =
     \<lparr>sa_session_id = session_id, sa_oldest_frame_seq = oldest_frame_seq p, sa_newest_frame_seq = newest_frame_seq p,
      sa_frames = frames p, sa_transcript = transcript p, sa_audio_bytes = audio_bytes p,
      sa_newest_us = micros_since now newest_sent, sa_oldest_us = micros_since now oldest_sent,
      sa_flush_lateness_us = f64_round_u64 (f64_mul (f64_max (flush_lateness_ms p) f64_zero) (f64_of_int 1000)),
      sa_received_us = micros_since now measure_start\<rparr>"

text \<open>The value check of a measured partial, after its latency was sampled.\<close>

definition check_values ::
  "bool \<Rightarrow> usize \<Rightarrow> partial_message \<Rightarrow> mismatch list \<Rightarrow> bool \<Rightarrow> lg_shared \<Rightarrow> session_check \<Rightarrow> lg_shared \<times> session_check" where
  "check_values alive session_id p inline unsent sh check =
     (let every = co_verify_every (sh_correctness sh);
          counts = (\<not> unsent \<and> 0 < every);
          selected = (counts \<and> sc_measured_partials check mod every = 0);
          check1 = (if counts then check\<lparr>sc_measured_partials := sc_measured_partials check + 1\<rparr> else check)
      in if selected
         then (submit_verify alive \<lparr>vj_session_id = session_id, vj_partial = p, vj_inline = inline\<rparr> sh, check1)
         else (report_response session_id ''partial'' (oldest_frame_seq p) (newest_frame_seq p) inline sh, check1))"

definition inbound_partial ::
  "inbound_env \<Rightarrow> usize \<Rightarrow> partial_message \<Rightarrow> bool \<Rightarrow> instant \<Rightarrow> instant list \<Rightarrow> lg_shared \<Rightarrow> session_check
     \<Rightarrow> (inbound_state, string) result \<times> lg_shared \<times> session_check" where
  "inbound_partial env session_id p measured measure_start sent_times sh check =
     (case observe (oldest_frame_seq p) (newest_frame_seq p) (sc_continuity check) of (gap, c) \<Rightarrow>
        let check1 = check\<lparr>sc_continuity := c\<rparr>
        in case validate p of
             Err e \<Rightarrow>
               (Ok Ib_open, report_response session_id ''partial'' (oldest_frame_seq p) (newest_frame_seq p)
                  (opt_list gap @ [Mismatch InvalidPartial (Detail_text e)]) sh, check1)
           | Ok _ \<Rightarrow>
               if \<not> measured then (Ok Ib_open, sh, check1)
               else
                 let sent = of_nat (length sent_times);
                     unsent = (sent < newest_frame_seq p);
                     inline = opt_list gap @
                       (if unsent then [Mismatch UnsentFrame (Detail_unsent (newest_frame_seq p) sent)] else [])
                 in case (sent_at sent_times (newest_frame_seq p), sent_at sent_times (oldest_frame_seq p)) of
                      (Some newest_sent, Some oldest_sent) \<Rightarrow>
                        if \<not> ib_rx_ok env then (Err ''send sample'', sh, check1)
                        else (Ok Ib_open, check_values (ib_connected env) session_id p inline unsent
                               (sh\<lparr>sh_samples := sh_samples sh @
                                 [latency_sample session_id p (ib_now env) measure_start newest_sent oldest_sent]\<rparr>) check1)
                    | _ \<Rightarrow> (Ok Ib_open, check_values (ib_connected env) session_id p inline unsent sh check1))"

definition process_inbound ::
  "(string \<Rightarrow> (server_message, string) result) \<Rightarrow> inbound_env \<Rightarrow> usize \<Rightarrow> lg_recv \<Rightarrow> instant \<Rightarrow> instant \<Rightarrow>
     instant list \<Rightarrow> lg_shared \<Rightarrow> session_check \<Rightarrow> (inbound_state, string) result \<times> lg_shared \<times> session_check" where
  "process_inbound from_str env session_id r measure_start end_at sent_times sh check =
     (case r of
        Lr_msg Lm_close \<Rightarrow> (Ok Ib_closed, sh, check)
      | Lr_none \<Rightarrow> (Ok Ib_closed, sh, check)
      | Lr_err Ws_connection_closed \<Rightarrow> (Ok Ib_closed, sh, check)
      | Lr_err Ws_already_closed \<Rightarrow> (Ok Ib_closed, sh, check)
      | Lr_err (Ws_other e) \<Rightarrow> (Err (''read websocket message: '' @ e), sh, check)
      | Lr_msg (Lm_binary bs) \<Rightarrow>
          (Ok Ib_open, report_bad_message session_id
             (Detail_text (''unexpected binary message ('' @ dec (length bs) @ '' bytes)'')) sh, check)
      | Lr_msg Lm_control \<Rightarrow> (Ok Ib_open, sh, check)
      | Lr_msg (Lm_text text) \<Rightarrow>
          (case from_str text of
             Err e \<Rightarrow> (Ok Ib_open, report_bad_message session_id (Detail_text (''decode server message: '' @ e)) sh, check)
           | Ok m \<Rightarrow>
               let measured = (measure_start \<le> ib_now env \<and> ib_now env \<le> end_at)
               in case m of
                    Error e \<Rightarrow> (Ok Ib_open, inbound_error session_id e measured sh check)
                  | Partial p \<Rightarrow> inbound_partial env session_id p measured measure_start sent_times sh check))"

subsection \<open>The life of a session\<close>

record lg_config =
  lc_from_str :: "string \<Rightarrow> (server_message, string) result"
  lc_timeouts :: timeout_config
  lc_measure_start :: instant
  lc_end_at :: instant

datatype fail_reason = Timed_out timeout_kind | Failure string

datatype ls_phase =
    Ls_connecting | Ls_starting | Ls_streaming | Ls_draining instant | Ls_done | Ls_failed fail_reason

text \<open>
  \<open>ls_lag\<close> and \<open>ls_block\<close> are the values recorded in the session's two histograms, \<open>ls_written\<close> the
  frames its socket took.
\<close>

record lg_session =
  ls_id :: usize
  ls_phase :: ls_phase
  ls_check :: session_check
  ls_sent_times :: "instant list"
  ls_seq :: u64
  ls_next_tick :: instant
  ls_lag :: "u64 list"
  ls_block :: "u64 list"
  ls_written :: "bytes list"

definition lg_session_new :: "usize \<Rightarrow> lg_session" where
  "lg_session_new i =
     \<lparr>ls_id = i, ls_phase = Ls_connecting, ls_check = session_check_default, ls_sent_times = [], ls_seq = 0,
      ls_next_tick = 0, ls_lag = [], ls_block = [], ls_written = []\<rparr>"

text \<open>What a call guarded by \<open>timed\<close> does: it returns, it fails, or its time is up.\<close>

datatype timed_outcome = Call_ok | Call_err string | Call_elapsed

fun timed :: "timeout_kind \<Rightarrow> timed_outcome \<Rightarrow> timeout_counters \<Rightarrow> (unit, fail_reason) result \<times> timeout_counters" where
  "timed kind Call_ok tc = (Ok (), tc)"
| "timed kind (Call_err e) tc = (Err (Failure e), tc)"
| "timed kind Call_elapsed tc = (Err (Timed_out kind), increment kind tc)"

text \<open>\<open>Err ()\<close> stands for the deadline of the whole session.\<close>

definition record_session_outcome ::
  "((unit, fail_reason) result, unit) result \<Rightarrow> lg_shared \<Rightarrow> lg_shared" where
  "record_session_outcome outcome sh =
     (case outcome of
        Ok (Ok _) \<Rightarrow> sh
      | Ok (Err e) \<Rightarrow> sh\<lparr>sh_protocol_errors := sh_protocol_errors sh + 1\<rparr>
      | Err _ \<Rightarrow> sh\<lparr>sh_timeouts := increment Tk_Session (sh_timeouts sh),
                   sh_protocol_errors := sh_protocol_errors sh + 1\<rparr>)"

definition end_session ::
  "((unit, fail_reason) result, unit) result \<Rightarrow> lg_shared \<times> lg_session \<Rightarrow> lg_shared \<times> lg_session" where
  "end_session outcome = (\<lambda>(sh, s).
     (record_session_outcome outcome sh,
      s\<lparr>ls_phase := (case outcome of
                      Ok (Ok _) \<Rightarrow> Ls_done
                    | Ok (Err e) \<Rightarrow> Ls_failed e
                    | Err _ \<Rightarrow> Ls_failed (Timed_out Tk_Session))\<rparr>))"

text \<open>A guarded call, then \<open>k\<close> when it returned.\<close>

definition guarded ::
  "timeout_kind \<Rightarrow> timed_outcome \<Rightarrow> (lg_session \<Rightarrow> lg_session) \<Rightarrow> lg_shared \<times> lg_session \<Rightarrow> lg_shared \<times> lg_session" where
  "guarded kind out k = (\<lambda>(sh, s).
     case timed kind out (sh_timeouts sh) of
       (Ok _, tc) \<Rightarrow> (sh\<lparr>sh_timeouts := tc\<rparr>, k s)
     | (Err e, tc) \<Rightarrow> end_session (Ok (Err e)) (sh\<lparr>sh_timeouts := tc\<rparr>, s))"

definition session_connect :: "timed_outcome \<Rightarrow> lg_shared \<times> lg_session \<Rightarrow> lg_shared \<times> lg_session" where
  "session_connect out = guarded Tk_Connect out (\<lambda>s. s\<lparr>ls_phase := Ls_starting\<rparr>)"

definition session_start :: "instant \<Rightarrow> timed_outcome \<Rightarrow> lg_shared \<times> lg_session \<Rightarrow> lg_shared \<times> lg_session" where
  "session_start now out = guarded Tk_Send out (\<lambda>s. s\<lparr>ls_phase := Ls_streaming, ls_next_tick := now\<rparr>)"

text \<open>The send arm: \<open>woke\<close> is when the task woke up, \<open>done\<close> when the write returned.\<close>

definition session_send ::
  "lg_config \<Rightarrow> instant \<Rightarrow> instant \<Rightarrow> timed_outcome \<Rightarrow> lg_shared \<times> lg_session \<Rightarrow> lg_shared \<times> lg_session" where
  "session_send cf woke done out = (\<lambda>(sh, s).
     let measured = (lc_measure_start cf \<le> ls_next_tick s);
         s1 = s\<lparr>ls_lag := ls_lag s @ (if measured then [micros_since woke (ls_next_tick s)] else []),
                ls_seq := ls_seq s + 1, ls_sent_times := ls_sent_times s @ [ls_next_tick s]\<rparr>;
         payload = frame_payload (ls_id s) (ls_seq s1)
     in guarded Tk_Send out
          (\<lambda>s. s\<lparr>ls_written := ls_written s @ [payload],
                 ls_block := ls_block s @ (if measured then [micros_since done woke] else []),
                 ls_next_tick := ls_next_tick s + FRAME_INTERVAL\<rparr>) (sh, s1))"

definition session_inbound ::
  "lg_config \<Rightarrow> inbound_env \<Rightarrow> lg_recv \<Rightarrow> lg_shared \<times> lg_session \<Rightarrow> lg_shared \<times> lg_session" where
  "session_inbound cf env r = (\<lambda>(sh, s).
     case process_inbound (lc_from_str cf) env (ls_id s) r (lc_measure_start cf) (lc_end_at cf) (ls_sent_times s) sh (ls_check s) of
       (Err e, sh', check) \<Rightarrow> end_session (Ok (Err (Failure e))) (sh', s\<lparr>ls_check := check\<rparr>)
     | (Ok Ib_closed, sh', check) \<Rightarrow>
         end_session (Ok (Err (Failure ''websocket closed before send loop finished''))) (sh', s\<lparr>ls_check := check\<rparr>)
     | (Ok Ib_open, sh', check) \<Rightarrow> (sh', s\<lparr>ls_check := check\<rparr>))"

text \<open>The close frame after the last send, and the deadline of the final loop.\<close>

definition session_close :: "lg_config \<Rightarrow> instant \<Rightarrow> timed_outcome \<Rightarrow> lg_shared \<times> lg_session \<Rightarrow> lg_shared \<times> lg_session" where
  "session_close cf now out =
     guarded Tk_Send out (\<lambda>s. s\<lparr>ls_phase := Ls_draining (now + to_close_grace (lc_timeouts cf))\<rparr>)"

definition check_session_tail ::
  "usize \<Rightarrow> instant list \<Rightarrow> instant \<Rightarrow> session_check \<Rightarrow> lg_shared \<Rightarrow> lg_shared" where
  "check_session_tail session_id sent_times measure_start check sh =
     (if sent_times = [] \<or> last sent_times < measure_start then sh
      else let sent = of_nat (length sent_times); reported = last_newest (sc_continuity check)
           in case check_tail sent reported of
                Some mismatch \<Rightarrow> report_response session_id ''session_end'' (reported + 1) sent [mismatch] sh
              | None \<Rightarrow> sh)"

definition session_drain ::
  "lg_config \<Rightarrow> inbound_env \<Rightarrow> lg_recv \<Rightarrow> lg_shared \<times> lg_session \<Rightarrow> lg_shared \<times> lg_session" where
  "session_drain cf env r = (\<lambda>(sh, s).
     case process_inbound (lc_from_str cf) env (ls_id s) r (lc_measure_start cf) (lc_end_at cf) (ls_sent_times s) sh (ls_check s) of
       (Err e, sh', check) \<Rightarrow> end_session (Ok (Err (Failure e))) (sh', s\<lparr>ls_check := check\<rparr>)
     | (Ok Ib_closed, sh', check) \<Rightarrow>
         end_session (Ok (Ok ()))
           (check_session_tail (ls_id s) (ls_sent_times s) (lc_measure_start cf) check sh', s\<lparr>ls_check := check\<rparr>)
     | (Ok Ib_open, sh', check) \<Rightarrow> (sh', s\<lparr>ls_check := check\<rparr>))"

definition session_grace :: "lg_shared \<times> lg_session \<Rightarrow> lg_shared \<times> lg_session" where
  "session_grace = (\<lambda>(sh, s).
     end_session (Ok (Err (Timed_out Tk_Close))) (sh\<lparr>sh_timeouts := increment Tk_Close (sh_timeouts sh)\<rparr>, s))"

end
