(* ===== verification/Loadgen_Run.thy ===== *)
theory Loadgen_Run
  imports Gateway Loadgen_Session
begin

text \<open>
  A whole run of the load generator: all session tasks and the verifier thread, interleaved at their
  awaits (\<open>main\<close> of \<open>loadgen/rust/src/main.rs\<close>). Beside every session stand, as a ghost, the messages
  it handled. The theorems say what the counters of the summary mean: zero correctness errors is
  exactly that every message was right, and the timeout counters are a breakdown of the failed
  sessions.
\<close>

subsection \<open>The run as a step relation\<close>

text \<open>
  A handled message: whether it came inside the measured window, how many frames had been sent, whether
  its values were handed to the verifier, and the message; \<open>None\<close> is one that could not be read.
\<close>

record lg_entry =
  le_measured :: bool
  le_sent :: u64
  le_verified :: bool
  le_msg :: "server_message option"

definition handled_message ::
  "lg_config \<Rightarrow> inbound_env \<Rightarrow> lg_recv \<Rightarrow> lg_shared \<Rightarrow> lg_session \<Rightarrow> lg_entry list" where
  "handled_message cf env r sh s =
     (case process_inbound (lc_from_str cf) env (ls_id s) r (lc_measure_start cf) (lc_end_at cf) (ls_sent_times s) sh (ls_check s) of
        (Err e, _) \<Rightarrow> []
      | (Ok st, sh', _) \<Rightarrow>
          let entry = \<lambda>m. \<lparr>le_measured = (lc_measure_start cf \<le> ib_now env \<and> ib_now env \<le> lc_end_at cf),
                le_sent = of_nat (length (ls_sent_times s)), le_verified = (sh_queue sh' \<noteq> sh_queue sh), le_msg = m\<rparr>
          in case r of
               Lr_msg (Lm_binary bs) \<Rightarrow> [entry None]
             | Lr_msg (Lm_text text) \<Rightarrow>
                 (case lc_from_str cf text of Err e \<Rightarrow> [entry None] | Ok m \<Rightarrow> [entry (Some m)])
             | _ \<Rightarrow> [])"

type_synonym logged = "lg_session \<times> lg_entry list"

text \<open>
  The steps of one session task. \<open>entered\<close> is when the loop condition and the guard of the send arm were
  tested: the sleep may end after \<open>end_at\<close>, and the frame is then still sent. The frame counter is a
  \<open>u64\<close>; a session is followed up to its wrap-around.
\<close>

inductive session_step :: "lg_config \<Rightarrow> lg_shared \<times> logged \<Rightarrow> lg_shared \<times> logged \<Rightarrow> bool" for cf where
  connect: "session_step cf (sh, s, msgs) (sh', s', msgs)"
  if "ls_phase s = Ls_connecting" and "session_connect out (sh, s) = (sh', s')"
| start: "session_step cf (sh, s, msgs) (sh', s', msgs)"
  if "ls_phase s = Ls_starting" and "session_start now out (sh, s) = (sh', s')"
| send: "session_step cf (sh, s, msgs) (sh', s', msgs)"
  if "ls_phase s = Ls_streaming" and "ls_next_tick s \<le> woke" and "entered \<le> woke" and "entered < lc_end_at cf"
    and "Suc (length (ls_sent_times s)) < 2 ^ 64" and "session_send cf woke done out (sh, s) = (sh', s')"
| inbound: "session_step cf (sh, s, msgs) (sh', s', msgs @ handled_message cf env r sh s)"
  if "ls_phase s = Ls_streaming" and "session_inbound cf env r (sh, s) = (sh', s')"
| close: "session_step cf (sh, s, msgs) (sh', s', msgs)"
  if "ls_phase s = Ls_streaming" and "lc_end_at cf \<le> now" and "session_close cf now out (sh, s) = (sh', s')"
| drain: "session_step cf (sh, s, msgs) (sh', s', msgs @ handled_message cf env r sh s)"
  if "ls_phase s = Ls_draining t" and "session_drain cf env r (sh, s) = (sh', s')"
| grace: "session_step cf (sh, s, msgs) (sh', s', msgs)"
  if "ls_phase s = Ls_draining t" and "session_grace (sh, s) = (sh', s')"
| deadline: "session_step cf (sh, s, msgs) (sh', s', msgs)"
  if "ls_phase s \<noteq> Ls_done" and "\<forall>e. ls_phase s \<noteq> Ls_failed e" and "end_session (Err ()) (sh, s) = (sh', s')"

record lg_run =
  lr_shared :: lg_shared
  lr_sessions :: "logged list"

inductive run_step :: "lg_config \<Rightarrow> lg_run \<Rightarrow> lg_run \<Rightarrow> bool" for cf where
  session: "run_step cf r (r\<lparr>lr_shared := sh, lr_sessions := (lr_sessions r)[i := x]\<rparr>)"
  if "i < length (lr_sessions r)" and "session_step cf (lr_shared r, lr_sessions r ! i) (sh, x)"
| verifier: "run_step cf r (r\<lparr>lr_shared := verify_one (lr_shared r)\<rparr>)"

definition run_init :: "expected_config \<Rightarrow> u64 \<Rightarrow> nat \<Rightarrow> lg_run" where
  "run_init expected verify_every n =
     \<lparr>lr_shared = shared_new expected verify_every,
      lr_sessions = map (\<lambda>i. (lg_session_new (of_nat i), [])) [0..<n]\<rparr>"

subsection \<open>What a clean session is\<close>

definition in_sequence :: "server_message \<Rightarrow> continuity \<Rightarrow> bool" where
  "in_sequence m c \<longleftrightarrow> fst (observe (fst (msg_seqs m)) (snd (msg_seqs m)) c) = None"

definition follow :: "server_message \<Rightarrow> continuity \<Rightarrow> continuity" where
  "follow m c = snd (observe (fst (msg_seqs m)) (snd (msg_seqs m)) c)"

fun entry_clean :: "expected_config \<Rightarrow> usize \<Rightarrow> lg_entry \<Rightarrow> continuity \<Rightarrow> bool" where
  "entry_clean ex i x c \<longleftrightarrow>
     (case le_msg x of
        None \<Rightarrow> False
      | Some (Error e) \<Rightarrow> le_measured x \<longrightarrow> in_sequence (Error e) c
      | Some (Partial p) \<Rightarrow>
          validate p = Ok () \<and>
          (le_measured x \<longrightarrow> in_sequence (Partial p) c \<and> newest_frame_seq p \<le> le_sent x \<and>
             (le_verified x \<longrightarrow> verify_partial i p ex = [])))"

definition entry_follow :: "lg_entry \<Rightarrow> continuity \<Rightarrow> continuity" where
  "entry_follow x c = (case le_msg x of None \<Rightarrow> c | Some m \<Rightarrow> follow m c)"

fun log_clean :: "expected_config \<Rightarrow> usize \<Rightarrow> lg_entry list \<Rightarrow> continuity \<Rightarrow> bool" where
  "log_clean ex i [] c \<longleftrightarrow> True"
| "log_clean ex i (x # xs) c \<longleftrightarrow> entry_clean ex i x c \<and> log_clean ex i xs (entry_follow x c)"

lemma log_clean_snoc:
  "log_clean ex i (xs @ [x]) c \<longleftrightarrow> log_clean ex i xs c \<and> entry_clean ex i x (fold entry_follow xs c)"
  by (induction xs arbitrary: c) (auto simp del: entry_clean.simps)

text \<open>The tail of a session that ended normally, when it sent audio inside the measured window.\<close>

definition tail_clean :: "lg_config \<Rightarrow> lg_session \<Rightarrow> bool" where
  "tail_clean cf s \<longleftrightarrow>
     (ls_phase s = Ls_done \<and> ls_sent_times s \<noteq> [] \<and> lc_measure_start cf \<le> last (ls_sent_times s) \<longrightarrow>
        check_tail (of_nat (length (ls_sent_times s))) (last_newest (sc_continuity (ls_check s))) = None)"

fun session_clean :: "lg_config \<Rightarrow> expected_config \<Rightarrow> logged \<Rightarrow> bool" where
  "session_clean cf ex (s, msgs) \<longleftrightarrow> log_clean ex (ls_id s) msgs continuity_default \<and> tail_clean cf s"

definition job_clean :: "expected_config \<Rightarrow> verify_job \<Rightarrow> bool" where
  "job_clean ex j \<longleftrightarrow> vj_inline j = [] \<and> verify_partial (vj_session_id j) (vj_partial j) ex = []"

definition shared_clean :: "lg_shared \<Rightarrow> bool" where
  "shared_clean sh \<longleftrightarrow> incorrect (sh_reports sh) = [] \<and>
     list_all (job_clean (co_expected (sh_correctness sh))) (sh_queue sh)"

subsection \<open>Reports\<close>

definition errors_counted :: "lg_shared \<Rightarrow> bool" where
  "errors_counted sh \<longleftrightarrow> co_errors (sh_correctness sh) = of_nat (length (incorrect (sh_reports sh)))"

text \<open>
  \<open>adds b sh sh'\<close>: from \<open>sh\<close> to \<open>sh'\<close> the reports and the queue have grown by something that is
  clean exactly when \<open>b\<close>.
\<close>

definition adds :: "bool \<Rightarrow> lg_shared \<Rightarrow> lg_shared \<Rightarrow> bool" where
  "adds b sh sh' \<longleftrightarrow>
     co_expected (sh_correctness sh') = co_expected (sh_correctness sh) \<and>
     (errors_counted sh \<longrightarrow> errors_counted sh') \<and> (shared_clean sh' \<longleftrightarrow> shared_clean sh \<and> b)"

lemma adds_same:
  "co_expected (sh_correctness sh') = co_expected (sh_correctness sh) \<Longrightarrow>
   co_errors (sh_correctness sh') = co_errors (sh_correctness sh) \<Longrightarrow>
   sh_reports sh' = sh_reports sh \<Longrightarrow> sh_queue sh' = sh_queue sh \<Longrightarrow> adds True sh sh'"
  by (simp add: adds_def errors_counted_def shared_clean_def)

lemma adds_refl [simp]: "adds True sh sh"
  by (simp add: adds_same)

lemma adds_trans: "adds b sh sh' \<Longrightarrow> adds b' sh' sh'' \<Longrightarrow> adds (b \<and> b') sh sh''"
  by (auto simp: adds_def)

lemma adds_report: "adds (ms = []) sh (report_response i t a b ms sh)"
  by (auto simp: adds_def errors_counted_def shared_clean_def report_response_def incorrect_def)

lemma adds_bad_message: "adds False sh (report_bad_message i d sh)"
  by (auto simp: adds_def errors_counted_def shared_clean_def report_bad_message_def record_malformed_def incorrect_def)

lemma report_queue [simp]: "sh_queue (report_response i t a b ms sh) = sh_queue sh"
  by (simp add: report_response_def)

lemma adds_submit:
  "adds (vj_inline job = [] \<and>
      (sh_queue (submit_verify alive job sh) \<noteq> sh_queue sh \<longrightarrow>
         verify_partial (vj_session_id job) (vj_partial job) (co_expected (sh_correctness sh)) = []))
     sh (submit_verify alive job sh)"
proof (cases "alive \<and> length (sh_queue sh) < VERIFY_QUEUE_CAPACITY")
  case True
  then show ?thesis
    by (auto simp: submit_verify_def adds_def errors_counted_def shared_clean_def job_clean_def)
next
  case False
  define sh1 where "sh1 = sh\<lparr>sh_correctness := (sh_correctness sh)\<lparr>co_verify_dropped := co_verify_dropped (sh_correctness sh) + 1\<rparr>\<rparr>"
  have "adds True sh sh1" by (rule adds_same) (simp_all add: sh1_def)
  from adds_trans [OF this adds_report] False show ?thesis
    by (auto simp: submit_verify_def sh1_def)
qed

lemma adds_check_values:
  assumes "check_values alive i p inline unsent sh ck = (sh', ck')"
  shows "adds (inline = [] \<and> (sh_queue sh' \<noteq> sh_queue sh \<longrightarrow> verify_partial i p (co_expected (sh_correctness sh)) = [])) sh sh'"
    and "sc_continuity ck' = sc_continuity ck"
  using assms adds_submit [of "\<lparr>vj_session_id = i, vj_partial = p, vj_inline = inline\<rparr>" alive sh]
    adds_report [of inline sh i "''partial''" "oldest_frame_seq p" "newest_frame_seq p"]
  by (auto simp: check_values_def Let_def split: if_splits)

lemma adds_verify_one: "adds True sh (verify_one sh)"
proof (cases "sh_queue sh")
  case Nil
  then show ?thesis by (simp add: verify_one_def)
next
  case (Cons job jobs)
  define sh1 where "sh1 = sh\<lparr>sh_queue := jobs, sh_correctness := (sh_correctness sh)\<lparr>co_verified := co_verified (sh_correctness sh) + 1\<rparr>\<rparr>"
  define ms where "ms = vj_inline job @ verify_partial (vj_session_id job) (vj_partial job) (co_expected (sh_correctness sh))"
  have "adds (ms = []) sh1 (verify_one sh)"
    using adds_report [of ms sh1] by (simp add: verify_one_def Cons sh1_def ms_def Let_def)
  then show ?thesis
    using Cons by (auto simp: adds_def errors_counted_def shared_clean_def sh1_def ms_def job_clean_def)
qed

lemma opt_list_Nil [simp]: "opt_list x = [] \<longleftrightarrow> x = None"
  by (simp add: opt_list_def split: option.split)

lemma adds_error:
  assumes "inbound_error i e meas sh ck = (sh', ck')"
  shows "adds (meas \<longrightarrow> in_sequence (Error e) (sc_continuity ck)) sh sh'"
    and "sc_continuity ck' = follow (Error e) (sc_continuity ck)" and "sh_queue sh' = sh_queue sh"
proof -
  define gap where "gap = fst (observe (em_oldest_frame_seq e) (em_newest_frame_seq e) (sc_continuity ck))"
  define c where "c = snd (observe (em_oldest_frame_seq e) (em_newest_frame_seq e) (sc_continuity ck))"
  have ob: "observe (em_oldest_frame_seq e) (em_newest_frame_seq e) (sc_continuity ck) = (gap, c)"
    by (simp add: gap_def c_def)
  define sh1 where "sh1 = (case gap of
      Some mismatch \<Rightarrow> if meas then report_response i ''error'' (em_oldest_frame_seq e) (em_newest_frame_seq e) [mismatch] sh else sh
    | None \<Rightarrow> sh)"
  have 1: "adds (meas \<longrightarrow> gap = None) sh sh1"
    using adds_report by (auto simp: sh1_def split: option.split) (metis list.discI)
  have s: "sh' = sh1\<lparr>sh_inference_errors := sh_inference_errors sh1 + 1, sh_details := details_record e (sh_details sh1)\<rparr>"
    "ck' = ck\<lparr>sc_continuity := c\<rparr>"
    using assms by (auto simp: inbound_error_def ob Let_def sh1_def)
  have "adds True sh1 sh'" by (rule adds_same) (simp_all add: s)
  from adds_trans [OF 1 this] show "adds (meas \<longrightarrow> in_sequence (Error e) (sc_continuity ck)) sh sh'"
    by (simp add: in_sequence_def gap_def)
  show "sc_continuity ck' = follow (Error e) (sc_continuity ck)" by (simp add: s follow_def c_def)
  show "sh_queue sh' = sh_queue sh" by (simp add: s sh1_def split: option.split)
qed

lemma adds_partial:
  assumes "inbound_partial env i p meas start ts sh ck = (Ok st, sh', ck')"
  shows "adds (validate p = Ok () \<and>
      (meas \<longrightarrow> in_sequence (Partial p) (sc_continuity ck) \<and> newest_frame_seq p \<le> of_nat (length ts) \<and>
        (sh_queue sh' \<noteq> sh_queue sh \<longrightarrow> verify_partial i p (co_expected (sh_correctness sh)) = []))) sh sh'"
    and "sc_continuity ck' = follow (Partial p) (sc_continuity ck)" and "st = Ib_open"
proof -
  define gap where "gap = fst (observe (oldest_frame_seq p) (newest_frame_seq p) (sc_continuity ck))"
  define c where "c = snd (observe (oldest_frame_seq p) (newest_frame_seq p) (sc_continuity ck))"
  have ob: "observe (oldest_frame_seq p) (newest_frame_seq p) (sc_continuity ck) = (gap, c)"
    by (simp add: gap_def c_def)
  define unsent where "unsent \<longleftrightarrow> of_nat (length ts) < newest_frame_seq p"
  define inline where "inline = opt_list gap @
    (if unsent then [Mismatch UnsentFrame (Detail_unsent (newest_frame_seq p) (of_nat (length ts)))] else [])"
  have inl: "inline = [] \<longleftrightarrow> in_sequence (Partial p) (sc_continuity ck) \<and> newest_frame_seq p \<le> of_nat (length ts)"
    by (auto simp: inline_def unsent_def in_sequence_def gap_def)
  have c: "follow (Partial p) (sc_continuity ck) = c" by (simp add: follow_def c_def)
  note d = assms [unfolded inbound_partial_def ob Let_def prod.case, folded unsent_def, folded inline_def]
  show st: "st = Ib_open" using d by (auto split: sum.splits if_splits option.splits)
  show "sc_continuity ck' = follow (Partial p) (sc_continuity ck)"
    using d c adds_check_values(2) by (fastforce split: sum.splits if_splits option.splits)
  consider (invalid) e where "validate p = Err e" | (quiet) "validate p = Ok ()" "\<not> meas" | (checked) "validate p = Ok ()" meas
    by (cases "validate p") auto
  then show "adds (validate p = Ok () \<and>
      (meas \<longrightarrow> in_sequence (Partial p) (sc_continuity ck) \<and> newest_frame_seq p \<le> of_nat (length ts) \<and>
        (sh_queue sh' \<noteq> sh_queue sh \<longrightarrow> verify_partial i p (co_expected (sh_correctness sh)) = []))) sh sh'"
  proof cases
    case invalid
    then have "sh' = report_response i ''partial'' (oldest_frame_seq p) (newest_frame_seq p)
        (opt_list gap @ [Mismatch InvalidPartial (Detail_text e)]) sh" using d by auto
    with adds_report [of "opt_list gap @ [Mismatch InvalidPartial (Detail_text e)]" sh] invalid show ?thesis by simp
  next
    case quiet
    then show ?thesis using d by simp
  next
    case checked
    obtain sh1 where sh1: "check_values (ib_connected env) i p inline unsent sh1 (ck\<lparr>sc_continuity := c\<rparr>) = (sh', ck')"
      and eq: "sh_queue sh1 = sh_queue sh" "co_expected (sh_correctness sh1) = co_expected (sh_correctness sh)"
      and same: "adds True sh sh1"
    proof (cases "sent_at ts (newest_frame_seq p) = None \<or> sent_at ts (oldest_frame_seq p) = None")
      case True
      then show ?thesis using that [of sh] d checked by (auto split: option.splits)
    next
      case False
      then obtain a b where ab: "sent_at ts (newest_frame_seq p) = Some a" "sent_at ts (oldest_frame_seq p) = Some b" by auto
      show ?thesis
      proof (rule that)
        show "check_values (ib_connected env) i p inline unsent
            (sh\<lparr>sh_samples := sh_samples sh @ [latency_sample i p (ib_now env) start a b]\<rparr>) (ck\<lparr>sc_continuity := c\<rparr>) = (sh', ck')"
          using d checked ab by (auto split: if_splits)
        show "adds True sh (sh\<lparr>sh_samples := sh_samples sh @ [latency_sample i p (ib_now env) start a b]\<rparr>)"
          by (rule adds_same) simp_all
      qed simp_all
    qed
    from adds_trans [OF same adds_check_values(1) [OF sh1]] checked show ?thesis by (simp add: inl eq conj_assoc)
  qed
qed

text \<open>What handling one message adds is clean exactly when the message is.\<close>

lemma adds_inbound:
  assumes "process_inbound (lc_from_str cf) env (ls_id s) r (lc_measure_start cf) (lc_end_at cf) (ls_sent_times s) sh (ls_check s) =
      (Ok st, sh', ck')"
  shows "adds (list_all (\<lambda>x. entry_clean (co_expected (sh_correctness sh)) (ls_id s) x (sc_continuity (ls_check s)))
        (handled_message cf env r sh s)) sh sh'"
    and "sc_continuity ck' = fold entry_follow (handled_message cf env r sh s) (sc_continuity (ls_check s))"
    and "length (handled_message cf env r sh s) \<le> 1"
    and "st = Ib_closed \<Longrightarrow> handled_message cf env r sh s = []"
proof -
  have "adds (list_all (\<lambda>x. entry_clean (co_expected (sh_correctness sh)) (ls_id s) x (sc_continuity (ls_check s)))
        (handled_message cf env r sh s)) sh sh' \<and>
      sc_continuity ck' = fold entry_follow (handled_message cf env r sh s) (sc_continuity (ls_check s)) \<and>
      (st = Ib_closed \<longrightarrow> handled_message cf env r sh s = [])"
  proof (cases "\<exists>str m. r = Lr_msg (Lm_text str) \<and> lc_from_str cf str = Ok m")
    case True
    then obtain str m where r: "r = Lr_msg (Lm_text str)" and m: "lc_from_str cf str = Ok m" by blast
    have hm: "handled_message cf env r sh s =
        [\<lparr>le_measured = (lc_measure_start cf \<le> ib_now env \<and> ib_now env \<le> lc_end_at cf),
          le_sent = of_nat (length (ls_sent_times s)), le_verified = (sh_queue sh' \<noteq> sh_queue sh), le_msg = Some m\<rparr>]"
      unfolding handled_message_def assms by (simp add: r m)
    show ?thesis
    proof (cases m)
      case (Partial p)
      then have e: "inbound_partial env (ls_id s) p (lc_measure_start cf \<le> ib_now env \<and> ib_now env \<le> lc_end_at cf)
          (lc_measure_start cf) (ls_sent_times s) sh (ls_check s) = (Ok st, sh', ck')"
        using assms by (simp add: process_inbound_def r m)
      show ?thesis
        using adds_partial [OF e] by (simp add: hm Partial entry_follow_def)
    next
      case (Error e)
      then have e: "inbound_error (ls_id s) e (lc_measure_start cf \<le> ib_now env \<and> ib_now env \<le> lc_end_at cf) sh (ls_check s) = (sh', ck')"
        and st: "st = Ib_open"
        using assms by (simp_all add: process_inbound_def r m)
      show ?thesis
        using adds_error [OF e] st by (simp add: hm Error entry_follow_def)
    qed
  next
    case False
    then show ?thesis
      using assms [unfolded process_inbound_def] unfolding handled_message_def assms prod.case
      by (auto simp: entry_follow_def adds_bad_message
          split: lg_recv.splits lg_message.splits ws_error.splits sum.splits)
  qed
  then show "adds (list_all (\<lambda>x. entry_clean (co_expected (sh_correctness sh)) (ls_id s) x (sc_continuity (ls_check s)))
        (handled_message cf env r sh s)) sh sh'"
    and "sc_continuity ck' = fold entry_follow (handled_message cf env r sh s) (sc_continuity (ls_check s))"
    and "st = Ib_closed \<Longrightarrow> handled_message cf env r sh s = []" by blast+
  show "length (handled_message cf env r sh s) \<le> 1"
    by (simp add: handled_message_def Let_def split: prod.split sum.split lg_recv.split lg_message.split)
qed

subsection \<open>Every step keeps the account\<close>

definition session_inv :: "logged \<Rightarrow> bool" where
  "session_inv x \<longleftrightarrow>
     (\<forall>e. ls_phase (fst x) \<noteq> Ls_failed e) \<longrightarrow>
       sc_continuity (ls_check (fst x)) = fold entry_follow (snd x) continuity_default"

lemma increment_shared [simp]: "adds True sh (sh\<lparr>sh_timeouts := tc\<rparr>)"
  by (rule adds_same) simp_all

lemma adds_outcome: "adds True sh (record_session_outcome outcome sh)"
  by (rule adds_same) (simp_all add: record_session_outcome_def split: sum.split)

lemma end_session_facts:
  assumes "end_session outcome (sh, s) = (sh', s')"
  shows "adds True sh sh'" and "ls_id s' = ls_id s" and "ls_check s' = ls_check s" and "ls_sent_times s' = ls_sent_times s"
    and "ls_phase s' = Ls_done \<longleftrightarrow> outcome = Ok (Ok ())"
    and "outcome \<noteq> Ok (Ok ()) \<Longrightarrow> \<exists>e. ls_phase s' = Ls_failed e"
  using assms adds_outcome [of sh outcome] by (auto simp: end_session_def split: sum.splits)

lemma guarded_facts:
  assumes "guarded kind out k (sh, s) = (sh', s')"
    and "\<And>s. ls_id (k s) = ls_id s" "\<And>s. ls_check (k s) = ls_check s"
    and "\<And>s. ls_phase s \<noteq> Ls_done \<Longrightarrow> ls_phase (k s) \<noteq> Ls_done" and "ls_phase s \<noteq> Ls_done"
  shows "adds True sh sh'" and "ls_id s' = ls_id s" and "ls_check s' = ls_check s" and "ls_phase s' \<noteq> Ls_done"
proof -
  have "adds True sh sh' \<and> ls_id s' = ls_id s \<and> ls_check s' = ls_check s \<and> ls_phase s' \<noteq> Ls_done"
  proof (cases out)
    case Call_ok
    then show ?thesis using assms by (auto simp: guarded_def)
  next
    case (Call_err e)
    then have "end_session (Ok (Err (Failure e))) (sh, s) = (sh', s')" using assms(1) by (simp add: guarded_def)
    from end_session_facts [OF this] show ?thesis by simp
  next
    case Call_elapsed
    then have e: "end_session (Ok (Err (Timed_out kind))) (sh\<lparr>sh_timeouts := increment kind (sh_timeouts sh)\<rparr>, s) = (sh', s')"
      using assms(1) by (simp add: guarded_def)
    from end_session_facts [OF e] adds_trans [OF increment_shared end_session_facts(1) [OF e]] show ?thesis by simp
  qed
  then show "adds True sh sh'" and "ls_id s' = ls_id s" and "ls_check s' = ls_check s" and "ls_phase s' \<noteq> Ls_done" by blast+
qed

lemma tail_clean_not_done [simp]: "ls_phase s \<noteq> Ls_done \<Longrightarrow> tail_clean cf s"
  by (simp add: tail_clean_def)

text \<open>A message leaves the session running, with its account in step.\<close>

lemma log_clean_handled:
  assumes "length xs \<le> 1"
  shows "log_clean ex i (msgs @ xs) c \<longleftrightarrow> log_clean ex i msgs c \<and> list_all (\<lambda>x. entry_clean ex i x (fold entry_follow msgs c)) xs"
  using assms by (cases xs) (auto simp: log_clean_snoc simp del: entry_clean.simps)

definition accounts ::
  "lg_config \<Rightarrow> lg_shared \<times> logged \<Rightarrow> lg_shared \<times> logged \<Rightarrow> bool" where
  "accounts cf x y \<longleftrightarrow>
     (\<exists>b. adds b (fst x) (fst y) \<and>
        (session_clean cf (co_expected (sh_correctness (fst x))) (snd y) \<longleftrightarrow>
           session_clean cf (co_expected (sh_correctness (fst x))) (snd x) \<and> b) \<and>
        session_inv (snd y) \<and> ls_id (fst (snd y)) = ls_id (fst (snd x)))"

lemma accounts_quiet:
  assumes "adds True sh sh'" and "ls_id s' = ls_id s" and "ls_check s' = ls_check s"
    and "ls_phase s \<noteq> Ls_done" and "ls_phase s' \<noteq> Ls_done" and "\<forall>e. ls_phase s \<noteq> Ls_failed e" and "session_inv (s, msgs)"
  shows "accounts cf (sh, s, msgs) (sh', s', msgs)"
  using assms by (auto simp: accounts_def session_inv_def)

lemma accounts_guarded:
  assumes "guarded kind out k (sh, s1) = (sh', s')" and "ls_id s1 = ls_id s" and "ls_check s1 = ls_check s"
    and "\<And>s. ls_id (k s) = ls_id s" "\<And>s. ls_check (k s) = ls_check s"
    and "\<And>s. ls_phase s \<noteq> Ls_done \<Longrightarrow> ls_phase (k s) \<noteq> Ls_done" and "ls_phase s1 = ls_phase s"
    and "ls_phase s \<noteq> Ls_done" and "\<forall>e. ls_phase s \<noteq> Ls_failed e" and "session_inv (s, msgs)"
  shows "accounts cf (sh, s, msgs) (sh', s', msgs)"
proof -
  have "ls_phase s1 \<noteq> Ls_done" using assms(7,8) by simp
  note f = guarded_facts [OF assms(1,4-6) this]
  show ?thesis by (rule accounts_quiet) (use assms f in simp_all)
qed

lemma accounts_trans: "accounts cf x y \<Longrightarrow> accounts cf y z \<Longrightarrow> accounts cf x z"
proof -
  assume "accounts cf x y" "accounts cf y z"
  then obtain b b' where b: "adds b (fst x) (fst y)" and b': "adds b' (fst y) (fst z)"
    and e: "session_clean cf (co_expected (sh_correctness (fst x))) (snd y) \<longleftrightarrow>
        session_clean cf (co_expected (sh_correctness (fst x))) (snd x) \<and> b"
    and e': "session_clean cf (co_expected (sh_correctness (fst y))) (snd z) \<longleftrightarrow>
        session_clean cf (co_expected (sh_correctness (fst y))) (snd y) \<and> b'"
    and i: "session_inv (snd z)" "ls_id (fst (snd z)) = ls_id (fst (snd x))"
    unfolding accounts_def by metis
  have "co_expected (sh_correctness (fst y)) = co_expected (sh_correctness (fst x))" using b by (simp add: adds_def)
  with e' have e'': "session_clean cf (co_expected (sh_correctness (fst x))) (snd z) \<longleftrightarrow>
      session_clean cf (co_expected (sh_correctness (fst x))) (snd y) \<and> b'" by (simp only:)
  show "accounts cf x z"
    unfolding accounts_def
    by (rule exI [of _ "b \<and> b'"], intro conjI adds_trans [OF b b'] i) (unfold e'' e, blast)
qed

lemma accounts_fail:
  assumes "end_session outcome (sh, s) = (sh', s')" and "outcome \<noteq> Ok (Ok ())" and "ls_phase s \<noteq> Ls_done"
  shows "accounts cf (sh, s, msgs) (sh', s', msgs)"
  using end_session_facts [OF assms(1)] assms(2,3)
  by (intro accounts_def [THEN iffD2] exI [of _ True]) (auto simp: session_inv_def)

lemma adds_tail:
  "adds (ts \<noteq> [] \<and> start \<le> last ts \<longrightarrow> check_tail (of_nat (length ts)) (last_newest (sc_continuity ck)) = None)
     sh (check_session_tail i ts start ck sh)"
proof (cases "ts \<noteq> [] \<and> start \<le> last ts")
  case True
  then have "check_session_tail i ts start ck sh =
      (case check_tail (of_nat (length ts)) (last_newest (sc_continuity ck)) of
         Some m \<Rightarrow> report_response i ''session_end'' (last_newest (sc_continuity ck) + 1) (of_nat (length ts)) [m] sh
       | None \<Rightarrow> sh)"
    by (simp add: check_session_tail_def Let_def not_less [symmetric])
  then show ?thesis using True adds_report [of "[m]" sh for m] by (auto split: option.split)
next
  case False
  then have "check_session_tail i ts start ck sh = sh" by (auto simp: check_session_tail_def not_less)
  with False show ?thesis by (simp only: simp_thms adds_refl)
qed

lemma accounts_done:
  assumes "end_session (Ok (Ok ())) (check_session_tail (ls_id s) (ls_sent_times s) (lc_measure_start cf) (ls_check s) sh, s) = (sh', s')"
    and "ls_phase s \<noteq> Ls_done" and "\<forall>e. ls_phase s \<noteq> Ls_failed e" and "session_inv (s, msgs)"
  shows "accounts cf (sh, s, msgs) (sh', s', msgs)"
proof -
  note f = end_session_facts [OF assms(1)]
  have "tail_clean cf s' \<longleftrightarrow> (ls_sent_times s \<noteq> [] \<and> lc_measure_start cf \<le> last (ls_sent_times s) \<longrightarrow>
      check_tail (of_nat (length (ls_sent_times s))) (last_newest (sc_continuity (ls_check s))) = None)"
    using f by (simp add: tail_clean_def)
  with adds_trans [OF adds_tail f(1)] f assms(2-4) show ?thesis
    unfolding accounts_def session_inv_def by (intro exI, intro conjI) (auto simp: simp_thms)
qed

text \<open>Handling a message, up to what the loop does with the outcome.\<close>

lemma inbound_partial_err:
  assumes "inbound_partial env i p meas start ts sh ck = (Err e, sh', ck')"
  shows "sh' = sh"
proof -
  obtain gap c where ob: "observe (oldest_frame_seq p) (newest_frame_seq p) (sc_continuity ck) = (gap, c)" by (rule prod.exhaust)
  show ?thesis
    using assms unfolding inbound_partial_def ob Let_def prod.case by (simp split: sum.splits if_splits option.splits)
qed

lemma process_inbound_err:
  assumes "process_inbound f env i r a b ts sh ck = (Err e, sh', ck')"
  shows "sh' = sh"
proof (cases "\<exists>str. r = Lr_msg (Lm_text str)")
  case True
  then obtain str where r: "r = Lr_msg (Lm_text str)" by blast
  show ?thesis
    using assms unfolding process_inbound_def r Let_def
    by (auto split: sum.splits server_message.splits dest: inbound_partial_err)
next
  case False
  then show ?thesis
    using assms unfolding process_inbound_def by (auto split: lg_recv.splits lg_message.splits ws_error.splits)
qed

lemma accounts_inbound:
  assumes pi: "process_inbound (lc_from_str cf) env (ls_id s) r (lc_measure_start cf) (lc_end_at cf) (ls_sent_times s) sh (ls_check s) =
      (Ok st, sh1, ck)"
    and inv: "session_inv (s, msgs)" and ph: "ls_phase s \<noteq> Ls_done" "\<forall>e. ls_phase s \<noteq> Ls_failed e"
  shows "accounts cf (sh, s, msgs) (sh1, s\<lparr>ls_check := ck\<rparr>, msgs @ handled_message cf env r sh s)"
proof -
  note f = adds_inbound [OF pi]
  have c: "sc_continuity (ls_check s) = fold entry_follow msgs continuity_default"
    using inv ph(2) by (simp add: session_inv_def)
  then show ?thesis
    unfolding accounts_def using f(1,2) ph
    by (intro exI, intro conjI) (auto simp: log_clean_handled [OF f(3)] session_inv_def simp del: entry_clean.simps)
qed

lemma accounts_inbound_err:
  assumes pi: "process_inbound (lc_from_str cf) env (ls_id s) r (lc_measure_start cf) (lc_end_at cf) (ls_sent_times s) sh (ls_check s) =
      (Err e, sh1, ck)"
    and "end_session (Ok (Err f)) (sh1, s\<lparr>ls_check := ck\<rparr>) = (sh', s')" and "ls_phase s \<noteq> Ls_done"
  shows "accounts cf (sh, s, msgs) (sh', s', msgs @ handled_message cf env r sh s)"
proof -
  have "sh1 = sh" using process_inbound_err [OF pi] .
  moreover have hm: "handled_message cf env r sh s = []" by (simp add: handled_message_def pi)
  ultimately have es: "end_session (Ok (Err f)) (sh, s\<lparr>ls_check := ck\<rparr>) = (sh', s')" using assms(2) by simp
  have "accounts cf (sh, s\<lparr>ls_check := ck\<rparr>, msgs) (sh', s', msgs)"
    by (rule accounts_fail [OF es]) (simp_all add: assms(3))
  then show ?thesis using assms(3) by (simp add: accounts_def hm)
qed

lemma accounts_step:
  assumes "session_step cf (sh, s, msgs) y" and inv: "session_inv (s, msgs)"
  shows "accounts cf (sh, s, msgs) y"
  using assms(1)
proof (cases rule: session_step.cases)
  case (connect out sh' s')
  then show ?thesis by (auto simp: session_connect_def inv intro!: accounts_guarded)
next
  case (start now out sh' s')
  then show ?thesis by (auto simp: session_start_def inv intro!: accounts_guarded)
next
  case (send woke entered dn out sh' s')
  then show ?thesis by (auto simp: session_send_def Let_def inv intro!: accounts_guarded)
next
  case (inbound env r sh' s')
  obtain res sh1 ck where pi: "process_inbound (lc_from_str cf) env (ls_id s) r (lc_measure_start cf) (lc_end_at cf)
      (ls_sent_times s) sh (ls_check s) = (res, sh1, ck)" by (metis prod_cases3)
  have ph: "ls_phase s \<noteq> Ls_done" "\<forall>e. ls_phase s \<noteq> Ls_failed e" by (simp_all add: inbound)
  show ?thesis
  proof (cases res)
    case (Inl e)
    then show ?thesis
      using accounts_inbound_err [OF pi [unfolded Inl]] inbound ph(1) by (simp add: session_inbound_def pi)
  next
    case (Inr st)
    note a = accounts_inbound [OF pi [unfolded Inr] inv ph]
    show ?thesis
    proof (cases st)
      case Ib_open
      then show ?thesis using a inbound by (simp add: session_inbound_def pi Inr)
    next
      case Ib_closed
      then have "end_session (Ok (Err (Failure ''websocket closed before send loop finished''))) (sh1, s\<lparr>ls_check := ck\<rparr>) = (sh', s')"
        using inbound by (simp add: session_inbound_def pi Inr)
      from accounts_trans [OF a accounts_fail [OF this]] ph show ?thesis using inbound(1) by simp
    qed
  qed
next
  case (close now out sh' s')
  then show ?thesis by (auto simp: session_close_def inv intro!: accounts_guarded)
next
  case (drain t env r sh' s')
  obtain res sh1 ck where pi: "process_inbound (lc_from_str cf) env (ls_id s) r (lc_measure_start cf) (lc_end_at cf)
      (ls_sent_times s) sh (ls_check s) = (res, sh1, ck)" by (metis prod_cases3)
  have ph: "ls_phase s \<noteq> Ls_done" "\<forall>e. ls_phase s \<noteq> Ls_failed e" by (simp_all add: drain)
  show ?thesis
  proof (cases res)
    case (Inl e)
    then show ?thesis
      using accounts_inbound_err [OF pi [unfolded Inl]] drain ph(1) by (simp add: session_drain_def pi)
  next
    case (Inr st)
    note a = accounts_inbound [OF pi [unfolded Inr] inv ph]
    show ?thesis
    proof (cases st)
      case Ib_open
      then show ?thesis using a drain by (simp add: session_drain_def pi Inr)
    next
      case Ib_closed
      let ?s = "s\<lparr>ls_check := ck\<rparr>"
      have "end_session (Ok (Ok ())) (check_session_tail (ls_id ?s) (ls_sent_times ?s) (lc_measure_start cf) (ls_check ?s) sh1, ?s) = (sh', s')"
        using drain Ib_closed by (simp add: session_drain_def pi Inr)
      moreover have "session_inv (?s, msgs @ handled_message cf env r sh s)" using a by (simp only: accounts_def snd_conv) blast
      moreover have "ls_phase ?s \<noteq> Ls_done" "\<forall>e. ls_phase ?s \<noteq> Ls_failed e" using ph by simp_all
      ultimately have "accounts cf (sh1, ?s, msgs @ handled_message cf env r sh s) (sh', s', msgs @ handled_message cf env r sh s)"
        by (intro accounts_done)
      from accounts_trans [OF a this] show ?thesis by (simp only: drain(1))
    qed
  qed
next
  case (grace t sh' s')
  let ?sh = "sh\<lparr>sh_timeouts := increment Tk_Close (sh_timeouts sh)\<rparr>"
  have "end_session (Ok (Err (Timed_out Tk_Close))) (?sh, s) = (sh', s')"
    using grace(3) unfolding session_grace_def prod.case .
  then have "accounts cf (?sh, s, msgs) (sh', s', msgs)" by (rule accounts_fail) (simp_all add: grace(2))
  moreover have "accounts cf (sh, s, msgs) (?sh, s, msgs)"
    by (rule accounts_quiet) (simp_all add: grace(2) inv)
  ultimately show ?thesis unfolding grace(1) by (rule accounts_trans [rotated])
next
  case (deadline sh' s')
  then show ?thesis by (simp add: accounts_fail)
qed

subsection \<open>The summary\<close>

definition run_inv :: "lg_config \<Rightarrow> expected_config \<Rightarrow> lg_run \<Rightarrow> bool" where
  "run_inv cf ex r \<longleftrightarrow>
     co_expected (sh_correctness (lr_shared r)) = ex \<and> errors_counted (lr_shared r) \<and>
     list_all session_inv (lr_sessions r) \<and>
     (shared_clean (lr_shared r) \<longleftrightarrow> list_all (session_clean cf ex) (lr_sessions r))"

lemma list_all_update_iff:
  assumes "i < length xs" and "P x \<longleftrightarrow> P (xs ! i) \<and> b"
  shows "list_all P (xs[i := x]) \<longleftrightarrow> list_all P xs \<and> b"
proof -
  have nth: "xs[i := x] ! j = (if j = i then x else xs ! j)" if "j < length xs" for j
    using that by (simp add: nth_list_update)
  show ?thesis
  proof
    assume l: "list_all P (xs[i := x])"
    then have p: "P (if j = i then x else xs ! j)" if "j < length xs" for j
      using that nth unfolding list_all_length length_list_update by metis
    then have "P x" using assms(1) by (metis (full_types))
    then show "list_all P xs \<and> b" using p assms(2) unfolding list_all_length by metis
  next
    assume "list_all P xs \<and> b"
    then show "list_all P (xs[i := x])"
      using nth assms unfolding list_all_length length_list_update by metis
  qed
qed

lemma of_nat_u64_zero: "k < 2 ^ 64 \<Longrightarrow> (of_nat k :: u64) = 0 \<longleftrightarrow> k = 0"
proof -
  assume "k < 2 ^ 64"
  then have k: "unat (of_nat k :: u64) = k" by (simp add: unat_of_nat)
  show ?thesis
  proof
    assume "(of_nat k :: u64) = 0"
    then have "unat (of_nat k :: u64) = unat (0 :: u64)" by (rule arg_cong)
    then show "k = 0" by (simp only: k unat_0)
  qed simp
qed

lemma run_step_inv:
  assumes "run_step cf r r'" and inv: "run_inv cf ex r"
  shows "run_inv cf ex r'"
  using assms(1)
proof (cases rule: run_step.cases)
  case (session i sh x)
  obtain s msgs where sm: "lr_sessions r ! i = (s, msgs)" by (rule prod.exhaust)
  have "session_inv (s, msgs)" using inv session(2) sm by (metis run_inv_def list_all_length)
  from accounts_step [OF session(3) [unfolded sm] this]
  obtain b where b: "adds b (lr_shared r) sh"
    and e: "session_clean cf ex x \<longleftrightarrow> session_clean cf ex (s, msgs) \<and> b" and i: "session_inv x"
    using inv unfolding accounts_def run_inv_def by auto
  have "list_all (session_clean cf ex) ((lr_sessions r)[i := x]) \<longleftrightarrow> list_all (session_clean cf ex) (lr_sessions r) \<and> b"
    by (rule list_all_update_iff [OF session(2)]) (simp only: e sm)
  moreover have "list_all session_inv ((lr_sessions r)[i := x])"
    using inv i by (subst list_all_update_iff [OF session(2), where b = True]) (auto simp: run_inv_def list_all_length session(2))
  ultimately show ?thesis using inv b by (auto simp: session(1) run_inv_def adds_def)
next
  case verifier
  then show ?thesis using inv adds_verify_one [of "lr_shared r"] by (auto simp: run_inv_def adds_def)
qed

lemma run_init_inv: "run_inv cf ex (run_init ex v n)"
  by (auto simp: run_inv_def run_init_def shared_new_def correctness_new_def errors_counted_def shared_clean_def
      incorrect_def list_all_iff session_inv_def lg_session_new_def session_check_default_def tail_clean_def)

lemma run_reachable_inv: "(run_step cf)\<^sup>*\<^sup>* (run_init ex v n) r \<Longrightarrow> run_inv cf ex r"
  by (induction rule: rtranclp_induct) (blast intro: run_init_inv run_step_inv)+

text \<open>
  C4. Zero correctness errors in the summary means what it says, no more and no less. In every state
  a run of the load generator can reach, whatever the number of sessions and the interleaving of their
  tasks with the verifier, once the verifier's queue is empty: the error counter is zero if and only if
  every message of every session was readable, every partial valid, every measured message in sequence,
  no measured partial ahead of what had been sent, every partial handed to the verifier equal to the
  recomputed result, and every session that ended normally reported its frames up to the tolerated tail.
\<close>

theorem summary_exact:
  assumes "(run_step cf)\<^sup>*\<^sup>* (run_init ex v n) r" and "sh_queue (lr_shared r) = []"
    and "length (sh_reports (lr_shared r)) < 2 ^ 64"
  shows "co_errors (sh_correctness (lr_shared r)) = 0 \<longleftrightarrow> (\<forall>x \<in> set (lr_sessions r). session_clean cf ex x)"
proof -
  have inv: "run_inv cf ex r" by (rule run_reachable_inv [OF assms(1)])
  have "length (incorrect (sh_reports (lr_shared r))) < 2 ^ 64"
    using assms(3) le_less_trans [OF length_filter_le] unfolding incorrect_def by blast
  then have "(of_nat (length (incorrect (sh_reports (lr_shared r)))) :: u64) = 0 \<longleftrightarrow> incorrect (sh_reports (lr_shared r)) = []"
    by (subst of_nat_u64_zero) simp_all
  moreover have "shared_clean (lr_shared r) \<longleftrightarrow> incorrect (sh_reports (lr_shared r)) = []"
    by (simp add: shared_clean_def assms(2))
  ultimately show ?thesis using inv by (simp add: run_inv_def errors_counted_def list_all_iff)
qed

definition example_lg :: lg_config where
  "example_lg = \<lparr>lc_from_str = (\<lambda>_. Err ''expected value''), lc_timeouts = \<lparr>to_connect = 0, to_send = 0, to_close_grace = 0, to_session = 0\<rparr>,
     lc_measure_start = 0, lc_end_at = 10\<rparr>"

definition example_bad :: lg_run where
  "example_bad = \<lparr>lr_shared = report_bad_message 0 (Detail_text ''decode server message: expected value'') (shared_new default_expected 1),
     lr_sessions = [((lg_session_new 0)\<lparr>ls_phase := Ls_streaming\<rparr>,
       [\<lparr>le_measured = True, le_sent = 0, le_verified = False, le_msg = None\<rparr>])]\<rparr>"

lemma run_step_one:
  "session_step cf (sh, x) (sh', x') \<Longrightarrow>
     run_step cf \<lparr>lr_shared = sh, lr_sessions = [x]\<rparr> \<lparr>lr_shared = sh', lr_sessions = [x']\<rparr>"
  using run_step.session [of 0 "\<lparr>lr_shared = sh, lr_sessions = [x]\<rparr>" cf sh' x'] by simp

lemma example_bad_reachable: "(run_step example_lg)\<^sup>*\<^sup>* (run_init default_expected 1 1) example_bad"
proof -
  define sh where "sh = shared_new default_expected 1"
  define s1 where "s1 = (lg_session_new 0)\<lparr>ls_phase := Ls_starting\<rparr>"
  define s2 where "s2 = (lg_session_new 0)\<lparr>ls_phase := Ls_streaming\<rparr>"
  define env where "env = \<lparr>ib_now = 5, ib_rx_ok = True, ib_connected = True\<rparr>"
  have 1: "session_step example_lg (sh, lg_session_new 0, []) (sh, s1, [])"
    by (rule session_step.connect [where out = Call_ok])
      (simp_all add: session_connect_def guarded_def s1_def lg_session_new_def sh_def shared_new_def)
  have 2: "session_step example_lg (sh, s1, []) (sh, s2, [])"
    by (rule session_step.start [where out = Call_ok and now = 0])
      (simp_all add: session_start_def guarded_def s1_def s2_def lg_session_new_def sh_def shared_new_def)
  have pi: "process_inbound (lc_from_str example_lg) env (ls_id s2) (Lr_msg (Lm_text ''x'')) (lc_measure_start example_lg)
      (lc_end_at example_lg) (ls_sent_times s2) sh (ls_check s2) =
      (Ok Ib_open, report_bad_message 0 (Detail_text ''decode server message: expected value'') sh, ls_check s2)"
    by (simp add: process_inbound_def example_lg_def s2_def lg_session_new_def)
  have 3: "session_step example_lg (sh, s2, []) (report_bad_message 0 (Detail_text ''decode server message: expected value'') sh, s2,
      [] @ handled_message example_lg env (Lr_msg (Lm_text ''x'')) sh s2)"
    by (rule session_step.inbound) (simp_all add: session_inbound_def pi, simp add: s2_def)
  have hm: "handled_message example_lg env (Lr_msg (Lm_text ''x'')) sh s2 =
      [\<lparr>le_measured = True, le_sent = 0, le_verified = False, le_msg = None\<rparr>]"
    unfolding handled_message_def pi
    by (simp add: example_lg_def env_def s2_def lg_session_new_def report_bad_message_def sh_def shared_new_def)
  have r0: "run_init default_expected 1 1 = \<lparr>lr_shared = sh, lr_sessions = [(lg_session_new 0, [])]\<rparr>"
    by (simp add: run_init_def sh_def)
  have r3: "example_bad = \<lparr>lr_shared = report_bad_message 0 (Detail_text ''decode server message: expected value'') sh,
      lr_sessions = [(s2, [] @ handled_message example_lg env (Lr_msg (Lm_text ''x'')) sh s2)]\<rparr>"
    unfolding hm by (simp add: example_bad_def sh_def s2_def)
  show ?thesis
    unfolding r0 r3
    by (rule converse_rtranclp_into_rtranclp [where r = "run_step example_lg", OF run_step_one [OF 1]],
        rule converse_rtranclp_into_rtranclp [where r = "run_step example_lg", OF run_step_one [OF 2]],
        rule r_into_rtranclp [where r = "run_step example_lg", OF run_step_one [OF 3]])
qed

theorem summary_exact_witness:
  "co_errors (sh_correctness (lr_shared example_bad)) = 1 \<and>
   \<not> (\<forall>x \<in> set (lr_sessions example_bad). session_clean example_lg default_expected x)"
proof -
  have e: "co_errors (sh_correctness (lr_shared example_bad)) = 1"
    by (simp add: example_bad_def report_bad_message_def record_malformed_def shared_new_def correctness_new_def)
  have "sh_queue (lr_shared example_bad) = []" "length (sh_reports (lr_shared example_bad)) < 2 ^ 64"
    by (simp_all add: example_bad_def report_bad_message_def shared_new_def)
  from summary_exact [OF example_bad_reachable this] e show ?thesis by simp
qed

end
