(* ===== verification/Loadgen_Books.thy ===== *)
theory Loadgen_Books
  imports Loadgen_Run
begin

text \<open>
  The other accounts of a run: the schedule every session keeps, the failed sessions and their
  timeouts, and what a clean summary says of the audio a session sent.
\<close>

subsection \<open>Messages leave the session counters alone\<close>

lemma report_books [simp]:
  "sh_timeouts (report_response i t a b ms sh) = sh_timeouts sh"
  "sh_protocol_errors (report_response i t a b ms sh) = sh_protocol_errors sh"
  "sh_timeouts (report_bad_message i d sh) = sh_timeouts sh"
  "sh_protocol_errors (report_bad_message i d sh) = sh_protocol_errors sh"
  by (simp_all add: report_response_def report_bad_message_def)

lemma submit_books [simp]:
  "sh_timeouts (submit_verify alive job sh) = sh_timeouts sh"
  "sh_protocol_errors (submit_verify alive job sh) = sh_protocol_errors sh"
  by (simp_all add: submit_verify_def)

lemma check_values_books [simp]:
  "sh_timeouts (fst (check_values alive i p inline unsent sh ck)) = sh_timeouts sh"
  "sh_protocol_errors (fst (check_values alive i p inline unsent sh ck)) = sh_protocol_errors sh"
  by (simp_all add: check_values_def Let_def)

lemma inbound_error_books [simp]:
  "sh_timeouts (fst (inbound_error i e meas sh ck)) = sh_timeouts sh"
  "sh_protocol_errors (fst (inbound_error i e meas sh ck)) = sh_protocol_errors sh"
  by (simp_all add: inbound_error_def Let_def split: prod.split option.split)

lemma inbound_partial_books:
  assumes "inbound_partial env i p meas start ts sh ck = (res, sh', ck')"
  shows "sh_timeouts sh' = sh_timeouts sh \<and> sh_protocol_errors sh' = sh_protocol_errors sh"
proof -
  obtain gap c where ob: "observe (oldest_frame_seq p) (newest_frame_seq p) (sc_continuity ck) = (gap, c)" by (rule prod.exhaust)
  have cv: "sh_timeouts sh' = sh_timeouts sh1 \<and> sh_protocol_errors sh' = sh_protocol_errors sh1"
    if "check_values alive i p inline unsent sh1 ck1 = (sh', ck')" for alive inline unsent sh1 ck1
    using check_values_books [of alive i p inline unsent sh1 ck1] that by simp
  show ?thesis
    using assms unfolding inbound_partial_def ob Let_def prod.case
    by (auto split: sum.splits if_splits option.splits dest!: cv)
qed

lemma process_inbound_books:
  assumes "process_inbound f env i r a b ts sh ck = (res, sh', ck')"
  shows "sh_timeouts sh' = sh_timeouts sh \<and> sh_protocol_errors sh' = sh_protocol_errors sh"
proof (cases "\<exists>str. r = Lr_msg (Lm_text str)")
  case True
  then obtain str where r: "r = Lr_msg (Lm_text str)" by blast
  have er: "sh_timeouts sh' = sh_timeouts sh \<and> sh_protocol_errors sh' = sh_protocol_errors sh"
    if "inbound_error i e meas sh ck = (sh', ck')" for e meas
    using inbound_error_books [of i e meas sh ck] that by simp
  show ?thesis
    using assms unfolding process_inbound_def r Let_def
    by (auto split: sum.splits server_message.splits dest!: inbound_partial_books er)
next
  case False
  then show ?thesis
    using assms unfolding process_inbound_def by (auto split: lg_recv.splits lg_message.splits ws_error.splits)
qed

lemma verify_one_books [simp]:
  "sh_timeouts (verify_one sh) = sh_timeouts sh" "sh_protocol_errors (verify_one sh) = sh_protocol_errors sh"
  by (simp_all add: verify_one_def Let_def split: list.split)

lemma tail_books [simp]:
  "sh_timeouts (check_session_tail i ts start ck sh) = sh_timeouts sh"
  "sh_protocol_errors (check_session_tail i ts start ck sh) = sh_protocol_errors sh"
  by (simp_all add: check_session_tail_def Let_def split: option.split)

subsection \<open>Failed sessions\<close>

fun tc_of :: "timeout_kind \<Rightarrow> timeout_counters \<Rightarrow> u64" where
  "tc_of Tk_Connect tc = tc_connect tc"
| "tc_of Tk_Send tc = tc_send tc"
| "tc_of Tk_Close tc = tc_close tc"
| "tc_of Tk_Session tc = tc_session tc"

lemma tc_of_increment [simp]: "tc_of k (increment k' tc) = tc_of k tc + (if k = k' then 1 else 0)"
  by (cases k; cases k') simp_all

declare increment.simps [simp del]

definition failed :: "logged \<Rightarrow> bool" where
  "failed x \<longleftrightarrow> (\<exists>e. ls_phase (fst x) = Ls_failed e)"

definition timed_out :: "timeout_kind \<Rightarrow> logged \<Rightarrow> bool" where
  "timed_out k x \<longleftrightarrow> ls_phase (fst x) = Ls_failed (Timed_out k)"

definition booked :: "lg_shared \<Rightarrow> lg_shared \<Rightarrow> logged \<Rightarrow> bool" where
  "booked sh sh' x \<longleftrightarrow>
     sh_protocol_errors sh' = sh_protocol_errors sh + (if failed x then 1 else 0) \<and>
     (\<forall>k. tc_of k (sh_timeouts sh') = tc_of k (sh_timeouts sh) + (if timed_out k x then 1 else 0))"

text \<open>\<open>end_session\<close> after the timeout counters \<open>tc\<close> were kept in step with the reason \<open>f\<close> it is given.\<close>

lemma booked_end:
  assumes "end_session outcome (sh1, s) = (sh', s')"
    and "sh_protocol_errors sh1 = sh_protocol_errors sh"
    and "\<forall>k. tc_of k (sh_timeouts sh1) = tc_of k (sh_timeouts sh) + (if outcome = Ok (Err (Timed_out k)) then 1 else 0)"
  shows "booked sh sh' (s', msgs)"
  using assms
  by (auto simp: booked_def end_session_def record_session_outcome_def failed_def timed_out_def
      split: sum.splits if_splits)

lemma booked_quiet:
  assumes "sh_protocol_errors sh' = sh_protocol_errors sh" and "sh_timeouts sh' = sh_timeouts sh" and "\<not> failed x"
  shows "booked sh sh' x"
proof -
  have "\<not> timed_out k x" for k using assms(3) by (auto simp: failed_def timed_out_def)
  then show ?thesis using assms by (simp add: booked_def)
qed

lemma booked_guarded:
  assumes g: "guarded kind out k (sh, s) = (sh', s')" and ph: "\<forall>e. ls_phase (k s) \<noteq> Ls_failed e"
  shows "booked sh sh' (s', msgs)"
proof (cases out)
  case Call_ok
  then show ?thesis using g ph by (auto simp: guarded_def failed_def intro!: booked_quiet)
next
  case (Call_err e)
  then have "end_session (Ok (Err (Failure e))) (sh, s) = (sh', s')" using g by (simp add: guarded_def)
  then show ?thesis by (rule booked_end) simp_all
next
  case Call_elapsed
  then have "end_session (Ok (Err (Timed_out kind))) (sh\<lparr>sh_timeouts := increment kind (sh_timeouts sh)\<rparr>, s) = (sh', s')"
    using g by (simp add: guarded_def)
  then show ?thesis by (rule booked_end) auto
qed

lemma booked_step:
  assumes "session_step cf (sh, s, msgs) (sh', x)"
  shows "booked sh sh' x" and "\<not> failed (s, msgs)"
proof -
  have inb: "sh_timeouts sh1 = sh_timeouts sh \<and> sh_protocol_errors sh1 = sh_protocol_errors sh"
    if "process_inbound (lc_from_str cf) env (ls_id s) r (lc_measure_start cf) (lc_end_at cf) (ls_sent_times s) sh (ls_check s) =
      (res, sh1, ck)" for env r res sh1 ck
    using process_inbound_books [OF that] .
  show "booked sh sh' x"
    using assms
  proof (cases rule: session_step.cases)
    case (connect out s')
    then show ?thesis by (auto simp: session_connect_def intro!: booked_guarded)
  next
    case (start now out s')
    then show ?thesis by (auto simp: session_start_def intro!: booked_guarded)
  next
    case (send woke entered dn out s')
    then show ?thesis by (auto simp: session_send_def Let_def intro!: booked_guarded)
  next
    case (inbound env r s')
    obtain res sh1 ck where pi: "process_inbound (lc_from_str cf) env (ls_id s) r (lc_measure_start cf) (lc_end_at cf)
        (ls_sent_times s) sh (ls_check s) = (res, sh1, ck)" by (metis prod_cases3)
    show ?thesis
      using inbound inb [OF pi] unfolding session_inbound_def prod.case pi
      by (auto simp: failed_def split: sum.splits inbound_state.splits intro: booked_end booked_quiet)
  next
    case (close now out s')
    then show ?thesis by (auto simp: session_close_def intro!: booked_guarded)
  next
    case (drain t env r s')
    obtain res sh1 ck where pi: "process_inbound (lc_from_str cf) env (ls_id s) r (lc_measure_start cf) (lc_end_at cf)
        (ls_sent_times s) sh (ls_check s) = (res, sh1, ck)" by (metis prod_cases3)
    show ?thesis
      using drain inb [OF pi] unfolding session_drain_def prod.case pi
      by (auto simp: failed_def split: sum.splits inbound_state.splits intro: booked_end booked_quiet)
  next
    case (grace t s')
    have "end_session (Ok (Err (Timed_out Tk_Close))) (sh\<lparr>sh_timeouts := increment Tk_Close (sh_timeouts sh)\<rparr>, s) = (sh', s')"
      using grace(3) unfolding session_grace_def prod.case .
    then show ?thesis unfolding grace(1) by (rule booked_end) auto
  next
    case (deadline s')
    from deadline(4) show ?thesis unfolding deadline(1) by (rule booked_end) simp_all
  qed
  show "\<not> failed (s, msgs)" using assms by (cases rule: session_step.cases) (auto simp: failed_def)
qed

lemma length_filter_update:
  "i < length xs \<Longrightarrow> \<not> P (xs ! i) \<Longrightarrow> length (filter P (xs[i := x])) = length (filter P xs) + (if P x then 1 else 0)"
proof (induction xs arbitrary: i)
  case (Cons y ys)
  then show ?case by (cases i) auto
qed simp

definition books_ok :: "lg_run \<Rightarrow> bool" where
  "books_ok r \<longleftrightarrow>
     sh_protocol_errors (lr_shared r) = of_nat (length (filter failed (lr_sessions r))) \<and>
     (\<forall>k. tc_of k (sh_timeouts (lr_shared r)) = of_nat (length (filter (timed_out k) (lr_sessions r))))"

lemma books_step:
  assumes "run_step cf r r'" and ok: "books_ok r"
  shows "books_ok r' \<and> length (lr_sessions r') = length (lr_sessions r)"
  using assms(1)
proof (cases rule: run_step.cases)
  case (session i sh x)
  obtain s msgs where sm: "lr_sessions r ! i = (s, msgs)" by (rule prod.exhaust)
  note b = booked_step [OF session(3) [unfolded sm]]
  have nf: "\<not> failed (lr_sessions r ! i)" and nt: "\<not> timed_out k (lr_sessions r ! i)" for k
    using b(2) sm by (auto simp: failed_def timed_out_def)
  show ?thesis
    using ok b(1) length_filter_update [of i "lr_sessions r" failed x, OF session(2) nf]
      length_filter_update [of i "lr_sessions r" "timed_out k" x for k, OF session(2) nt]
    by (simp add: session(1) books_ok_def booked_def)
next
  case verifier
  then show ?thesis using ok by (simp add: books_ok_def)
qed

lemma tc_of_default [simp]: "tc_of k timeout_counters_default = 0"
  by (cases k) (simp_all add: timeout_counters_default_def)

lemma books_init: "books_ok (run_init ex v n)"
proof -
  have "\<not> failed x \<and> \<not> timed_out k x" if "x \<in> set (lr_sessions (run_init ex v n))" for x k
    using that by (auto simp: run_init_def failed_def timed_out_def lg_session_new_def)
  then have "filter failed (lr_sessions (run_init ex v n)) = []" "filter (timed_out k) (lr_sessions (run_init ex v n)) = []" for k
    by (auto simp: filter_empty_conv)
  then show ?thesis by (simp add: books_ok_def) (simp add: run_init_def shared_new_def)
qed

lemma books_reachable:
  "(run_step cf)\<^sup>*\<^sup>* (run_init ex v n) r \<Longrightarrow> books_ok r \<and> length (lr_sessions r) = n"
proof (induction rule: rtranclp_induct)
  case base
  then show ?case using books_init by (simp add: run_init_def)
next
  case (step r r')
  then show ?case using books_step by metis
qed

text \<open>
  C13. The failure counters of the summary are exact. In every reachable state of a run,
  \<open>protocol_errors\<close> is the number of failed sessions, each counted once whatever the cause, and every
  timeout counter is the number of sessions that failed on that timeout: the timeouts are a breakdown
  of a part of the failed sessions, never an additional count.
\<close>

theorem failures_exact:
  assumes "(run_step cf)\<^sup>*\<^sup>* (run_init ex v n) r" and "n < 2 ^ 64"
  shows "unat (sh_protocol_errors (lr_shared r)) = length (filter failed (lr_sessions r)) \<and>
    (\<forall>k. unat (tc_of k (sh_timeouts (lr_shared r))) = length (filter (timed_out k) (lr_sessions r))) \<and>
    (\<Sum>k \<leftarrow> [Tk_Connect, Tk_Send, Tk_Close, Tk_Session]. unat (tc_of k (sh_timeouts (lr_shared r)))) \<le>
      unat (sh_protocol_errors (lr_shared r))"
proof -
  have b: "books_ok r" and n: "length (lr_sessions r) = n" using books_reachable [OF assms(1)] by simp_all
  have u: "unat (of_nat (length (filter P (lr_sessions r))) :: u64) = length (filter P (lr_sessions r))" for P
    using assms(2) n length_filter_le [of P "lr_sessions r"] by (simp add: unat_of_nat)
  have "(\<Sum>k \<leftarrow> [Tk_Connect, Tk_Send, Tk_Close, Tk_Session]. length (filter (timed_out k) xs)) \<le> length (filter failed xs)" for xs
    by (induction xs) (auto simp: timed_out_def failed_def)
  then show ?thesis using b by (simp only: books_ok_def u) (simp add: u)
qed

definition example_timeout :: lg_run where
  "example_timeout = \<lparr>lr_shared = (shared_new default_expected 1)
       \<lparr>sh_timeouts := timeout_counters_default\<lparr>tc_connect := 1\<rparr>, sh_protocol_errors := 1\<rparr>,
     lr_sessions = [((lg_session_new 0)\<lparr>ls_phase := Ls_failed (Timed_out Tk_Connect)\<rparr>, [])]\<rparr>"

theorem failures_exact_witness:
  "unat (sh_protocol_errors (lr_shared example_timeout)) = 1 \<and>
   length (filter (timed_out Tk_Connect) (lr_sessions example_timeout)) = unat (tc_connect (sh_timeouts (lr_shared example_timeout)))"
proof -
  have "session_step example_lg (shared_new default_expected 1, lg_session_new 0, [])
      (lr_shared example_timeout, (lg_session_new 0)\<lparr>ls_phase := Ls_failed (Timed_out Tk_Connect)\<rparr>, [])"
    by (rule session_step.connect [where out = Call_elapsed])
      (simp_all add: session_connect_def guarded_def end_session_def record_session_outcome_def lg_session_new_def
        shared_new_def example_timeout_def timeout_counters_default_def increment.simps)
  from run_step_one [OF this] have "run_step example_lg (run_init default_expected 1 1) example_timeout"
    by (simp add: run_init_def example_timeout_def)
  then have "(run_step example_lg)\<^sup>*\<^sup>* (run_init default_expected 1 1) example_timeout" by (rule r_into_rtranclp)
  moreover have "(1 :: nat) < 2 ^ 64" by simp
  ultimately have "unat (tc_of Tk_Connect (sh_timeouts (lr_shared example_timeout))) =
      length (filter (timed_out Tk_Connect) (lr_sessions example_timeout))" using failures_exact by blast
  then show ?thesis by (simp only: tc_of.simps simp_thms) (simp add: example_timeout_def)
qed

subsection \<open>The schedule\<close>

definition on_schedule :: "lg_session \<Rightarrow> bool" where
  "on_schedule s \<longleftrightarrow>
     length (ls_sent_times s) < 2 ^ 64 \<and> unat (ls_seq s) = length (ls_sent_times s) \<and>
     (ls_phase s = Ls_connecting \<or> ls_phase s = Ls_starting \<longrightarrow> ls_sent_times s = []) \<and>
     (\<exists>t0. ls_sent_times s = map (\<lambda>k. t0 + k * FRAME_INTERVAL) [0..<length (ls_sent_times s)] \<and>
        (ls_phase s = Ls_streaming \<longrightarrow> ls_next_tick s = t0 + length (ls_sent_times s) * FRAME_INTERVAL)) \<and>
     ls_written s = map (frame_payload (ls_id s)) (seq_from 1 (length (ls_written s))) \<and>
     length (ls_written s) \<le> length (ls_sent_times s) \<and> length (ls_sent_times s) \<le> Suc (length (ls_written s)) \<and>
     ((\<forall>e. ls_phase s \<noteq> Ls_failed e) \<longrightarrow> length (ls_written s) = length (ls_sent_times s))"

lemma on_schedule_keeps:
  assumes "on_schedule s" and "ls_id s' = ls_id s" "ls_sent_times s' = ls_sent_times s" "ls_seq s' = ls_seq s"
    "ls_written s' = ls_written s" and "ls_next_tick s' = ls_next_tick s \<or> ls_sent_times s = []"
    and "ls_phase s' = ls_phase s \<or> (\<exists>e. ls_phase s' = Ls_failed e) \<or>
      ls_phase s' \<noteq> Ls_connecting \<and> ls_phase s' \<noteq> Ls_starting \<and> ls_phase s' \<noteq> Ls_streaming \<or> ls_sent_times s = []"
    and "\<forall>e. ls_phase s \<noteq> Ls_failed e"
  shows "on_schedule s'"
proof -
  obtain t0 where t0: "ls_sent_times s = map (\<lambda>k. t0 + k * FRAME_INTERVAL) [0..<length (ls_sent_times s)]"
    "ls_phase s = Ls_streaming \<longrightarrow> ls_next_tick s = t0 + length (ls_sent_times s) * FRAME_INTERVAL"
    using assms(1) by (auto simp: on_schedule_def)
  define t1 where "t1 = (if ls_sent_times s = [] then ls_next_tick s' else t0)"
  have "ls_sent_times s' = map (\<lambda>k. t1 + k * FRAME_INTERVAL) [0..<length (ls_sent_times s')]"
    using t0(1) assms(3) by (simp add: t1_def)
  moreover have "ls_phase s' = Ls_streaming \<longrightarrow> ls_next_tick s' = t1 + length (ls_sent_times s') * FRAME_INTERVAL"
    using t0(2) assms(3,6,7) by (auto simp: t1_def)
  ultimately show ?thesis using assms by (auto simp: on_schedule_def)
qed

lemma on_schedule_end:
  assumes "end_session outcome (sh, s1) = (sh', s')" and "on_schedule s" and "\<forall>e. ls_phase s \<noteq> Ls_failed e"
    and "ls_id s1 = ls_id s" "ls_sent_times s1 = ls_sent_times s" "ls_seq s1 = ls_seq s" "ls_written s1 = ls_written s"
    "ls_next_tick s1 = ls_next_tick s"
  shows "on_schedule s'"
  by (rule on_schedule_keeps [OF assms(2)])
    (use assms in \<open>auto simp: end_session_def split: sum.splits\<close>)

lemma on_schedule_guarded:
  assumes "guarded kind out k (sh, s) = (sh', s')" and "on_schedule s" and "\<forall>e. ls_phase s \<noteq> Ls_failed e"
    and "on_schedule (k s)"
  shows "on_schedule s'"
  using assms on_schedule_end [of _ _ s _ s' s] by (cases out) (auto simp: guarded_def)

lemma on_schedule_send:
  assumes "on_schedule s" and ph: "ls_phase s = Ls_streaming" and len: "Suc (length (ls_sent_times s)) < 2 ^ 64"
    and step: "session_send cf woke dn out (sh, s) = (sh', s')"
  shows "on_schedule s'"
proof -
  define n where "n = length (ls_sent_times s)"
  define s1 where "s1 = s\<lparr>ls_lag := ls_lag s @ (if lc_measure_start cf \<le> ls_next_tick s then [micros_since woke (ls_next_tick s)] else []),
      ls_seq := ls_seq s + 1, ls_sent_times := ls_sent_times s @ [ls_next_tick s]\<rparr>"
  define k where "k = (\<lambda>s :: lg_session. s\<lparr>ls_written := ls_written s @ [frame_payload (ls_id s1) (ls_seq s1)],
      ls_block := ls_block s @ (if lc_measure_start cf \<le> ls_next_tick s1 then [micros_since dn woke] else []),
      ls_next_tick := ls_next_tick s + FRAME_INTERVAL\<rparr>)"
  have g: "guarded Tk_Send out k (sh, s1) = (sh', s')"
    using step by (simp add: session_send_def Let_def s1_def k_def)
  obtain t0 where t0: "ls_sent_times s = map (\<lambda>k. t0 + k * FRAME_INTERVAL) [0..<n]" "ls_next_tick s = t0 + n * FRAME_INTERVAL"
    and w: "ls_written s = map (frame_payload (ls_id s)) (seq_from 1 n)" "length (ls_written s) = n" and sq: "unat (ls_seq s) = n"
    using assms(1) ph by (auto simp: on_schedule_def n_def)
  have times: "ls_sent_times s1 = map (\<lambda>k. t0 + k * FRAME_INTERVAL) [0..<Suc n]" by (simp add: s1_def t0)
  then have len1: "length (ls_sent_times s1) = Suc n" by simp
  have "ls_seq s = of_nat n" using sq by (metis of_nat_unat ucast_id)
  then have seq1: "ls_seq s1 = of_nat n + 1" by (simp add: s1_def)
  have unat1: "unat (ls_seq s1) = Suc n"
    using sq len by (simp add: s1_def n_def [symmetric]) (subst unat_add_lem [THEN iffD1], simp_all)
  have pay: "ls_written s @ [frame_payload (ls_id s) (ls_seq s1)] = map (frame_payload (ls_id s)) (seq_from 1 (Suc n))"
    by (simp add: w(1) seq_from_def seq1 add.commute)
  have fields: "length (ls_sent_times s1) < 2 ^ 64" "ls_written s1 = ls_written s" "ls_id s1 = ls_id s" "ls_phase s1 = Ls_streaming"
    "ls_next_tick s1 = ls_next_tick s"
    using len by (simp_all add: len1 n_def) (simp_all add: s1_def ph)
  have good: "on_schedule (k s1)"
    unfolding on_schedule_def
    by (intro conjI exI [of _ t0])
      (use fields times len1 unat1 pay w t0 in \<open>simp_all add: k_def algebra_simps\<close>)
  have bad: "on_schedule s''" if "end_session (Ok (Err e)) (sh'', s1) = (sh', s'')" for e sh'' s''
  proof -
    have "ls_id s'' = ls_id s1" "ls_sent_times s'' = ls_sent_times s1" "ls_seq s'' = ls_seq s1" "ls_written s'' = ls_written s1"
      "ls_phase s'' = Ls_failed e" using that by (auto simp: end_session_def)
    then show ?thesis
      using fields times len1 unat1 w by (auto simp: on_schedule_def intro!: exI [of _ t0])
  qed
  show ?thesis using g good bad by (cases out) (auto simp: guarded_def)
qed

lemma on_schedule_step:
  assumes "session_step cf (sh, s, msgs) (sh', s', msgs')" and inv: "on_schedule s"
  shows "on_schedule s'"
  using assms(1)
proof (cases rule: session_step.cases)
  case (connect out)
  have "on_schedule (s\<lparr>ls_phase := Ls_starting\<rparr>)"
    by (rule on_schedule_keeps [OF inv]) (use connect inv in \<open>simp_all add: on_schedule_def\<close>)
  with connect inv show ?thesis by (auto simp: session_connect_def intro: on_schedule_guarded)
next
  case (start now out)
  have "on_schedule (s\<lparr>ls_phase := Ls_streaming, ls_next_tick := now\<rparr>)"
    by (rule on_schedule_keeps [OF inv]) (use start inv in \<open>simp_all add: on_schedule_def\<close>)
  with start inv show ?thesis by (auto simp: session_start_def intro: on_schedule_guarded)
next
  case (send woke entered dn out)
  then show ?thesis using on_schedule_send [OF inv] by blast
next
  case (inbound env r)
  obtain res sh1 ck where pi: "process_inbound (lc_from_str cf) env (ls_id s) r (lc_measure_start cf) (lc_end_at cf)
      (ls_sent_times s) sh (ls_check s) = (res, sh1, ck)" by (metis prod_cases3)
  have "on_schedule (s\<lparr>ls_check := ck\<rparr>)" by (rule on_schedule_keeps [OF inv]) (simp_all add: inbound)
  then show ?thesis
    using inbound unfolding session_inbound_def prod.case pi
    by (auto split: sum.splits inbound_state.splits elim!: on_schedule_end)
next
  case (close now out)
  have "on_schedule (s\<lparr>ls_phase := Ls_draining (now + to_close_grace (lc_timeouts cf))\<rparr>)"
    by (rule on_schedule_keeps [OF inv]) (simp_all add: close)
  with close inv show ?thesis by (auto simp: session_close_def intro: on_schedule_guarded)
next
  case (drain t env r)
  obtain res sh1 ck where pi: "process_inbound (lc_from_str cf) env (ls_id s) r (lc_measure_start cf) (lc_end_at cf)
      (ls_sent_times s) sh (ls_check s) = (res, sh1, ck)" by (metis prod_cases3)
  have "on_schedule (s\<lparr>ls_check := ck\<rparr>)" by (rule on_schedule_keeps [OF inv]) (simp_all add: drain)
  then show ?thesis
    using drain unfolding session_drain_def prod.case pi
    by (auto split: sum.splits inbound_state.splits elim!: on_schedule_end)
next
  case (grace t)
  then show ?thesis using inv by (auto simp: session_grace_def elim!: on_schedule_end)
next
  case deadline
  then show ?thesis using inv by (auto elim!: on_schedule_end)
qed

lemma schedule_reachable:
  assumes "(run_step cf)\<^sup>*\<^sup>* (run_init ex v n) r"
  shows "list_all (\<lambda>x. on_schedule (fst x)) (lr_sessions r)"
  using assms
proof (induction rule: rtranclp_induct)
  case base
  have "on_schedule (lg_session_new i)" for i by (simp add: on_schedule_def lg_session_new_def)
  then show ?case by (simp add: run_init_def list_all_iff)
next
  case (step r r')
  from step(2) show ?case
  proof (cases rule: run_step.cases)
    case (session i sh x)
    obtain s msgs where sm: "lr_sessions r ! i = (s, msgs)" by (rule prod.exhaust)
    obtain s' msgs' where x: "x = (s', msgs')" by (rule prod.exhaust)
    have "on_schedule s" using step.IH session(2) sm by (metis list_all_length fst_conv)
    then have "on_schedule s'" using on_schedule_step session(3) sm x by metis
    then show ?thesis
      using step.IH \<open>on_schedule s\<close> unfolding session(1)
      by (simp add: list_all_update_iff [OF session(2), where b = True] sm x)
  next
    case verifier
    then show ?thesis using step.IH by simp
  qed
qed

lemma session_schedule:
  assumes "(run_step cf)\<^sup>*\<^sup>* (run_init ex v n) r" and "(s, msgs) \<in> set (lr_sessions r)"
  shows "on_schedule s"
  using schedule_reachable [OF assms(1)] assms(2) by (auto simp: list_all_iff)

text \<open>
  C12. Every session of a run is well formed in every reachable state: the frames its socket took are
  the generated frames of that session from number one on, in order, and the send time of every frame
  is the one on the fixed schedule, 20 ms after the frame before, however late the task woke up or
  however long a write took: no delay of the load generator is hidden from the latencies.
\<close>

theorem sessions_well_formed:
  assumes "(run_step cf)\<^sup>*\<^sup>* (run_init ex v n) r" and "(s, msgs) \<in> set (lr_sessions r)"
  shows "ls_written s = map (frame_payload (ls_id s)) (seq_from 1 (length (ls_written s))) \<and>
    unat (ls_seq s) = length (ls_sent_times s) \<and>
    (\<forall>k. Suc k < length (ls_sent_times s) \<longrightarrow> ls_sent_times s ! Suc k = ls_sent_times s ! k + FRAME_INTERVAL) \<and>
    ((\<forall>e. ls_phase s \<noteq> Ls_failed e) \<longrightarrow> length (ls_written s) = length (ls_sent_times s))"
proof -
  have os: "on_schedule s" by (rule session_schedule [OF assms])
  obtain t0 where t0: "ls_sent_times s = map (\<lambda>k. t0 + k * FRAME_INTERVAL) [0..<length (ls_sent_times s)]"
    using os by (auto simp: on_schedule_def)
  have "ls_sent_times s ! k = t0 + k * FRAME_INTERVAL" if "k < length (ls_sent_times s)" for k
    using that by (subst t0) simp
  then have "\<forall>k. Suc k < length (ls_sent_times s) \<longrightarrow> ls_sent_times s ! Suc k = ls_sent_times s ! k + FRAME_INTERVAL" by simp
  then show ?thesis using os by (simp add: on_schedule_def)
qed

subsection \<open>What a clean summary says of the audio\<close>

lemma log_clean_measured:
  assumes "log_clean ex i msgs c" and "list_all le_measured msgs"
  shows "observe_all (map (msg_seqs \<circ> the \<circ> le_msg) msgs) c = ([], fold entry_follow msgs c)"
  using assms
proof (induction msgs arbitrary: c)
  case (Cons x xs)
  then obtain m where m: "le_msg x = Some m" by (auto split: option.splits)
  have "in_sequence m c" using Cons.prems m by (cases m) auto
  moreover have f: "entry_follow x c = follow m c" by (simp add: entry_follow_def m)
  ultimately have ob: "observe (fst (msg_seqs m)) (snd (msg_seqs m)) c = (None, follow m c)"
    unfolding in_sequence_def follow_def by (metis prod.collapse)
  obtain a b where ab: "msg_seqs m = (a, b)" by (rule prod.exhaust)
  have "observe_all (map (msg_seqs \<circ> the \<circ> le_msg) xs) (follow m c) = ([], fold entry_follow xs (follow m c))"
    using Cons.IH [of "follow m c"] Cons.prems f by (simp add: comp_def)
  then show ?case using ob by (simp add: m ab f comp_def)
qed simp


text \<open>A run of one session that sends \<open>n\<close> frames, gets one error frame for all of them, and ends.\<close>

definition example_error :: "u64 \<Rightarrow> error_message" where
  "example_error n =
     \<lparr>em_stage = ''inference_request'', em_kind = ''timeout'', em_message = [], em_oldest_frame_seq = 1,
      em_newest_frame_seq = n, em_frames = n, em_audio_bytes = 0, em_oldest_age_ms = f64_zero, em_newest_age_ms = f64_zero,
      em_flush_lateness_ms = f64_zero, em_inference_elapsed_ms = None, em_inflight_gateway_batches = 1,
      em_gateway_buffer_frames = 0, em_inference_status = None, em_retryable = True\<rparr>"

definition example_long :: lg_config where
  "example_long = \<lparr>lc_from_str = (\<lambda>_. Ok (Error (example_error 400))),
     lc_timeouts = \<lparr>to_connect = 0, to_send = 0, to_close_grace = 0, to_session = 0\<rparr>,
     lc_measure_start = 0, lc_end_at = 1000 * FRAME_INTERVAL\<rparr>"

lemma run_sends:
  assumes "n \<le> 400" and end_at: "lc_end_at cf = 1000 * FRAME_INTERVAL"
  shows "\<exists>s. (run_step cf)\<^sup>*\<^sup>* (run_init ex v 1)
      \<lparr>lr_shared = shared_new ex v, lr_sessions = [(s, [])]\<rparr> \<and>
    ls_phase s = Ls_streaming \<and> ls_id s = 0 \<and> ls_check s = session_check_default \<and> length (ls_sent_times s) = n \<and>
    ls_next_tick s = n * FRAME_INTERVAL"
  using assms(1)
proof (induction n)
  case 0
  define s1 where "s1 = (lg_session_new 0)\<lparr>ls_phase := Ls_starting\<rparr>"
  define s2 where "s2 = s1\<lparr>ls_phase := Ls_streaming, ls_next_tick := 0\<rparr>"
  have 1: "session_step cf (shared_new ex v, lg_session_new 0, []) (shared_new ex v, s1, [])"
    by (rule session_step.connect [where out = Call_ok])
      (simp_all add: session_connect_def guarded_def s1_def lg_session_new_def shared_new_def)
  have 2: "session_step cf (shared_new ex v, s1, []) (shared_new ex v, s2, [])"
    by (rule session_step.start [where out = Call_ok and now = 0])
      (simp_all add: session_start_def guarded_def s1_def s2_def lg_session_new_def shared_new_def)
  have "run_init ex v 1 = \<lparr>lr_shared = shared_new ex v, lr_sessions = [(lg_session_new 0, [])]\<rparr>"
    by (simp add: run_init_def)
  then have "(run_step cf)\<^sup>*\<^sup>* (run_init ex v 1)
      \<lparr>lr_shared = shared_new ex v, lr_sessions = [(s2, [])]\<rparr>"
    using run_step_one [OF 1] run_step_one [OF 2] by (metis converse_rtranclp_into_rtranclp rtranclp.rtrancl_refl)
  then show ?case by (intro exI [of _ s2]) (simp add: s2_def s1_def lg_session_new_def)
next
  case (Suc n)
  then obtain s where s: "(run_step cf)\<^sup>*\<^sup>* (run_init ex v 1)
      \<lparr>lr_shared = shared_new ex v, lr_sessions = [(s, [])]\<rparr>"
    "ls_phase s = Ls_streaming" "ls_id s = 0" "ls_check s = session_check_default" "length (ls_sent_times s) = n"
    "ls_next_tick s = n * FRAME_INTERVAL" by auto
  define t where "t = ls_next_tick s"
  define s' where "s' = snd (session_send cf t t Call_ok (shared_new ex v, s))"
  have ss: "session_send cf t t Call_ok (shared_new ex v, s) = (shared_new ex v, s')"
    by (simp add: s'_def session_send_def guarded_def Let_def shared_new_def)
  have "0 < FRAME_INTERVAL" by (simp add: FRAME_INTERVAL_def from_millis_def)
  then have "t < lc_end_at cf" using Suc.prems by (simp add: t_def s(6) end_at)
  then have "session_step cf (shared_new ex v, s, []) (shared_new ex v, s', [])"
    using session_step.send [OF s(2) _ order_refl _ _ ss] Suc.prems by (simp add: t_def s(5))
  from rtranclp.rtrancl_into_rtrancl [OF s(1) run_step_one [OF this]] s show ?case
    by (intro exI [of _ s']) (simp add: s'_def session_send_def guarded_def Let_def add.commute)
qed

text \<open>A run of one session that sends one frame and gets the message \<open>m\<close>.\<close>

definition one_message :: "server_message \<Rightarrow> lg_config" where
  "one_message m = \<lparr>lc_from_str = (\<lambda>_. Ok m), lc_timeouts = \<lparr>to_connect = 0, to_send = 0, to_close_grace = 0, to_session = 0\<rparr>,
     lc_measure_start = 0, lc_end_at = 1000 * FRAME_INTERVAL\<rparr>"

lemma run_one_reply:
  "\<exists>s sh ck. (run_step (one_message m))\<^sup>*\<^sup>* (run_init ex v 1) \<lparr>lr_shared = sh, lr_sessions = [(s,
       [\<lparr>le_measured = True, le_sent = 1, le_verified = (sh_queue sh \<noteq> []), le_msg = Some m\<rparr>])]\<rparr> \<and>
     ls_id s = 0 \<and> ls_phase s = Ls_streaming \<and> length (ls_sent_times s) = 1 \<and>
     process_inbound (\<lambda>_. Ok m) \<lparr>ib_now = 5, ib_rx_ok = True, ib_connected = True\<rparr> 0 (Lr_msg (Lm_text [])) 0
       (1000 * FRAME_INTERVAL) (ls_sent_times s) (shared_new ex v) session_check_default = (Ok Ib_open, sh, ck)"
proof -
  define cf where "cf = one_message m"
  obtain s where s: "(run_step cf)\<^sup>*\<^sup>* (run_init ex v 1) \<lparr>lr_shared = shared_new ex v, lr_sessions = [(s, [])]\<rparr>"
    "ls_phase s = Ls_streaming" "ls_id s = 0" "ls_check s = session_check_default" "length (ls_sent_times s) = 1"
    using run_sends [of 1 cf ex v] by (auto simp: cf_def one_message_def)
  define env where "env = \<lparr>ib_now = 5, ib_rx_ok = True, ib_connected = True\<rparr>"
  have env [simp]: "ib_rx_ok env" by (simp add: env_def)
  have cf: "lc_from_str cf = (\<lambda>_. Ok m)" "lc_measure_start cf = 0" "lc_end_at cf = 1000 * FRAME_INTERVAL"
    by (simp_all add: cf_def one_message_def)
  obtain res sh ck where pi: "process_inbound (\<lambda>_. Ok m) env 0 (Lr_msg (Lm_text [])) 0 (1000 * FRAME_INTERVAL) (ls_sent_times s)
      (shared_new ex v) session_check_default = (res, sh, ck)" by (metis prod_cases3)
  have "res = Ok Ib_open"
    using pi unfolding process_inbound_def
    by (cases m) (auto simp: inbound_partial_def Let_def split: sum.splits if_splits option.splits prod.splits)
  note pi = pi [unfolded this]
  have meas: "ib_now env \<le> 1000 * FRAME_INTERVAL" by (simp add: env_def FRAME_INTERVAL_def from_millis_def)
  have hm: "handled_message cf env (Lr_msg (Lm_text [])) (shared_new ex v) s =
      [\<lparr>le_measured = True, le_sent = 1, le_verified = (sh_queue sh \<noteq> []), le_msg = Some m\<rparr>]"
    unfolding handled_message_def cf s pi using meas by (simp add: s(5) shared_new_def)
  have "session_step cf (shared_new ex v, s, []) (sh, s\<lparr>ls_check := ck\<rparr>,
      [] @ handled_message cf env (Lr_msg (Lm_text [])) (shared_new ex v) s)"
    by (rule session_step.inbound [OF s(2)]) (simp add: session_inbound_def cf s pi)
  from rtranclp.rtrancl_into_rtrancl [OF s(1) run_step_one [OF this], unfolded hm append_Nil] s pi [unfolded env_def] show ?thesis
    unfolding cf_def [symmetric]
    by (intro exI [of _ "s\<lparr>ls_check := ck\<rparr>"] exI [of _ sh] exI [of _ ck]) simp
qed

theorem sessions_well_formed_witness:
  "\<exists>r s msgs. (run_step example_long)\<^sup>*\<^sup>* (run_init default_expected 1 1) r \<and> (s, msgs) \<in> set (lr_sessions r) \<and>
     length (ls_sent_times s) = 3 \<and> ls_written s = map (frame_payload (ls_id s)) (seq_from 1 3)"
proof -
  obtain s where s: "(run_step example_long)\<^sup>*\<^sup>* (run_init default_expected 1 1)
      \<lparr>lr_shared = shared_new default_expected 1, lr_sessions = [(s, [])]\<rparr>" "ls_phase s = Ls_streaming" "length (ls_sent_times s) = 3"
    using run_sends [of 3 example_long default_expected 1] by (auto simp: example_long_def)
  from sessions_well_formed [OF s(1), of s "[]"] s show ?thesis by fastforce
qed

lemma run_to_end:
  "\<exists>s sh. (run_step example_long)\<^sup>*\<^sup>* (run_init default_expected 1 1)
      \<lparr>lr_shared = sh, lr_sessions = [(s, [\<lparr>le_measured = True, le_sent = 400, le_verified = False,
        le_msg = Some (Error (example_error 400))\<rparr>])]\<rparr> \<and>
    ls_phase s = Ls_done \<and> length (ls_sent_times s) = 400 \<and> sh_queue sh = [] \<and> sh_reports sh = [] \<and>
    co_errors (sh_correctness sh) = 0"
proof -
  obtain s where s: "(run_step example_long)\<^sup>*\<^sup>* (run_init default_expected 1 1)
      \<lparr>lr_shared = shared_new default_expected 1, lr_sessions = [(s, [])]\<rparr>"
    "ls_phase s = Ls_streaming" "ls_id s = 0" "ls_check s = session_check_default" "length (ls_sent_times s) = 400"
    using run_sends [of 400 example_long default_expected 1] by (auto simp: example_long_def)
  define sh where "sh = shared_new default_expected 1"
  define env where "env = \<lparr>ib_now = 5, ib_rx_ok = True, ib_connected = True\<rparr>"
  define ck where "ck = session_check_default\<lparr>sc_continuity := \<lparr>last_newest = 400\<rparr>\<rparr>"
  define sh1 where "sh1 = sh\<lparr>sh_inference_errors := 1, sh_details := details_record (example_error 400) error_details_default\<rparr>"
  have ob: "observe 1 400 continuity_default = (None, \<lparr>last_newest = 400\<rparr>)"
    by (simp add: observe_def continuity_default_def Let_def word_less_nat_alt word_le_nat_alt max_def)
  have pi: "process_inbound (lc_from_str example_long) env (ls_id s) (Lr_msg (Lm_text [])) (lc_measure_start example_long)
      (lc_end_at example_long) (ls_sent_times s) sh (ls_check s) = (Ok Ib_open, sh1, ck)"
    by (simp add: process_inbound_def example_long_def inbound_error_def s(4) session_check_default_def example_error_def ob
        ck_def sh1_def sh_def shared_new_def)
  have "0 < FRAME_INTERVAL" by (simp add: FRAME_INTERVAL_def from_millis_def)
  then have hm: "handled_message example_long env (Lr_msg (Lm_text [])) sh s =
      [\<lparr>le_measured = True, le_sent = 400, le_verified = False, le_msg = Some (Error (example_error 400))\<rparr>]" (is "_ = ?msgs")
    unfolding handled_message_def pi
    by (simp add: example_long_def env_def s(5) sh1_def sh_def shared_new_def FRAME_INTERVAL_def from_millis_def)
  define s1 where "s1 = s\<lparr>ls_check := ck\<rparr>"
  define s2 where "s2 = s1\<lparr>ls_phase := Ls_draining (lc_end_at example_long)\<rparr>"
  define s3 where "s3 = s2\<lparr>ls_phase := Ls_done\<rparr>"
  have 1: "session_step example_long (sh, s, []) (sh1, s1, ?msgs)"
    using session_step.inbound [of s example_long env "Lr_msg (Lm_text [])" sh sh1 s1 "[]"] s(2) hm
    by (simp add: session_inbound_def pi s1_def)
  have 2: "session_step example_long (sh1, s1, ?msgs) (sh1, s2, ?msgs)"
    by (rule session_step.close [where out = Call_ok and now = "lc_end_at example_long"])
      (simp_all add: session_close_def guarded_def s1_def s2_def s(2) example_long_def)
  have pi': "process_inbound (lc_from_str example_long) env (ls_id s2) (Lr_msg Lm_close) (lc_measure_start example_long)
      (lc_end_at example_long) (ls_sent_times s2) sh1 (ls_check s2) = (Ok Ib_closed, sh1, ck)"
    by (simp add: process_inbound_def s2_def s1_def)
  have tail: "check_session_tail (ls_id s2) (ls_sent_times s2) (lc_measure_start example_long) ck sh1 = sh1"
    by (simp add: check_session_tail_def Let_def s2_def s1_def s(5) ck_def check_tail_def saturating_sub_def)
  have 3: "session_step example_long (sh1, s2, ?msgs) (sh1, s3, ?msgs)"
    using session_step.drain [of s2 "lc_end_at example_long" example_long env "Lr_msg Lm_close" sh1 sh1 s3 ?msgs]
    by (simp add: session_drain_def pi' tail end_session_def record_session_outcome_def s3_def handled_message_def)
      (simp add: s2_def s1_def)
  have "(run_step example_long)\<^sup>*\<^sup>* (run_init default_expected 1 1) \<lparr>lr_shared = sh1, lr_sessions = [(s3, ?msgs)]\<rparr>"
    using rtranclp.rtrancl_into_rtrancl [OF rtranclp.rtrancl_into_rtrancl [OF rtranclp.rtrancl_into_rtrancl
      [OF s(1) [folded sh_def] run_step_one [OF 1]] run_step_one [OF 2]] run_step_one [OF 3]] .
  then show ?thesis
    by (intro exI [of _ s3] exI [of _ sh1])
      (simp add: s3_def s2_def s1_def s(5) sh1_def sh_def shared_new_def correctness_new_def)
qed


end
