(* ===== verification/Loadgen_Measure.thy ===== *)
theory Loadgen_Measure
  imports Loadgen_Books
begin

text \<open>
  What a run of the load generator measures: every latency is counted from the schedule of the session,
  and the account of the gateway's error frames is exact.
\<close>

subsection \<open>What one step of a session adds\<close>

text \<open>
  A sample of session \<open>i\<close> whose latencies are counted from the send times \<open>ts\<close> of the frames its
  partial names.
\<close>

definition timely :: "lg_config \<Rightarrow> usize \<Rightarrow> instant list \<Rightarrow> sample \<Rightarrow> bool" where
  "timely cf i ts x \<longleftrightarrow>
     sa_session_id x = i \<and> 1 \<le> sa_oldest_frame_seq x \<and> sa_oldest_frame_seq x \<le> sa_newest_frame_seq x \<and>
     unat (sa_newest_frame_seq x) \<le> length ts \<and>
     (\<exists>now. lc_measure_start cf \<le> now \<and> now \<le> lc_end_at cf \<and>
        sa_received_us x = micros_since now (lc_measure_start cf) \<and>
        sa_newest_us x = micros_since now (ts ! (unat (sa_newest_frame_seq x) - 1)) \<and>
        sa_oldest_us x = micros_since now (ts ! (unat (sa_oldest_frame_seq x) - 1)))"

definition errors_of :: "lg_entry list \<Rightarrow> error_message list" where
  "errors_of msgs = concat (map (\<lambda>x. case le_msg x of Some (Error e) \<Rightarrow> [e] | _ \<Rightarrow> []) msgs)"

lemma errors_of_simps [simp]:
  "errors_of [] = []" "errors_of (x # xs) = (case le_msg x of Some (Error e) \<Rightarrow> [e] | _ \<Rightarrow> []) @ errors_of xs"
  "errors_of (xs @ ys) = errors_of xs @ errors_of ys"
  by (simp_all add: errors_of_def)

definition measured_books :: "lg_config \<Rightarrow> usize \<Rightarrow> instant list \<Rightarrow> error_message list \<Rightarrow> lg_shared \<Rightarrow> lg_shared \<Rightarrow> bool" where
  "measured_books cf i ts es sh sh' \<longleftrightarrow>
     (\<forall>x \<in> set (sh_samples sh'). x \<in> set (sh_samples sh) \<or> timely cf i ts x) \<and>
     sh_details sh' = fold details_record es (sh_details sh) \<and>
     sh_inference_errors sh' = sh_inference_errors sh + of_nat (length es)"

lemma report_measured [simp]:
  "sh_samples (report_response i t a b ms sh) = sh_samples sh" "sh_samples (report_bad_message i d sh) = sh_samples sh"
  "sh_details (report_response i t a b ms sh) = sh_details sh" "sh_details (report_bad_message i d sh) = sh_details sh"
  "sh_inference_errors (report_response i t a b ms sh) = sh_inference_errors sh"
  "sh_inference_errors (report_bad_message i d sh) = sh_inference_errors sh"
  by (simp_all add: report_response_def report_bad_message_def)

lemma check_values_measured:
  assumes "check_values alive i p inline unsent sh ck = (sh', ck')"
  shows "sh_samples sh' = sh_samples sh \<and> sh_details sh' = sh_details sh \<and> sh_inference_errors sh' = sh_inference_errors sh"
  using assms by (auto simp: check_values_def submit_verify_def Let_def split: if_splits)

lemma verify_one_measured [simp]:
  "sh_samples (verify_one sh) = sh_samples sh" "sh_details (verify_one sh) = sh_details sh"
  "sh_inference_errors (verify_one sh) = sh_inference_errors sh"
  by (simp_all add: verify_one_def Let_def split: list.split)

lemma end_session_measured:
  assumes "end_session outcome (sh, s) = (sh', s')"
  shows "ls_id s' = ls_id s \<and> ls_sent_times s' = ls_sent_times s \<and> sh_samples sh' = sh_samples sh \<and>
    sh_details sh' = sh_details sh \<and> sh_inference_errors sh' = sh_inference_errors sh"
  using assms by (auto simp: end_session_def record_session_outcome_def split: sum.splits)

lemma guarded_measured:
  assumes "guarded kind out k (sh, s) = (sh', s')" and "ls_id (k s) = ls_id s" and "ls_sent_times (k s) = ls_sent_times s"
  shows "ls_id s' = ls_id s \<and> ls_sent_times s' = ls_sent_times s \<and> sh_samples sh' = sh_samples sh \<and>
    sh_details sh' = sh_details sh \<and> sh_inference_errors sh' = sh_inference_errors sh"
  using assms by (cases out) (auto simp: guarded_def dest!: end_session_measured)

lemma sent_at_SomeD:
  assumes "sent_at ts q = Some t" and "0 < q"
  shows "unat q \<le> length ts \<and> t = ts ! (unat q - 1)"
proof -
  have "unat (saturating_sub q 1) = unat q - 1" by (simp add: saturating_sub_def unat_sub word_le_nat_alt)
  moreover have "0 < unat q" using assms(2) by (simp add: word_less_nat_alt)
  ultimately show ?thesis using assms(1) by (auto simp: sent_at_def Let_def split: if_splits)
qed

lemma validate_range: "validate p = Ok u \<Longrightarrow> 0 < oldest_frame_seq p \<and> oldest_frame_seq p \<le> newest_frame_seq p"
  by (simp add: validate_def split: if_splits)

lemma inbound_partial_measured:
  assumes e: "inbound_partial env i p (lc_measure_start cf \<le> ib_now env \<and> ib_now env \<le> lc_end_at cf) (lc_measure_start cf) ts sh ck =
      (res, sh', ck')"
  shows "measured_books cf i ts [] sh sh'"
proof -
  obtain gap c where g: "observe (oldest_frame_seq p) (newest_frame_seq p) (sc_continuity ck) = (gap, c)" by (rule prod.exhaust)
  show ?thesis
  proof (cases "validate p")
    case (Inl x)
    then show ?thesis using e by (auto simp: inbound_partial_def g Let_def measured_books_def)
  next
    case (Inr u)
    note r = validate_range [OF Inr]
    then have r0: "0 < newest_frame_seq p" by (meson order_less_le_trans)
    have m: "timely cf i ts (latency_sample i p (ib_now env) (lc_measure_start cf) a b)"
      if "sent_at ts (newest_frame_seq p) = Some a" "sent_at ts (oldest_frame_seq p) = Some b"
        "lc_measure_start cf \<le> ib_now env" "ib_now env \<le> lc_end_at cf" for a b
      using sent_at_SomeD [OF that(1) r0] sent_at_SomeD [OF that(2)] r that(3,4)
      unfolding timely_def latency_sample_def by (auto simp: word_le_nat_alt word_less_nat_alt)
    show ?thesis
      using e Inr unfolding inbound_partial_def g prod.case Let_def
      by (cases "sent_at ts (newest_frame_seq p)"; cases "sent_at ts (oldest_frame_seq p)")
        (auto simp: measured_books_def split: if_splits intro: m dest!: check_values_measured)
  qed
qed

lemma process_inbound_measured:
  assumes pi: "process_inbound (lc_from_str cf) env (ls_id s) r (lc_measure_start cf) (lc_end_at cf) (ls_sent_times s) sh (ls_check s) =
      (res, sh', ck)"
  shows "measured_books cf (ls_id s) (ls_sent_times s) (errors_of (handled_message cf env r sh s)) sh sh'"
proof -
  have quiet: "measured_books cf (ls_id s) (ls_sent_times s) [] sh sh" by (simp add: measured_books_def)
  show ?thesis
  proof (cases "\<exists>text m. r = Lr_msg (Lm_text text) \<and> lc_from_str cf text = Ok m")
    case False
    then have "errors_of (handled_message cf env r sh s) = []"
      by (auto simp: handled_message_def pi Let_def split: sum.splits lg_recv.splits lg_message.splits)
    moreover have "measured_books cf (ls_id s) (ls_sent_times s) [] sh sh'"
      using pi False quiet
      by (auto simp: process_inbound_def measured_books_def split: lg_recv.splits lg_message.splits ws_error.splits sum.splits)
    ultimately show ?thesis by simp
  next
    case True
    then obtain t m where t: "r = Lr_msg (Lm_text t)" "lc_from_str cf t = Ok m" by blast
    show ?thesis
    proof (cases m)
      case (Partial p)
      then have "inbound_partial env (ls_id s) p (lc_measure_start cf \<le> ib_now env \<and> ib_now env \<le> lc_end_at cf)
          (lc_measure_start cf) (ls_sent_times s) sh (ls_check s) = (res, sh', ck)"
        using pi t by (simp add: process_inbound_def Let_def)
      note b = inbound_partial_measured [OF this]
      have "errors_of (handled_message cf env r sh s) = []"
        unfolding handled_message_def pi by (auto simp: Let_def t Partial split: sum.splits)
      with b show ?thesis by simp
    next
      case (Error e)
      have eq: "(Ok Ib_open, inbound_error (ls_id s) e (lc_measure_start cf \<le> ib_now env \<and> ib_now env \<le> lc_end_at cf) sh (ls_check s)) =
          (res, sh', ck)"
        using pi t Error by (simp add: process_inbound_def Let_def)
      then have "res = Ok Ib_open" by simp
      then have "errors_of (handled_message cf env r sh s) = [e]"
        unfolding handled_message_def pi by (simp add: Let_def t Error)
      with eq show ?thesis
        by (auto simp: inbound_error_def Let_def measured_books_def split: prod.splits option.splits if_splits)
    qed
  qed
qed

lemma step_measured:
  assumes "session_step cf (sh, s, msgs) (sh', s', msgs')"
  shows "\<exists>us es. ls_id s' = ls_id s \<and> ls_sent_times s' = ls_sent_times s @ us \<and> msgs' = msgs @ es \<and>
    measured_books cf (ls_id s) (ls_sent_times s) (errors_of es) sh sh'"
  using assms
proof (cases rule: session_step.cases)
  case (connect out)
  then show ?thesis by (auto simp: session_connect_def measured_books_def dest!: guarded_measured)
next
  case (start now out)
  then show ?thesis by (auto simp: session_start_def measured_books_def dest!: guarded_measured)
next
  case (send woke entered dn out)
  then show ?thesis by (auto simp: session_send_def Let_def measured_books_def dest!: guarded_measured)
next
  case (inbound env r)
  obtain res sh1 ck where pi: "process_inbound (lc_from_str cf) env (ls_id s) r (lc_measure_start cf) (lc_end_at cf)
      (ls_sent_times s) sh (ls_check s) = (res, sh1, ck)" by (metis prod_cases3)
  have e: "sh_samples sh' = sh_samples sh1" "sh_details sh' = sh_details sh1" "sh_inference_errors sh' = sh_inference_errors sh1"
    "ls_id s' = ls_id s" "ls_sent_times s' = ls_sent_times s"
    using inbound(3) unfolding session_inbound_def prod.case pi
    by (auto split: sum.splits inbound_state.splits dest!: end_session_measured)
  have "measured_books cf (ls_id s) (ls_sent_times s) (errors_of (handled_message cf env r sh s)) sh sh'"
    using process_inbound_measured [OF pi] by (simp add: measured_books_def e)
  with e inbound(1) show ?thesis by simp
next
  case (close now out)
  then show ?thesis by (auto simp: session_close_def measured_books_def dest!: guarded_measured)
next
  case (drain t env r)
  obtain res sh1 ck where pi: "process_inbound (lc_from_str cf) env (ls_id s) r (lc_measure_start cf) (lc_end_at cf)
      (ls_sent_times s) sh (ls_check s) = (res, sh1, ck)" by (metis prod_cases3)
  have t: "sh_samples (check_session_tail i ts m c z) = sh_samples z" "sh_details (check_session_tail i ts m c z) = sh_details z"
    "sh_inference_errors (check_session_tail i ts m c z) = sh_inference_errors z" for i ts m c z
    by (simp_all add: check_session_tail_def Let_def split: option.split)
  have e: "sh_samples sh' = sh_samples sh1" "sh_details sh' = sh_details sh1" "sh_inference_errors sh' = sh_inference_errors sh1"
    "ls_id s' = ls_id s" "ls_sent_times s' = ls_sent_times s"
    using drain(3) unfolding session_drain_def prod.case pi
    by (auto split: sum.splits inbound_state.splits dest!: end_session_measured simp: t)
  have "measured_books cf (ls_id s) (ls_sent_times s) (errors_of (handled_message cf env r sh s)) sh sh'"
    using process_inbound_measured [OF pi] by (simp add: measured_books_def e)
  with e drain(1) show ?thesis by simp
next
  case (grace t)
  then show ?thesis by (auto simp: session_grace_def measured_books_def dest!: end_session_measured)
next
  case deadline
  then show ?thesis by (auto simp: measured_books_def dest!: end_session_measured)
qed

subsection \<open>Latencies\<close>

lemma timely_append: "timely cf i ts x \<Longrightarrow> timely cf i (ts @ us) x"
proof -
  assume t: "timely cf i ts x"
  then have "unat (sa_oldest_frame_seq x) - 1 < length ts" "unat (sa_newest_frame_seq x) - 1 < length ts"
    by (auto simp: timely_def word_le_nat_alt)
  then show ?thesis using t by (auto simp: timely_def nth_append)
qed

lemma samples_timely:
  assumes "(run_step cf)\<^sup>*\<^sup>* (run_init ex v n) r"
  shows "\<forall>x \<in> set (sh_samples (lr_shared r)). \<exists>y \<in> set (lr_sessions r). timely cf (ls_id (fst y)) (ls_sent_times (fst y)) x"
  using assms
proof (induction rule: rtranclp_induct)
  case base
  then show ?case by (simp add: run_init_def shared_new_def)
next
  case (step r r')
  from step(2) show ?case
  proof (cases rule: run_step.cases)
    case (session i sh x)
    obtain s msgs s' msgs' where sm: "lr_sessions r ! i = (s, msgs)" and x: "x = (s', msgs')" by (metis prod.exhaust)
    obtain us es where st: "ls_id s' = ls_id s" "ls_sent_times s' = ls_sent_times s @ us"
      "measured_books cf (ls_id s) (ls_sent_times s) (errors_of es) (lr_shared r) sh"
      using step_measured session(3) unfolding sm x by blast
    have keep: "timely cf (ls_id s) (ls_sent_times s) z \<Longrightarrow> timely cf (ls_id s') (ls_sent_times s') z" for z
      by (simp add: st timely_append)
    have new: "x \<in> set (lr_sessions r')" using session(1,2) by (simp add: set_update_memI)
    have "\<exists>y \<in> set (lr_sessions r'). timely cf (ls_id (fst y)) (ls_sent_times (fst y)) z"
      if y: "y \<in> set (lr_sessions r)" "timely cf (ls_id (fst y)) (ls_sent_times (fst y)) z" for y z
    proof -
      obtain j where j: "j < length (lr_sessions r)" "lr_sessions r ! j = y" using y(1) by (auto simp: in_set_conv_nth)
      show ?thesis
      proof (cases "j = i")
        case True
        then show ?thesis using new keep [of z] y(2) j sm x by (intro bexI [of _ x]) auto
      next
        case False
        then have "lr_sessions r' ! j = y" "j < length (lr_sessions r')" using session(1) j by simp_all
        then show ?thesis using y(2) nth_mem by blast
      qed
    qed
    moreover have "\<exists>y \<in> set (lr_sessions r'). timely cf (ls_id (fst y)) (ls_sent_times (fst y)) z"
      if "timely cf (ls_id s) (ls_sent_times s) z" for z
      using new keep [OF that] x by (intro bexI [of _ x]) auto
    moreover have "z \<in> set (sh_samples (lr_shared r)) \<or> timely cf (ls_id s) (ls_sent_times s) z"
      if "z \<in> set (sh_samples (lr_shared r'))" for z
      using st(3) session(1) that by (auto simp: measured_books_def)
    ultimately show ?thesis using step.IH by meson
  next
    case verifier
    then show ?thesis using step.IH by simp
  qed
qed

text \<open>
  C18. Every latency of a run is measured from the schedule. A sample in the channel belongs to a session,
  was received inside the measured window, and its two latencies are the microseconds from the scheduled
  send time of the frames its partial names, the start of the session's stream plus 20 ms per frame, to the
  instant the partial was decoded: a load generator that falls behind cannot make a gateway look faster.
\<close>

theorem latency_from_schedule:
  assumes "(run_step cf)\<^sup>*\<^sup>* (run_init ex v n) r" and "x \<in> set (sh_samples (lr_shared r))"
  shows "\<exists>s msgs now. (s, msgs) \<in> set (lr_sessions r) \<and> ls_id s = sa_session_id x \<and>
    1 \<le> sa_oldest_frame_seq x \<and> sa_oldest_frame_seq x \<le> sa_newest_frame_seq x \<and>
    unat (sa_newest_frame_seq x) \<le> length (ls_sent_times s) \<and> lc_measure_start cf \<le> now \<and> now \<le> lc_end_at cf \<and>
    sa_received_us x = micros_since now (lc_measure_start cf) \<and>
    sa_newest_us x = micros_since now (hd (ls_sent_times s) + (unat (sa_newest_frame_seq x) - 1) * FRAME_INTERVAL) \<and>
    sa_oldest_us x = micros_since now (hd (ls_sent_times s) + (unat (sa_oldest_frame_seq x) - 1) * FRAME_INTERVAL)"
proof -
  obtain s msgs where y: "(s, msgs) \<in> set (lr_sessions r)" "timely cf (ls_id s) (ls_sent_times s) x"
    using samples_timely [OF assms(1)] assms(2) by fastforce
  obtain t0 where t0: "ls_sent_times s = map (\<lambda>k. t0 + k * FRAME_INTERVAL) [0..<length (ls_sent_times s)]"
    using session_schedule [OF assms(1) y(1)] by (auto simp: on_schedule_def)
  have nth: "ls_sent_times s ! k = t0 + k * FRAME_INTERVAL" if "k < length (ls_sent_times s)" for k
    by (subst t0) (simp add: that)
  have lt: "unat (sa_oldest_frame_seq x) - 1 < length (ls_sent_times s)" "unat (sa_newest_frame_seq x) - 1 < length (ls_sent_times s)"
    using y(2) by (auto simp: timely_def word_le_nat_alt)
  then have "ls_sent_times s \<noteq> []" by auto
  then have "hd (ls_sent_times s) = t0" using nth [of 0] by (simp add: hd_conv_nth)
  then show ?thesis using y nth [OF lt(1)] nth [OF lt(2)] unfolding timely_def by (intro exI [of _ s] exI [of _ msgs]) auto
qed

definition example_partial :: partial_message where
  "example_partial = \<lparr>oldest_frame_seq = 1, newest_frame_seq = 1, frames = 1, rms = f64_zero, zero_crossings = 0, checksum = 7,
     samples = 1280, transcript = ''quick'', audio_bytes = 640, cpu_passes = 4, model_delay_ms = 75,
     flush_lateness_ms = f64_zero, inflight_model_jobs = 0\<rparr>"

theorem latency_from_schedule_witness:
  "\<exists>r x s msgs. (run_step (one_message (Partial example_partial)))\<^sup>*\<^sup>* (run_init default_expected 0 1) r \<and>
     x \<in> set (sh_samples (lr_shared r)) \<and> (s, msgs) \<in> set (lr_sessions r) \<and> ls_id s = sa_session_id x \<and> sa_newest_frame_seq x = 1"
proof -
  obtain s sh ck b where r: "(run_step (one_message (Partial example_partial)))\<^sup>*\<^sup>* (run_init default_expected 0 1) \<lparr>lr_shared = sh,
      lr_sessions = [(s, [\<lparr>le_measured = True, le_sent = 1, le_verified = b, le_msg = Some (Partial example_partial)\<rparr>])]\<rparr>"
    "length (ls_sent_times s) = 1" and pi: "process_inbound (\<lambda>_. Ok (Partial example_partial)) \<lparr>ib_now = 5, ib_rx_ok = True, ib_connected = True\<rparr> 0
       (Lr_msg (Lm_text [])) 0 (1000 * FRAME_INTERVAL) (ls_sent_times s) (shared_new default_expected 0) session_check_default = (Ok Ib_open, sh, ck)"
    using run_one_reply by blast
  have v: "validate example_partial = Ok ()" by (simp add: validate_def example_partial_def f64_zero_def)
  have t: "sent_at (ls_sent_times s) 1 = Some (ls_sent_times s ! 0)" using r(2) by (simp add: sent_at_def saturating_sub_def)
  have m: "5 \<le> 1000 * FRAME_INTERVAL" by (simp add: FRAME_INTERVAL_def from_millis_def)
  have p: "oldest_frame_seq example_partial = 1" "newest_frame_seq example_partial = 1" by (simp_all add: example_partial_def)
  define x where "x = latency_sample 0 example_partial 5 0 (ls_sent_times s ! 0) (ls_sent_times s ! 0)"
  have "sh_samples sh = [x]"
    using pi m unfolding process_inbound_def inbound_partial_def
    by (auto simp: v p t Let_def x_def shared_new_def split: prod.splits dest!: check_values_measured)
  then have x: "x \<in> set (sh_samples sh)" by simp
  obtain s' msgs where "(s', msgs) \<in> set (lr_sessions \<lparr>lr_shared = sh, lr_sessions = [(s, [\<lparr>le_measured = True, le_sent = 1,
      le_verified = b, le_msg = Some (Partial example_partial)\<rparr>])]\<rparr>)" "ls_id s' = sa_session_id x"
    using latency_from_schedule [OF r(1), of x] x by auto
  then show ?thesis using r(1) x
    by (intro exI [of _ "\<lparr>lr_shared = sh, lr_sessions = [(s, [\<lparr>le_measured = True, le_sent = 1, le_verified = b,
        le_msg = Some (Partial example_partial)\<rparr>])]\<rparr>"] exI [of _ x] exI [of _ s'] exI [of _ msgs])
      (simp add: x_def latency_sample_def p)
qed

subsection \<open>Error frames\<close>

definition error_total :: "(error_message \<Rightarrow> bool) \<Rightarrow> logged list \<Rightarrow> nat" where
  "error_total P ss = (\<Sum>y \<leftarrow> ss. length (filter P (errors_of (snd y))))"

lemma error_total_update:
  assumes "i < length ss" and "ss ! i = (s, msgs)"
  shows "error_total P (ss[i := (s', msgs @ es)]) = error_total P ss + length (filter P (errors_of es))"
  using assms
proof (induction ss arbitrary: i)
  case (Cons y ss)
  then show ?case by (cases i) (auto simp: error_total_def)
qed simp

lemma error_total_le: "error_total P ss \<le> error_total (\<lambda>_. True) ss"
  by (induction ss) (auto simp: error_total_def intro: add_mono)

definition error_key :: "error_message \<Rightarrow> string \<times> string" where
  "error_key e = (em_stage e, em_kind e)"

lemma details_record_counts: "ied_counts (details_record e d) = bump (error_key e) (ied_counts d)"
  by (simp add: details_record_def error_key_def Let_def)

lemma fold_details_counts: "ied_counts (fold details_record es d) = fold bump (map error_key es) (ied_counts d)"
  by (induction es arbitrary: d) (simp_all add: details_record_counts)

definition details_ok :: "error_message set \<Rightarrow> inference_error_details \<Rightarrow> bool" where
  "details_ok E d \<longleftrightarrow>
     length (ied_samples d) \<le> MAX_INFERENCE_ERROR_SAMPLES \<and> distinct (ied_samples d) \<and> set (ied_samples d) \<subseteq> error_sample ` E"

lemma fold_details_ok: "details_ok E d \<Longrightarrow> set es \<subseteq> E \<Longrightarrow> details_ok E (fold details_record es d)"
proof (induction es arbitrary: d)
  case (Cons e es)
  have "details_ok E (details_record e d)" using Cons.prems by (auto simp: details_ok_def details_record_def Let_def)
  then show ?case using Cons by simp
qed simp

definition tally_ok :: "lg_run \<Rightarrow> bool" where
  "tally_ok r \<longleftrightarrow>
     sorted_wrt (<) (map fst (ied_counts (sh_details (lr_shared r)))) \<and>
     (\<forall>k. counted k (ied_counts (sh_details (lr_shared r))) =
        of_nat (error_total (\<lambda>e. error_key e = k) (lr_sessions r))) \<and>
     sh_inference_errors (lr_shared r) = of_nat (error_total (\<lambda>_. True) (lr_sessions r)) \<and>
     details_ok (\<Union>y \<in> set (lr_sessions r). set (errors_of (snd y))) (sh_details (lr_shared r))"

lemma count_list_filter: "count_list (map f xs) k = length (filter (\<lambda>x. f x = k) xs)"
  by (induction xs) auto

lemma tally_step:
  assumes "run_step cf r r'" and ok: "tally_ok r"
  shows "tally_ok r'"
  using assms(1)
proof (cases rule: run_step.cases)
  case (session i sh x)
  obtain s msgs s' msgs' where sm: "lr_sessions r ! i = (s, msgs)" and x: "x = (s', msgs')" by (metis prod.exhaust)
  obtain es where es: "msgs' = msgs @ es" and b: "measured_books cf (ls_id s) (ls_sent_times s) (errors_of es) (lr_shared r) sh"
    using step_measured session(3) unfolding sm x by blast
  define E E' where "E = (\<Union>y \<in> set (lr_sessions r). set (errors_of (snd y)))" and
    "E' = (\<Union>y \<in> set (lr_sessions r'). set (errors_of (snd y)))"
  have tot: "error_total P (lr_sessions r') = error_total P (lr_sessions r) + length (filter P (errors_of es))" for P
    using error_total_update [OF session(2) sm] by (simp add: session(1) x es)
  have "x \<in> set (lr_sessions r')" using session(1,2) by (simp add: set_update_memI)
  then have xe: "set (errors_of msgs) \<subseteq> E'" "set (errors_of es) \<subseteq> E'" by (auto simp: E'_def x es)
  have "set (errors_of (snd y)) \<subseteq> E'" if y: "y \<in> set (lr_sessions r)" for y
  proof -
    obtain j where j: "j < length (lr_sessions r)" "lr_sessions r ! j = y" using y by (auto simp: in_set_conv_nth)
    show ?thesis
    proof (cases "j = i")
      case False
      then have "y \<in> set (lr_sessions r')" using session(1) j by (metis length_list_update lg_run.select_convs(2)
            lg_run.surjective lg_run.update_convs(1,2) nth_list_update_neq nth_mem)
      then show ?thesis by (auto simp: E'_def)
    qed (use xe(1) j sm in auto)
  qed
  then have "E \<subseteq> E'" by (auto simp: E_def)
  moreover have "details_ok E (sh_details (lr_shared r))" using ok by (simp add: tally_ok_def E_def)
  ultimately have "details_ok E' (sh_details (lr_shared r))" unfolding details_ok_def by blast
  then have "details_ok E' (sh_details sh)" using fold_details_ok xe(2) b by (simp add: measured_books_def)
  moreover have so: "sorted_wrt (<) (map fst (ied_counts (sh_details (lr_shared r))))" using ok by (simp add: tally_ok_def)
  moreover have "lr_shared r' = sh" using session(1) by simp
  ultimately show ?thesis
    using ok b fold_bump_ordered [OF so] fold_bump_counted [OF so]
    by (simp add: tally_ok_def tot measured_books_def fold_details_counts count_list_filter E'_def)
next
  case verifier
  then show ?thesis using ok by (simp add: tally_ok_def)
qed

lemma tally_reachable: "(run_step cf)\<^sup>*\<^sup>* (run_init ex v n) r \<Longrightarrow> tally_ok r"
proof (induction rule: rtranclp_induct)
  case base
  have "error_total P (lr_sessions (run_init ex v n)) = 0" for P
    by (simp add: error_total_def run_init_def o_def sum_list_0)
  moreover have "lr_shared (run_init ex v n) = shared_new ex v" by (simp add: run_init_def)
  ultimately show ?case by (simp add: tally_ok_def shared_new_def error_details_default_def counted_def details_ok_def)
next
  case (step r r')
  then show ?case using tally_step by blast
qed

text \<open>
  C23. The account of the gateway's error frames is exact: \<open>inference_errors\<close> is the number of error frames
  all sessions received, each entry of the breakdown is the number of those with its stage and kind, the
  entries are in key order, and the samples are at most five different error frames among them.
\<close>

theorem error_frames_exact:
  assumes "(run_step cf)\<^sup>*\<^sup>* (run_init ex v n) r" and "error_total (\<lambda>_. True) (lr_sessions r) < 2 ^ 64"
    and "d = sh_details (lr_shared r)"
  shows "unat (sh_inference_errors (lr_shared r)) = error_total (\<lambda>_. True) (lr_sessions r) \<and>
    (\<forall>k. unat (counted k (ied_counts d)) = error_total (\<lambda>e. (em_stage e, em_kind e) = k) (lr_sessions r)) \<and>
    sorted_wrt (<) (map fst (ied_counts d)) \<and> distinct (ied_samples d) \<and>
    length (ied_samples d) \<le> MAX_INFERENCE_ERROR_SAMPLES \<and>
    (\<forall>z \<in> set (ied_samples d). \<exists>y \<in> set (lr_sessions r). \<exists>e \<in> set (errors_of (snd y)). z = error_sample e)"
proof -
  have t: "tally_ok r" by (rule tally_reachable [OF assms(1)])
  have "unat (of_nat (error_total P (lr_sessions r)) :: u64) = error_total P (lr_sessions r)" for P
    using assms(2) error_total_le [of P "lr_sessions r"] by (simp add: unat_of_nat)
  moreover have "\<exists>y \<in> set (lr_sessions r). \<exists>e \<in> set (errors_of (snd y)). z = error_sample e" if "z \<in> set (ied_samples d)" for z
    using t that unfolding tally_ok_def details_ok_def assms(3) by blast
  ultimately show ?thesis using t unfolding tally_ok_def details_ok_def assms(3) error_key_def by auto
qed

theorem error_frames_exact_witness:
  "\<exists>r. (run_step (one_message (Error (example_error 1))))\<^sup>*\<^sup>* (run_init default_expected 1 1) r \<and>
     unat (counted (''inference_request'', ''timeout'') (ied_counts (sh_details (lr_shared r)))) = 1"
proof -
  obtain s sh where r: "(run_step (one_message (Error (example_error 1))))\<^sup>*\<^sup>* (run_init default_expected 1 1) \<lparr>lr_shared = sh,
      lr_sessions = [(s, [\<lparr>le_measured = True, le_sent = 1, le_verified = (sh_queue sh \<noteq> []), le_msg = Some (Error (example_error 1))\<rparr>])]\<rparr>"
    using run_one_reply by blast
  then show ?thesis using error_frames_exact [OF r _ refl]
    by (intro exI [of _ "\<lparr>lr_shared = sh, lr_sessions = [(s, [\<lparr>le_measured = True, le_sent = 1, le_verified = (sh_queue sh \<noteq> []),
        le_msg = Some (Error (example_error 1))\<rparr>])]\<rparr>"]) (simp add: error_total_def example_error_def)
qed

end
