(* ===== verification/Loadgen_Output.thy ===== *)
theory Loadgen_Output
  imports Loadgen_Measure
begin

text \<open>
  The end of \<open>main\<close> in \<open>loadgen/rust/src/main.rs\<close>: the loop that drains the sample channel into the
  histograms and the samples file, the summary, and the account of the verifier.
\<close>

subsection \<open>The sample channel\<close>

text \<open>
  The histogram library: an empty histogram, recording a value, which fails when the value is outside the
  range of the histogram, and what the summary reads.
\<close>

record 'h hdr =
  hd_new :: 'h
  hd_record :: "u64 \<Rightarrow> 'h \<Rightarrow> 'h option"
  hd_read :: "'h \<Rightarrow> histogram"

text \<open>\<open>histogram.record(v).ok()\<close>\<close>

definition record_ok :: "'h hdr \<Rightarrow> u64 \<Rightarrow> 'h \<Rightarrow> 'h" where
  "record_ok hl v h = (case hd_record hl v h of Some h' \<Rightarrow> h' | None \<Rightarrow> h)"

record 'h sample_totals =
  tt_partials :: u64
  tt_newest :: 'h
  tt_oldest :: 'h
  tt_flush :: 'h
  tt_file :: "string option"

definition totals_new :: "'h hdr \<Rightarrow> bool \<Rightarrow> 'h sample_totals" where
  "totals_new hl samples_out =
     \<lparr>tt_partials = 0, tt_newest = hd_new hl, tt_oldest = hd_new hl, tt_flush = hd_new hl,
      tt_file = (if samples_out then Some samples_csv_header else None)\<rparr>"

text \<open>One round of the loop; \<open>written\<close> says that writing the row succeeded.\<close>

definition take_sample :: "'h hdr \<Rightarrow> sample \<Rightarrow> bool \<Rightarrow> 'h sample_totals \<Rightarrow> ('h sample_totals, string) result" where
  "take_sample hl x written t =
     (if tt_file t \<noteq> None \<and> \<not> written then Err ''write samples csv row''
      else Ok (t\<lparr>tt_file := map_option (\<lambda>f. f @ sample_csv_row (tt_partials t) x) (tt_file t),
                 tt_partials := tt_partials t + 1,
                 tt_newest := record_ok hl (sa_newest_us x) (tt_newest t),
                 tt_oldest := record_ok hl (sa_oldest_us x) (tt_oldest t),
                 tt_flush := record_ok hl (sa_flush_lateness_us x) (tt_flush t)\<rparr>))"

fun drain_samples :: "'h hdr \<Rightarrow> (sample \<times> bool) list \<Rightarrow> 'h sample_totals \<Rightarrow> ('h sample_totals, string) result" where
  "drain_samples hl [] t = Ok t"
| "drain_samples hl ((x, written) # xs) t =
     (case take_sample hl x written t of Err e \<Rightarrow> Err e | Ok t' \<Rightarrow> drain_samples hl xs t')"

lemma sample_csv_row_line:
  "CHR 0x0A \<notin> set (sa_transcript x) \<Longrightarrow> \<exists>l. sample_csv_row i x = l @ [CHR 0x0A] \<and> CHR 0x0A \<notin> set l"
proof -
  assume t: "CHR 0x0A \<notin> set (sa_transcript x)"
  have d: "CHR 0x0A \<notin> set (dec k)" for k by (auto simp: digit_chars dest: dec_chars)
  have w: "CHR 0x0A \<notin> set (write_millis k)" for k by (auto simp: digit_chars dest: write_millis_chars)
  show ?thesis
    unfolding sample_csv_row_def NEWLINE_def append_assoc [symmetric]
    by (intro exI conjI, rule refl) (simp add: t d w)
qed

lemma rows_inj:
  assumes "concat (map (\<lambda>(i, x). sample_csv_row i x) xs) = concat (map (\<lambda>(i, x). sample_csv_row i x) ys)"
    and "\<forall>x \<in> snd ` set xs. CHR 0x0A \<notin> set (sa_transcript x)" and "\<forall>y \<in> snd ` set ys. CHR 0x0A \<notin> set (sa_transcript y)"
  shows "xs = ys"
  using assms
proof (induction xs arbitrary: ys)
  case Nil
  then show ?case by (cases ys) (auto simp: sample_csv_row_def)
next
  case (Cons a xs)
  obtain i x where a: "a = (i, x)" by (rule prod.exhaust)
  obtain j y zs where ys: "ys = (j, y) # zs" using Cons.prems(1) by (cases ys) (auto simp: a sample_csv_row_def)
  obtain l m where l: "sample_csv_row i x = l @ [CHR 0x0A]" "CHR 0x0A \<notin> set l"
    and m: "sample_csv_row j y = m @ [CHR 0x0A]" "CHR 0x0A \<notin> set m"
    using sample_csv_row_line Cons.prems by (metis a ys insertI1 image_insert list.simps(15) snd_conv)
  have "l @ CHR 0x0A # concat (map (\<lambda>(i, x). sample_csv_row i x) xs) = m @ CHR 0x0A # concat (map (\<lambda>(i, x). sample_csv_row i x) zs)"
    using Cons.prems(1) by (simp add: a ys l m)
  then have "l = m" and r: "concat (map (\<lambda>(i, x). sample_csv_row i x) xs) = concat (map (\<lambda>(i, x). sample_csv_row i x) zs)"
    using field_inj [OF l(2) m(2)] by simp_all
  then have "(i, x) = (j, y)" using sample_csv_row_inj [of i x j y] l m by simp
  moreover have "xs = zs" using Cons.IH [OF r] Cons.prems by (simp add: ys)
  ultimately show ?case by (simp add: a ys)
qed

definition indexed :: "u64 \<Rightarrow> 'a list \<Rightarrow> (u64 \<times> 'a) list" where
  "indexed n xs = map (\<lambda>k. (n + of_nat k, xs ! k)) [0..<length xs]"

lemma indexed_simps [simp]: "indexed n [] = []" "indexed n (x # xs) = (n, x) # indexed (n + 1) xs"
  by (simp_all add: indexed_def map_upt_Suc add.assoc del: upt_Suc)

lemma indexed_snd [simp]: "map snd (indexed n xs) = xs"
  by (simp add: indexed_def o_def map_nth)

lemma drain_samples_ok:
  assumes "drain_samples hl xs t = Ok u"
  shows "tt_partials u = tt_partials t + of_nat (length xs) \<and>
    tt_file u = map_option (\<lambda>f. f @ concat (map (\<lambda>(i, x). sample_csv_row i x) (indexed (tt_partials t) (map fst xs)))) (tt_file t) \<and>
    tt_newest u = fold (record_ok hl) (map (sa_newest_us \<circ> fst) xs) (tt_newest t)"
  using assms
proof (induction xs arbitrary: t)
  case Nil
  then show ?case by (cases "tt_file t") auto
next
  case (Cons a xs)
  obtain x w where a: "a = (x, w)" by (rule prod.exhaust)
  obtain t' where t': "take_sample hl x w t = Ok t'" "drain_samples hl xs t' = Ok u"
    using Cons.prems by (auto simp: a split: sum.splits)
  then have "tt_partials t' = tt_partials t + 1" "tt_newest t' = record_ok hl (sa_newest_us x) (tt_newest t)"
    "tt_file t' = map_option (\<lambda>f. f @ sample_csv_row (tt_partials t) x) (tt_file t)"
    by (auto simp: take_sample_def split: if_splits)
  then show ?case using Cons.IH [OF t'(2)] by (cases "tt_file t") (simp_all add: a)
qed

text \<open>
  C25. The samples file loses nothing. Draining the channel counts every sample as a partial, in order, and
  two lists of samples that leave the same file are equal, microseconds included, as long as no transcript
  holds a line break; a comma in a transcript does no harm.
\<close>

theorem samples_file_lossless:
  assumes "drain_samples hl xs (totals_new hl True) = Ok t" and "drain_samples hl ys (totals_new hl True) = Ok u"
    and "\<forall>x \<in> fst ` set xs. CHR 0x0A \<notin> set (sa_transcript x)" and "\<forall>y \<in> fst ` set ys. CHR 0x0A \<notin> set (sa_transcript y)"
    and "length xs < 2 ^ 64"
  shows "unat (tt_partials t) = length xs \<and> (tt_file t = tt_file u \<longrightarrow> map fst xs = map fst ys)"
proof -
  have t: "tt_partials t = of_nat (length xs)"
    "tt_file t = Some (samples_csv_header @ concat (map (\<lambda>(i, x). sample_csv_row i x) (indexed 0 (map fst xs))))"
    using drain_samples_ok [OF assms(1)] by (simp_all add: totals_new_def)
  have u: "tt_file u = Some (samples_csv_header @ concat (map (\<lambda>(i, x). sample_csv_row i x) (indexed 0 (map fst ys))))"
    using drain_samples_ok [OF assms(2)] by (simp add: totals_new_def)
  have s: "snd ` set (indexed n zs) = set zs" for n and zs :: "sample list"
    by (metis indexed_snd set_map)
  have "indexed 0 (map fst xs) = indexed 0 (map fst ys)" if "tt_file t = tt_file u"
    by (rule rows_inj) (use that t(2) u assms(3,4) in \<open>simp_all add: s\<close>)
  then have "tt_file t = tt_file u \<longrightarrow> map fst xs = map fst ys" by (metis indexed_snd)
  then show ?thesis using assms(5) by (simp add: t(1) unat_of_nat)
qed

definition list_hdr :: "u64 list hdr" where
  "list_hdr = \<lparr>hd_new = [], hd_record = (\<lambda>v h. if v \<le> 60000000 then Some (h @ [v]) else None),
     hd_read = (\<lambda>h. \<lparr>hi_len = of_nat (length h), hi_value_at_quantile = (\<lambda>_. 0), hi_max = fold max h 0\<rparr>)\<rparr>"

theorem samples_file_lossless_witness:
  "\<exists>t u. drain_samples list_hdr [(example_sample, True)] (totals_new list_hdr True) = Ok t \<and>
     drain_samples list_hdr [(example_sample\<lparr>sa_newest_us := 75013\<rparr>, True)] (totals_new list_hdr True) = Ok u \<and>
     unat (tt_partials t) = 1 \<and> tt_file t \<noteq> tt_file u"
proof -
  obtain t u where t: "drain_samples list_hdr [(example_sample, True)] (totals_new list_hdr True) = Ok t"
    and u: "drain_samples list_hdr [(example_sample\<lparr>sa_newest_us := 75013\<rparr>, True)] (totals_new list_hdr True) = Ok u"
    by (simp add: take_sample_def)
  have e: "CHR 0x0A \<notin> set (sa_transcript example_sample)" "example_sample \<noteq> example_sample\<lparr>sa_newest_us := 75013\<rparr>"
    by (simp_all add: example_sample_def)
  from samples_file_lossless [OF t u] e t u show ?thesis by auto
qed

subsection \<open>The summary\<close>

record timeout_output =
  ot_connect :: u64
  ot_send :: u64
  ot_close :: u64
  ot_session :: u64

definition timeouts_snapshot :: "timeout_counters \<Rightarrow> timeout_output" where
  "timeouts_snapshot tc =
     \<lparr>ot_connect = tc_connect tc, ot_send = tc_send tc, ot_close = tc_close tc, ot_session = tc_session tc\<rparr>"

record lg_output =
  ou_url :: string
  ou_service_name :: "string option"
  ou_samples_file :: "string option"
  ou_sessions :: usize
  ou_repeat :: u32
  ou_warmup_secs :: u64
  ou_measure_secs :: u64
  ou_ramp_up_secs :: u64
  ou_session_start_spread_ms :: u64
  ou_partials :: u64
  ou_protocol_errors :: u64
  ou_inference_errors :: u64
  ou_inference_error_counts :: "(string \<times> string \<times> u64) list"
  ou_inference_error_samples :: "inference_error_sample list"
  ou_correctness_errors :: u64
  ou_correctness_error_counts :: "(string \<times> u64) list"
  ou_correctness_error_samples :: "correctness_error_sample list"
  ou_verify_every :: u64
  ou_verified_partials :: u64
  ou_verify_dropped :: u64
  ou_timeouts :: timeout_output
  ou_newest_frame_to_partial_latency :: percentiles
  ou_oldest_frame_to_partial_latency :: percentiles
  ou_flush_lateness :: percentiles
  ou_harness_lag :: percentiles
  ou_harness_lag_samples :: u64
  ou_harness_faults :: u64
  ou_send_block :: percentiles

text \<open>
  \<open>lag\<close> and \<open>block\<close> are the merged histograms of all sessions, \<open>faults\<close> the session tasks that did not
  return.
\<close>

definition run_output :: "'h hdr \<Rightarrow> args \<Rightarrow> 'h sample_totals \<Rightarrow> lg_shared \<Rightarrow> histogram \<Rightarrow> histogram \<Rightarrow> u64 \<Rightarrow> lg_output" where
  "run_output hl args t sh lag block faults =
     (let snapshot = details_snapshot (sh_details sh); c = sh_correctness sh; cs = correctness_snapshot c
      in \<lparr>ou_url = ar_url args, ou_service_name = ar_service_name args, ou_samples_file = ar_samples_out args,
          ou_sessions = ar_sessions args, ou_repeat = ar_repeat args, ou_warmup_secs = ar_warmup_secs args,
          ou_measure_secs = ar_measure_secs args, ou_ramp_up_secs = ar_ramp_up_secs args,
          ou_session_start_spread_ms = ar_session_start_spread_ms args, ou_partials = tt_partials t,
          ou_protocol_errors = sh_protocol_errors sh, ou_inference_errors = sh_inference_errors sh,
          ou_inference_error_counts = fst snapshot, ou_inference_error_samples = snd snapshot,
          ou_correctness_errors = co_errors c, ou_correctness_error_counts = fst cs, ou_correctness_error_samples = snd cs,
          ou_verify_every = ar_verify_every args, ou_verified_partials = co_verified c, ou_verify_dropped = co_verify_dropped c,
          ou_timeouts = timeouts_snapshot (sh_timeouts sh),
          ou_newest_frame_to_partial_latency = percentiles_of (hd_read hl (tt_newest t)),
          ou_oldest_frame_to_partial_latency = percentiles_of (hd_read hl (tt_oldest t)),
          ou_flush_lateness = percentiles_of (hd_read hl (tt_flush t)), ou_harness_lag = percentiles_of lag,
          ou_harness_lag_samples = hi_len lag, ou_harness_faults = faults, ou_send_block = percentiles_of block\<rparr>)"

subsection \<open>Every partial is verified or counted as dropped\<close>

definition due :: "lg_entry \<Rightarrow> bool" where
  "due e \<longleftrightarrow> le_measured e \<and>
     (case le_msg e of Some (Partial p) \<Rightarrow> validate p = Ok () \<and> newest_frame_seq p \<le> le_sent e | _ \<Rightarrow> False)"

definition verify_books :: "lg_entry list \<Rightarrow> lg_shared \<Rightarrow> lg_shared \<Rightarrow> bool" where
  "verify_books es sh sh' \<longleftrightarrow>
     co_verify_every (sh_correctness sh') = co_verify_every (sh_correctness sh) \<and>
     co_verified (sh_correctness sh') + of_nat (length (sh_queue sh')) =
       co_verified (sh_correctness sh) + of_nat (length (sh_queue sh)) + of_nat (length (filter le_verified es)) \<and>
     co_verify_dropped (sh_correctness sh') =
       co_verify_dropped (sh_correctness sh) + of_nat (length (filter (\<lambda>e. due e \<and> \<not> le_verified e) es))"

lemma report_verify [simp]:
  "verify_books es sh (report_response i t a b ms sh') \<longleftrightarrow> verify_books es sh sh'"
  "verify_books es sh (report_bad_message i d sh') \<longleftrightarrow> verify_books es sh sh'"
  "sh_queue (report_response i t a b ms sh) = sh_queue sh" "sh_queue (report_bad_message i d sh) = sh_queue sh"
  by (simp_all add: verify_books_def report_response_def report_bad_message_def record_malformed_def)

lemma verify_books_quiet:
  assumes "sh_correctness sh' = sh_correctness sh" and "sh_queue sh' = sh_queue sh"
  shows "verify_books [] sh sh'"
  using assms by (simp add: verify_books_def)

lemma verify_one_verify: "verify_books [] sh (verify_one sh)"
  by (simp add: verify_one_def verify_books_def report_response_def Let_def split: list.split)

lemma check_values_verify:
  assumes "check_values alive i p inline (le_sent e < newest_frame_seq p) sh ck = (sh', ck')"
    and "co_verify_every (sh_correctness sh) = 1" and "le_verified e \<longleftrightarrow> sh_queue sh' \<noteq> sh_queue sh"
    and "le_msg e = Some (Partial p)" and "validate p = Ok ()" and "le_measured e"
  shows "verify_books [e] sh sh'"
  using assms
  by (cases "le_sent e < newest_frame_seq p")
    (auto simp: check_values_def Let_def submit_verify_def verify_books_def due_def report_response_def not_less
      split: if_splits)

lemma inbound_partial_verify:
  assumes e: "inbound_partial env i p meas start ts sh ck = (Ok st, sh', ck')"
    and "co_verify_every (sh_correctness sh) = 1"
    and en: "e = \<lparr>le_measured = meas, le_sent = of_nat (length ts), le_verified = (sh_queue sh' \<noteq> sh_queue sh), le_msg = Some (Partial p)\<rparr>"
  shows "verify_books [e] sh sh'"
proof -
  obtain gap c where g: "observe (oldest_frame_seq p) (newest_frame_seq p) (sc_continuity ck) = (gap, c)" by (rule prod.exhaust)
  show ?thesis
  proof (cases "meas \<and> validate p = Ok ()")
    case False
    then have "\<not> due e" by (auto simp: due_def en)
    then show ?thesis
      using e False unfolding inbound_partial_def g prod.case Let_def
      by (auto simp: en verify_books_def report_response_def split: sum.splits if_splits)
  next
    case True
    then obtain sh1 inline ck1 where cv: "check_values (ib_connected env) i p inline (of_nat (length ts) < newest_frame_seq p) sh1 ck1 = (sh', ck')"
      and sh1: "sh_correctness sh1 = sh_correctness sh" "sh_queue sh1 = sh_queue sh"
      using e unfolding inbound_partial_def g prod.case Let_def
      by (auto split: option.splits if_splits)
    have "verify_books [e] sh1 sh'" by (rule check_values_verify) (use cv sh1 True assms(2) en in auto)
    then show ?thesis using sh1 by (simp add: verify_books_def)
  qed
qed

lemma process_inbound_verify:
  assumes pi: "process_inbound (lc_from_str cf) env (ls_id s) r (lc_measure_start cf) (lc_end_at cf) (ls_sent_times s) sh (ls_check s) =
      (res, sh', ck)" and v: "co_verify_every (sh_correctness sh) = 1"
  shows "verify_books (handled_message cf env r sh s) sh sh'"
proof (cases "\<exists>text m. r = Lr_msg (Lm_text text) \<and> lc_from_str cf text = Ok m")
  case False
  have q: "sh_queue sh' = sh_queue sh"
    using pi False by (auto simp: process_inbound_def split: lg_recv.splits lg_message.splits ws_error.splits sum.splits)
  have "\<not> due e \<and> \<not> le_verified e" if "e \<in> set (handled_message cf env r sh s)" for e
  proof (cases r)
    case (Lr_msg x)
    then show ?thesis
      using that False q unfolding handled_message_def pi
      by (cases x; cases res) (auto simp: Let_def due_def split: sum.splits)
  qed (use that in \<open>auto simp: handled_message_def pi Let_def split: sum.splits\<close>)
  then have "filter le_verified (handled_message cf env r sh s) = []"
    "filter (\<lambda>e. due e \<and> \<not> le_verified e) (handled_message cf env r sh s) = []" by (auto simp: filter_empty_conv)
  moreover have "verify_books [] sh sh'"
    using pi False by (auto simp: process_inbound_def verify_books_quiet split: lg_recv.splits lg_message.splits ws_error.splits sum.splits)
  ultimately show ?thesis by (simp add: verify_books_def)
next
  case True
  then obtain t m where t: "r = Lr_msg (Lm_text t)" "lc_from_str cf t = Ok m" by blast
  show ?thesis
  proof (cases m)
    case (Partial p)
    then have ip: "inbound_partial env (ls_id s) p (lc_measure_start cf \<le> ib_now env \<and> ib_now env \<le> lc_end_at cf)
        (lc_measure_start cf) (ls_sent_times s) sh (ls_check s) = (res, sh', ck)"
      using pi t by (simp add: process_inbound_def Let_def)
    show ?thesis
    proof (cases res)
      case (Inl e)
      then have "verify_books [] sh sh'"
        using ip unfolding inbound_partial_def
        by (auto simp: Let_def verify_books_quiet split: prod.splits sum.splits if_splits option.splits)
      then show ?thesis by (simp add: handled_message_def pi Inl)
    next
      case (Inr st)
      show ?thesis
        unfolding handled_message_def pi using inbound_partial_verify [OF ip [unfolded Inr] v refl]
        by (simp add: Inr Let_def t Partial)
    qed
  next
    case (Error e)
    have eq: "(Ok Ib_open, inbound_error (ls_id s) e (lc_measure_start cf \<le> ib_now env \<and> ib_now env \<le> lc_end_at cf) sh (ls_check s)) =
        (res, sh', ck)"
      using pi t Error by (simp add: process_inbound_def Let_def)
    then have q: "verify_books [] sh sh' \<and> sh_queue sh' = sh_queue sh"
      by (auto simp: inbound_error_def Let_def verify_books_def report_response_def split: prod.splits option.splits if_splits)
    have "res = Ok Ib_open" using eq by simp
    then show ?thesis
      unfolding handled_message_def pi using q by (auto simp: Let_def t Error due_def verify_books_def)
  qed
qed

lemma end_session_verify: "end_session outcome (sh, s) = (sh', s') \<Longrightarrow> sh_correctness sh' = sh_correctness sh \<and> sh_queue sh' = sh_queue sh"
  by (auto simp: end_session_def record_session_outcome_def split: sum.splits)

lemma guarded_verify: "guarded kind out k (sh, s) = (sh', s') \<Longrightarrow> sh_correctness sh' = sh_correctness sh \<and> sh_queue sh' = sh_queue sh"
  by (cases out) (auto simp: guarded_def dest!: end_session_verify)

lemma check_session_tail_verify [simp]: "verify_books es sh (check_session_tail i ts m c sh') \<longleftrightarrow> verify_books es sh sh'"
  by (simp add: check_session_tail_def Let_def split: option.split)

lemma verify_books_end:
  "end_session outcome (sh1, s) = (sh', s') \<Longrightarrow> verify_books es sh sh' \<longleftrightarrow> verify_books es sh sh1"
  by (auto simp: verify_books_def dest!: end_session_verify)

lemma step_verify:
  assumes "session_step cf (sh, s, msgs) (sh', s', msgs')" and v: "co_verify_every (sh_correctness sh) = 1"
  shows "\<exists>es. msgs' = msgs @ es \<and> verify_books es sh sh'"
  using assms(1)
proof (cases rule: session_step.cases)
  case (connect out)
  then show ?thesis by (auto simp: session_connect_def verify_books_quiet dest!: guarded_verify)
next
  case (start now out)
  then show ?thesis by (auto simp: session_start_def verify_books_quiet dest!: guarded_verify)
next
  case (send woke entered dn out)
  then show ?thesis by (auto simp: session_send_def Let_def verify_books_quiet dest!: guarded_verify)
next
  case (inbound env r)
  obtain res sh1 ck where pi: "process_inbound (lc_from_str cf) env (ls_id s) r (lc_measure_start cf) (lc_end_at cf)
      (ls_sent_times s) sh (ls_check s) = (res, sh1, ck)" by (metis prod_cases3)
  show ?thesis
    using inbound(1,3) process_inbound_verify [OF pi v] unfolding session_inbound_def prod.case pi
    by (auto simp: verify_books_end split: sum.splits inbound_state.splits)
next
  case (close now out)
  then show ?thesis by (auto simp: session_close_def verify_books_quiet dest!: guarded_verify)
next
  case (drain t env r)
  obtain res sh1 ck where pi: "process_inbound (lc_from_str cf) env (ls_id s) r (lc_measure_start cf) (lc_end_at cf)
      (ls_sent_times s) sh (ls_check s) = (res, sh1, ck)" by (metis prod_cases3)
  show ?thesis
    using drain(1,3) process_inbound_verify [OF pi v] unfolding session_drain_def prod.case pi
    by (auto simp: verify_books_end split: sum.splits inbound_state.splits)
next
  case (grace t)
  then show ?thesis by (auto simp: session_grace_def verify_books_quiet dest!: end_session_verify)
next
  case deadline
  then show ?thesis by (auto simp: verify_books_quiet dest!: end_session_verify)
qed

definition entry_total :: "(lg_entry \<Rightarrow> bool) \<Rightarrow> logged list \<Rightarrow> nat" where
  "entry_total P ss = (\<Sum>y \<leftarrow> ss. length (filter P (snd y)))"

lemma entry_total_update:
  assumes "i < length ss" and "ss ! i = (s, msgs)"
  shows "entry_total P (ss[i := (s', msgs @ es)]) = entry_total P ss + length (filter P es)"
  using assms
proof (induction ss arbitrary: i)
  case (Cons y ss)
  then show ?case by (cases i) (auto simp: entry_total_def)
qed simp

lemma entry_total_le: "entry_total P ss \<le> entry_total (\<lambda>_. True) ss"
  by (induction ss) (auto simp: entry_total_def intro: add_mono)

definition verify_ok :: "lg_run \<Rightarrow> bool" where
  "verify_ok r \<longleftrightarrow>
     co_verify_every (sh_correctness (lr_shared r)) = 1 \<and>
     co_verified (sh_correctness (lr_shared r)) + of_nat (length (sh_queue (lr_shared r))) =
       of_nat (entry_total le_verified (lr_sessions r)) \<and>
     co_verify_dropped (sh_correctness (lr_shared r)) = of_nat (entry_total (\<lambda>e. due e \<and> \<not> le_verified e) (lr_sessions r))"

lemma verify_reachable: "(run_step cf)\<^sup>*\<^sup>* (run_init ex 1 n) r \<Longrightarrow> verify_ok r"
proof (induction rule: rtranclp_induct)
  case base
  have "entry_total P (lr_sessions (run_init ex 1 n)) = 0" for P
    by (simp add: entry_total_def run_init_def o_def sum_list_0)
  moreover have "lr_shared (run_init ex 1 n) = shared_new ex 1" by (simp add: run_init_def)
  ultimately show ?case by (simp add: verify_ok_def shared_new_def correctness_new_def)
next
  case (step r r')
  from step(2) show ?case
  proof (cases rule: run_step.cases)
    case (session i sh x)
    obtain s msgs s' msgs' where sm: "lr_sessions r ! i = (s, msgs)" and x: "x = (s', msgs')" by (metis prod.exhaust)
    obtain es where es: "msgs' = msgs @ es" "verify_books es (lr_shared r) sh"
      using step_verify session(3) step.IH unfolding sm x verify_ok_def by blast
    have "entry_total P (lr_sessions r') = entry_total P (lr_sessions r) + length (filter P es)" for P
      using entry_total_update [OF session(2) sm] by (simp add: session(1) x es(1))
    moreover have "lr_shared r' = sh" using session(1) by simp
    ultimately show ?thesis using step.IH es(2) by (simp add: verify_ok_def verify_books_def)
  next
    case verifier
    then show ?thesis using step.IH verify_one_verify [of "lr_shared r"] by (simp add: verify_ok_def verify_books_def)
  qed
qed

text \<open>
  C19. With \<open>verify_every\<close> at its default of one, verification is complete or says so: once the verifier has
  drained its queue, \<open>verified_partials\<close> is the number of partials handed to it, and \<open>verify_dropped\<close> is exactly the
  number of measured, well-formed partials of sent frames whose values were not recomputed.
\<close>

theorem verification_complete:
  assumes "(run_step cf)\<^sup>*\<^sup>* (run_init ex 1 n) r" and "sh_queue (lr_shared r) = []"
    and "entry_total (\<lambda>_. True) (lr_sessions r) < 2 ^ 64"
  shows "unat (co_verified (sh_correctness (lr_shared r))) = entry_total le_verified (lr_sessions r) \<and>
    unat (co_verify_dropped (sh_correctness (lr_shared r))) = entry_total (\<lambda>e. due e \<and> \<not> le_verified e) (lr_sessions r)"
proof -
  have "unat (of_nat (entry_total P (lr_sessions r)) :: u64) = entry_total P (lr_sessions r)" for P
    using assms(3) entry_total_le [of P "lr_sessions r"] by (simp add: unat_of_nat)
  then show ?thesis using verify_reachable [OF assms(1)] assms(2) by (simp add: verify_ok_def)
qed

theorem verification_complete_witness:
  "\<exists>r. (run_step (one_message (Error (example_error 1))))\<^sup>*\<^sup>* (run_init default_expected 1 1) r \<and>
     length (snd (hd (lr_sessions r))) = 1 \<and> unat (co_verify_dropped (sh_correctness (lr_shared r))) = 0"
proof -
  define r where "r sh s b = \<lparr>lr_shared = sh, lr_sessions = [(s :: lg_session, [\<lparr>le_measured = True, le_sent = 1, le_verified = b,
    le_msg = Some (Error (example_error 1))\<rparr>])]\<rparr>" for sh s b
  obtain s sh ck where reach: "(run_step (one_message (Error (example_error 1))))\<^sup>*\<^sup>* (run_init default_expected 1 1) (r sh s (sh_queue sh \<noteq> []))"
    and pi: "process_inbound (\<lambda>_. Ok (Error (example_error 1))) \<lparr>ib_now = 5, ib_rx_ok = True, ib_connected = True\<rparr> 0
       (Lr_msg (Lm_text [])) 0 (1000 * FRAME_INTERVAL) (ls_sent_times s) (shared_new default_expected 1) session_check_default = (Ok Ib_open, sh, ck)"
    using run_one_reply unfolding r_def by blast
  have "sh_queue sh = []"
    using pi by (auto simp: process_inbound_def inbound_error_def Let_def shared_new_def split: prod.splits option.splits if_splits)
  then have "sh_queue (lr_shared (r sh s (sh_queue sh \<noteq> []))) = []" by (simp add: r_def)
  from verification_complete [OF reach this] show ?thesis
    by (intro exI [of _ "r sh s (sh_queue sh \<noteq> [])"] conjI reach) (simp_all add: r_def entry_total_def due_def)
qed

end
