(* ===== verification/Sync_Protocol.thy ===== *)
theory Sync_Protocol
  imports Rust_Io F64
begin

text \<open>
  The wire types of the rust-sync gateway, \<open>services/rust-sync/src/protocol.rs\<close>. The strings of
  \<open>stage_str\<close> and \<open>kind_str\<close> are the serde renamings the source's attributes spell out. Decoding
  the start message and the inference response is serde's; the components take the decoders as
  parameters.
\<close>

record infer_response =
  ir_rms :: f64
  ir_zero_crossings :: u64
  ir_checksum :: u32
  ir_samples :: u64
  ir_transcript :: string
  ir_audio_bytes :: u64

record sync_partial =
  sp_type_tag :: string
  sp_oldest_frame_seq :: u64
  sp_newest_frame_seq :: u64
  sp_frames :: u64
  sp_rms :: f64
  sp_zero_crossings :: u64
  sp_checksum :: u32
  sp_samples :: u64
  sp_transcript :: string
  sp_audio_bytes :: u64
  sp_cpu_passes :: u32
  sp_model_delay_ms :: u64
  sp_flush_lateness_ms :: f64
  sp_inflight_model_jobs :: u64

datatype error_stage = InferenceRequest | InferenceResponseParse

datatype error_kind = Timeout | Http5xx | Http429 | ConnectionReset | ParseError

fun stage_str :: "error_stage \<Rightarrow> string" where
  "stage_str InferenceRequest = ''inference_request''"
| "stage_str InferenceResponseParse = ''inference_response_parse''"

fun kind_str :: "error_kind \<Rightarrow> string" where
  "kind_str Timeout = ''timeout''"
| "kind_str Http5xx = ''http_5xx''"
| "kind_str Http429 = ''http_429''"
| "kind_str ConnectionReset = ''connection_reset''"
| "kind_str ParseError = ''parse_error''"

record sync_error =
  se_type_tag :: string
  se_stage :: error_stage
  se_kind :: error_kind
  se_message :: string
  se_oldest_frame_seq :: u64
  se_newest_frame_seq :: u64
  se_frames :: u64
  se_audio_bytes :: u64
  se_oldest_age_ms :: f64
  se_newest_age_ms :: f64
  se_flush_lateness_ms :: f64
  se_inference_elapsed_ms :: "f64 option"
  se_inflight_gateway_batches :: u64
  se_gateway_buffer_frames :: u64
  se_inference_status :: "u16 option"
  se_retryable :: bool

definition PARTIAL_TYPE :: string where
  "PARTIAL_TYPE = ''partial''"

definition ERROR_TYPE :: string where
  "ERROR_TYPE = ''error''"

record infer_error =
  ie_stage :: error_stage
  ie_kind :: error_kind
  ie_message :: string
  ie_status :: "u16 option"
  ie_retryable :: bool
  ie_elapsed_ms :: f64

end
