(* ===== verification/Sync_Config.thy ===== *)
theory Sync_Config
  imports Rust_Io
begin

text \<open>
  The configuration of the rust-sync gateway, \<open>services/rust-sync/src/config.rs\<close>. The process
  environment is a map from names to the values \<open>env::var\<close> returns.
\<close>

definition SYNC_FRAME_BYTES :: nat where
  "SYNC_FRAME_BYTES = 640"

definition REASON_NEED_START :: string where
  "REASON_NEED_START = ''first message must be start''"

definition REASON_TEXT_AFTER_START :: string where
  "REASON_TEXT_AFTER_START = ''expected binary PCM frames after start''"

definition REASON_BAD_FRAME_SIZE :: string where
  "REASON_BAD_FRAME_SIZE = ''expected 640 byte PCM frame''"

definition INFERENCE_TIMEOUT :: duration where
  "INFERENCE_TIMEOUT = from_secs 2"

definition DEFAULT_PORT :: u16 where
  "DEFAULT_PORT = 10000"

definition DEFAULT_INFERENCE_URL :: string where
  "DEFAULT_INFERENCE_URL = ''http://inference-server:9000''"

definition DEFAULT_INFERENCE_CLIENTS :: usize where
  "DEFAULT_INFERENCE_CLIENTS = 2048"

definition DEFAULT_CPU_PASSES :: u32 where
  "DEFAULT_CPU_PASSES = 4"

definition DEFAULT_MODEL_DELAY_MS :: u64 where
  "DEFAULT_MODEL_DELAY_MS = 75"

definition DEFAULT_FLUSH_INTERVAL_MS :: u64 where
  "DEFAULT_FLUSH_INTERVAL_MS = 1000"

definition DEFAULT_FLUSH_PHASE_JITTER_MS :: u64 where
  "DEFAULT_FLUSH_PHASE_JITTER_MS = 0"

record config =
  cf_port :: u16
  cf_inference_host :: string
  cf_inference_port :: u16
  cf_inference_path :: string
  cf_inference_clients :: usize
  cf_cpu_passes :: u32
  cf_model_delay_ms :: u64
  cf_flush_interval :: duration
  cf_flush_phase_jitter :: duration

definition parse_authority :: "string \<Rightarrow> string \<times> u16" where
  "parse_authority url =
     (let rest = (case strip_prefix ''http://'' url of Some r \<Rightarrow> r | None \<Rightarrow> url);
          authority = (case split_str ''/'' rest of a # _ \<Rightarrow> a | [] \<Rightarrow> rest)
      in case rsplit_once CHR '':'' authority of
           Some (host, port) \<Rightarrow> (host, case parse_u16 port of Some p \<Rightarrow> p | None \<Rightarrow> 80)
         | None \<Rightarrow> (authority, 80))"

definition env_parsed ::
  "(string \<Rightarrow> 'a option) \<Rightarrow> (string \<Rightarrow> string option) \<Rightarrow> string \<Rightarrow> 'a \<Rightarrow> 'a" where
  "env_parsed parse env name dflt =
     (case env name of
        None \<Rightarrow> dflt
      | Some value \<Rightarrow> (case parse value of None \<Rightarrow> dflt | Some v \<Rightarrow> v))"

definition from_env :: "(string \<Rightarrow> string option) \<Rightarrow> config" where
  "from_env env =
     (let url = (case env ''INFERENCE_URL'' of Some u \<Rightarrow> u | None \<Rightarrow> DEFAULT_INFERENCE_URL);
          (host, port) = parse_authority url;
          passes = env_parsed parse_u32 env ''CPU_PASSES'' DEFAULT_CPU_PASSES
      in \<lparr>cf_port = env_parsed parse_u16 env ''PORT'' DEFAULT_PORT,
          cf_inference_host = host,
          cf_inference_port = port,
          cf_inference_path = ''/infer'',
          cf_inference_clients =
            max (env_parsed parse_u64 env ''INFERENCE_HTTP_CLIENTS'' DEFAULT_INFERENCE_CLIENTS) 1,
          cf_cpu_passes = passes,
          cf_model_delay_ms = env_parsed parse_u64 env ''MODEL_DELAY_MS'' DEFAULT_MODEL_DELAY_MS,
          cf_flush_interval =
            from_millis (unat (max (env_parsed parse_u64 env ''FLUSH_INTERVAL_MS''
              DEFAULT_FLUSH_INTERVAL_MS) 1)),
          cf_flush_phase_jitter =
            from_millis (unat (env_parsed parse_u64 env ''FLUSH_PHASE_JITTER_MS''
              DEFAULT_FLUSH_PHASE_JITTER_MS))\<rparr>)"

text \<open>What every configuration read from the environment satisfies.\<close>

definition config_ok :: "config \<Rightarrow> bool" where
  "config_ok c \<longleftrightarrow> 1 \<le> unat (cf_inference_clients c) \<and> from_millis 1 \<le> cf_flush_interval c"

lemma unat_max_one: "1 \<le> unat (max w (1 :: 'a::len word))"
proof -
  have "(1 :: 'a word) \<le> max w 1" by simp
  then have "unat (1 :: 'a word) \<le> unat (max w 1)" by (simp only: word_le_nat_alt)
  then show ?thesis by simp
qed

lemma from_env_config_ok: "config_ok (from_env env)"
  using unat_max_one [of "env_parsed parse_u64 env ''FLUSH_INTERVAL_MS'' DEFAULT_FLUSH_INTERVAL_MS"]
    unat_max_one [of "env_parsed parse_u64 env ''INFERENCE_HTTP_CLIENTS'' DEFAULT_INFERENCE_CLIENTS"]
  by (simp add: from_env_def config_ok_def from_millis_def split: prod.splits)

subsection \<open>Parsing the inference URL\<close>

lemma position_rev_last:
  assumes "c \<notin> set b"
  shows "position ((=) c) (rev (a @ c # b)) = Some (length b)"
proof -
  have "position ((=) c) (ys @ c # zs) = Some (length ys)" if "c \<notin> set ys" for ys zs
    using that by (induction ys) auto
  from this [of "rev b" "rev a"] assms show ?thesis by simp
qed

lemma rsplit_once_last: "c \<notin> set b \<Longrightarrow> rsplit_once c (a @ c # b) = Some (a, b)"
  using position_rev_last [of c b a] by (simp add: rsplit_once_def)

lemma dec_no_char:
  assumes "c \<in> set (dec n)"
  shows "48 \<le> (of_char c :: nat) \<and> (of_char c :: nat) \<le> 57"
  using dec_set [OF assms] by (auto simp: of_char_of)

lemma parse_authority_ok:
  assumes "CHR ''/'' \<notin> set host" and "path = [] \<or> hd path = CHR ''/''"
  shows "parse_authority (''http://'' @ host @ '':'' @ dec (unat port) @ path) = (host, port)"
proof -
  define auth where "auth = host @ '':'' @ dec (unat port)"
  have d: "CHR ''/'' \<notin> set (dec (unat port))" "CHR '':'' \<notin> set (dec (unat port))"
    using dec_no_char [of "CHR ''/''" "unat port"] dec_no_char [of "CHR '':''" "unat port"] by auto
  then have nos: "CHR ''/'' \<notin> set auth" using assms(1) by (auto simp: auth_def)
  have "split_str ''/'' (auth @ path) = auth # (if path = [] then [] else split_str ''/'' (tl path))"
  proof (cases "path = []")
    case True
    have "find_sub ''/'' auth = None" using nos by (intro find_sub_none) auto
    then show ?thesis using True by (subst split_str.simps) simp
  next
    case False
    then obtain r where path: "path = ''/'' @ r" using assms(2) by (cases path) auto
    have "find_sub ''/'' (auth @ ''/'' @ r) = Some (length auth)"
      using nos by (intro find_sub_first) auto
    then show ?thesis by (subst split_str.simps) (simp add: path)
  qed
  moreover have "rsplit_once CHR '':'' auth = Some (host, dec (unat port))"
    using rsplit_once_last [OF d(2), of host] by (simp add: auth_def)
  moreover have "parse_u16 (dec (unat port)) = Some port"
  proof -
    have "unat port < 2 ^ 16" using unsigned_less [of port] by simp
    then have "parse_uint 0xFFFF (dec (unat port)) = Some (unat port)"
      by (intro parse_uint_dec) simp
    then show ?thesis by (simp add: parse_u16_def)
  qed
  ultimately show ?thesis
    by (simp add: parse_authority_def strip_prefix_def auth_def Let_def)
qed

end
