(* ===== verification/Sync_Inference.thy ===== *)
theory Sync_Inference
  imports Sync_Protocol Sync_Config
begin

text \<open>
  Thread B of the rust-sync gateway, \<open>services/rust-sync/src/inference.rs\<close>: the slots with their
  non-blocking request state machine, the pool, and the thread's loop.

  A panic is the value \<open>Panic\<close>. A connected socket is a number; what the operating system answers
  during one call is \<open>sock_env\<close>: the clock, \<open>take_error\<close>, \<open>peer_addr\<close>, the scripts of \<open>write\<close>
  and \<open>read\<close>, and \<open>TcpStream::connect\<close>. Calls of mio's registry, whose results the code ignores,
  are returned as a log. \<open>serde_json::from_slice\<close> is a parameter.
\<close>

text \<open>Connection ids (\<open>usize\<close>) count accepted connections upwards from 2; they are natural numbers here.\<close>

type_synonym conn_id = nat

datatype cmd = Submit conn_id u64 bytes u32 | Abort conn_id

type_synonym infer_result = "(infer_response, infer_error) result"
type_synonym done_msg = "conn_id \<times> u64 \<times> infer_result"

definition B_WAKE :: nat where
  "B_WAKE = 0"

definition pool_token :: "nat \<Rightarrow> nat" where
  "pool_token slot = slot + 1"

definition pool_slot :: "nat \<Rightarrow> nat" where
  "pool_slot token = token - 1"

definition transport_error :: "error_kind \<Rightarrow> string \<Rightarrow> f64 \<Rightarrow> infer_error" where
  "transport_error kind message elapsed_ms =
     \<lparr>ie_stage = InferenceRequest, ie_kind = kind, ie_message = message, ie_status = None,
      ie_retryable = True, ie_elapsed_ms = elapsed_ms\<rparr>"

definition timeout_error :: "f64 \<Rightarrow> infer_error" where
  "timeout_error elapsed_ms = transport_error Timeout ''inference timed out'' elapsed_ms"

definition reset_error :: infer_error where
  "reset_error = transport_error ConnectionReset ''inference connection reset'' f64_zero"

datatype slot_state = Disconnected | Connecting | Idle | Sending nat | Receiving

record slot =
  sl_sock :: "nat option"
  sl_state :: slot_state
  sl_owner :: "conn_id option"
  sl_tag :: u64
  sl_req :: bytes
  sl_resp :: bytes
  sl_started :: instant
  sl_retried :: bool
  sl_dialed :: bool
  sl_registered :: bool

datatype interest = Readable | Writable | ReadWrite

datatype reg_op = Register nat nat interest | Reregister nat nat interest | Deregister nat

record sock_env =
  en_now :: instant
  en_take_error :: "(io_error option, io_error) result"
  en_peer_ok :: bool
  en_writes :: "io_write list"
  en_reads :: "io_read list"
  en_connect :: "(nat, io_error) result"

datatype step = Pending bool | Redial | Done infer_result

definition slot_new :: "instant \<Rightarrow> slot" where
  "slot_new now =
     \<lparr>sl_sock = None, sl_state = Disconnected, sl_owner = None, sl_tag = 0, sl_req = [],
      sl_resp = [], sl_started = now, sl_retried = False, sl_dialed = False,
      sl_registered = False\<rparr>"

definition ensure_registered :: "nat \<Rightarrow> interest \<Rightarrow> slot \<Rightarrow> slot \<times> reg_op list" where
  "ensure_registered token interest s =
     (let fresh = sl_dialed s; s1 = s\<lparr>sl_dialed := False\<rparr>
      in case sl_sock s1 of
           None \<Rightarrow> (s1\<lparr>sl_registered := False\<rparr>, [])
         | Some fd \<Rightarrow>
             if fresh \<or> \<not> sl_registered s1
             then (s1\<lparr>sl_registered := True\<rparr>, [Register fd token interest])
             else (s1, [Reregister fd token interest]))"

definition slot_deregister :: "slot \<Rightarrow> slot \<times> reg_op list" where
  "slot_deregister s =
     (s\<lparr>sl_registered := False\<rparr>, case sl_sock s of None \<Rightarrow> [] | Some fd \<Rightarrow> [Deregister fd])"

definition build :: "instant \<Rightarrow> config \<Rightarrow> bytes \<Rightarrow> u32 \<Rightarrow> slot \<Rightarrow> slot" where
  "build now config body passes s =
     s\<lparr>sl_started := now, sl_retried := False, sl_resp := [],
       sl_req := as_bytes (''POST '' @ cf_inference_path config @ '' HTTP/1.1'' @ CRLF @
           ''Host: '' @ cf_inference_host config @ CRLF @
           ''x-cpu-passes: '' @ dec (unat passes) @ CRLF @
           ''Content-Length: '' @ dec (length body) @ CRLF @
           ''Connection: keep-alive'' @ CRLF @ CRLF) @ body\<rparr>"

definition dial :: "(nat, io_error) result \<Rightarrow> slot \<Rightarrow> (slot, io_error) result" where
  "dial connect s =
     (case connect of
        Err e \<Rightarrow> Err e
      | Ok fd \<Rightarrow> Ok (s\<lparr>sl_sock := Some fd, sl_state := Connecting, sl_dialed := True\<rparr>))"

subsection \<open>Parsing a response\<close>

type_synonym parse_err = "error_stage \<times> error_kind \<times> string \<times> u16 option"

definition classify_status :: "u16 \<Rightarrow> error_kind \<times> bool" where
  "classify_status status =
     (if status = 429 then (Http429, True)
      else if 500 \<le> status \<and> status < 600 then (Http5xx, True)
      else (Http5xx, False))"

definition kind_retryable :: "error_kind \<Rightarrow> bool" where
  "kind_retryable kind = (kind \<noteq> ParseError)"

definition status_of :: "string list \<Rightarrow> u16" where
  "status_of lines =
     (case lines of
        [] \<Rightarrow> 0
      | l # _ \<Rightarrow> (case nth_opt 1 (split_str '' '' l) of
                   None \<Rightarrow> 0
                 | Some c \<Rightarrow> (case parse_u16 c of None \<Rightarrow> 0 | Some n \<Rightarrow> n)))"

definition content_len_of :: "string list \<Rightarrow> usize" where
  "content_len_of lines =
     (case find_map (\<lambda>l. case split_once '':'' l of
           None \<Rightarrow> None
         | Some (k, v) \<Rightarrow>
             if eq_ignore_ascii_case (trim k) ''content-length'' then parse_u64 (trim v) else None) lines
      of None \<Rightarrow> 0 | Some n \<Rightarrow> n)"

text \<open>
  \<open>head_end + content_len\<close> is computed in \<open>usize\<close>. Where it exceeds 64 bits a checked build panics
  at the addition; a release build wraps, and panics at the slice whose end precedes its start.
\<close>

definition parse_response ::
  "(bytes \<Rightarrow> (infer_response, string) result) \<Rightarrow> bytes \<Rightarrow> (infer_response, parse_err) result option rust" where
  "parse_response from_slice buf =
     (case find_sub CRLFCRLF buf of
        None \<Rightarrow> Ret None
      | Some pos \<Rightarrow>
          let head_end = pos + 4 in
          (case from_utf8 (take head_end buf) of
             None \<Rightarrow> Ret None
           | Some head \<Rightarrow>
               let lines = split_str CRLF head; status = status_of lines;
                   content_len = content_len_of (tl lines);
                   stop = of_nat head_end + content_len
               in if length buf < unat stop then Ret None
                  else if unat stop < head_end then Panic
                  else
                    let body = take (unat stop - head_end) (drop head_end buf)
                    in if \<not> (200 \<le> status \<and> status < 300)
                       then Ret (Some (Err (InferenceRequest, fst (classify_status status),
                              ''inference returned status '' @ dec (unat status), Some status)))
                       else (case from_slice body of
                               Ok infer \<Rightarrow> Ret (Some (Ok infer))
                             | Err e \<Rightarrow> Ret (Some (Err (InferenceResponseParse, ParseError, e, Some status))))))"

subsection \<open>Driving one slot\<close>

datatype send_result = Sent | Blocked nat | Send_failed io_error

text \<open>The \<open>while off < self.req.len()\<close> loop over \<open>write\<close>.\<close>

fun send_loop :: "nat \<Rightarrow> nat \<Rightarrow> io_write list \<Rightarrow> send_result" where
  "send_loop len off ws =
     (if \<not> off < len then Sent
      else case ws of
             [] \<Rightarrow> Blocked off
           | Wr n # ws' \<Rightarrow> if n = 0 then Send_failed WriteZero else send_loop len (off + n) ws'
           | Wr_err e # ws' \<Rightarrow>
               if e = WouldBlock then Blocked off
               else if e = Interrupted then send_loop len off ws'
               else Send_failed e)"

declare send_loop.simps [simp del]

text \<open>The loop over \<open>read\<close> that extends \<open>self.resp\<close>.\<close>

fun recv_loop :: "io_read list \<Rightarrow> bytes \<Rightarrow> io_error option \<times> bytes" where
  "recv_loop [] resp = (None, resp)"
| "recv_loop (Rd bs # rs) resp =
     (if bs = [] then (Some UnexpectedEof, resp) else recv_loop rs (resp @ bs))"
| "recv_loop (Rd_err e # rs) resp =
     (if e = WouldBlock then (None, resp)
      else if e = Interrupted then recv_loop rs resp
      else (Some e, resp))"

definition elapsed_ms :: "instant \<Rightarrow> instant \<Rightarrow> f64" where
  "elapsed_ms started now = as_ms_f64 (now - started)"

definition run_receiving ::
  "(bytes \<Rightarrow> (infer_response, string) result) \<Rightarrow> sock_env \<Rightarrow> slot \<Rightarrow> ((step, io_error) result \<times> slot) rust" where
  "run_receiving from_slice env s =
     (if sl_sock s = None then Panic
      else case recv_loop (en_reads env) (sl_resp s) of
        (Some e, resp) \<Rightarrow> Ret (Err e, s\<lparr>sl_resp := resp\<rparr>)
      | (None, resp) \<Rightarrow>
          let s1 = s\<lparr>sl_resp := resp\<rparr> in
          (case parse_response from_slice resp of
             Panic \<Rightarrow> Panic
           | Ret None \<Rightarrow> Ret (Ok (Pending False), s1)
           | Ret (Some (Ok infer)) \<Rightarrow> Ret (Ok (Done (Ok infer)), s1\<lparr>sl_state := Idle\<rparr>)
           | Ret (Some (Err (stage, kind, msg, status))) \<Rightarrow>
               Ret (Ok (Done (Err
                 \<lparr>ie_stage = stage, ie_kind = kind, ie_message = msg, ie_status = status,
                  ie_retryable = kind_retryable kind,
                  ie_elapsed_ms = elapsed_ms (sl_started s) (en_now env)\<rparr>)),
                 s1\<lparr>sl_state := Idle\<rparr>)))"

definition run_sending ::
  "(bytes \<Rightarrow> (infer_response, string) result) \<Rightarrow> sock_env \<Rightarrow> nat \<Rightarrow> slot \<Rightarrow> ((step, io_error) result \<times> slot) rust" where
  "run_sending from_slice env off s =
     (if sl_sock s = None then Panic
      else case send_loop (length (sl_req s)) off (en_writes env) of
             Blocked off' \<Rightarrow> Ret (Ok (Pending True), s\<lparr>sl_state := Sending off'\<rparr>)
           | Send_failed e \<Rightarrow> Ret (Err e, s)
           | Sent \<Rightarrow> run_receiving from_slice env (s\<lparr>sl_state := Receiving\<rparr>))"

definition slot_run ::
  "(bytes \<Rightarrow> (infer_response, string) result) \<Rightarrow> sock_env \<Rightarrow> bool \<Rightarrow> slot \<Rightarrow> ((step, io_error) result \<times> slot) rust" where
  "slot_run from_slice env writable s =
     (case sl_state s of
        Connecting \<Rightarrow>
          if sl_sock s = None then Panic
          else (case en_take_error env of
                  Err e \<Rightarrow> Ret (Err e, s)
                | Ok (Some e) \<Rightarrow> Ret (Err e, s)
                | Ok None \<Rightarrow>
                    if \<not> en_peer_ok env then Ret (Ok (Pending True), s)
                    else run_sending from_slice env 0 (s\<lparr>sl_state := Sending 0\<rparr>))
      | Sending off \<Rightarrow> run_sending from_slice env off s
      | Receiving \<Rightarrow> run_receiving from_slice env s
      | Idle \<Rightarrow>
          if \<not> writable then
            (if sl_sock s = None then Panic
             else case en_reads env of
                    Rd [] # _ \<Rightarrow> Ret (Ok (Pending False), s\<lparr>sl_sock := None, sl_state := Disconnected\<rparr>)
                  | _ \<Rightarrow> Ret (Ok (Pending False), s))
          else Ret (Ok (Pending False), s)
      | Disconnected \<Rightarrow> Ret (Ok (Pending False), s))"

definition retry_or_fail :: "instant \<Rightarrow> io_error \<Rightarrow> slot \<Rightarrow> step \<times> slot" where
  "retry_or_fail now e s =
     (if \<not> sl_retried s \<and> sl_sock s \<noteq> None
      then (Redial, s\<lparr>sl_retried := True, sl_resp := [], sl_state := Sending 0, sl_sock := None\<rparr>)
      else (Done (Err (transport_error ConnectionReset (io_to_string e) (elapsed_ms (sl_started s) now))),
            s\<lparr>sl_sock := None, sl_state := Disconnected\<rparr>))"

definition drive ::
  "(bytes \<Rightarrow> (infer_response, string) result) \<Rightarrow> sock_env \<Rightarrow> bool \<Rightarrow> slot \<Rightarrow> (step \<times> slot) rust" where
  "drive from_slice env writable s =
     (case slot_run from_slice env writable s of
        Panic \<Rightarrow> Panic
      | Ret (Ok step, s') \<Rightarrow> Ret (step, s')
      | Ret (Err e, s') \<Rightarrow> Ret (retry_or_fail (en_now env) e s'))"

subsection \<open>The pool\<close>

record pool =
  pl_slots :: "slot list"
  pl_free :: "nat list"

definition pool_new :: "instant \<Rightarrow> nat \<Rightarrow> pool" where
  "pool_new now sz =
     \<lparr>pl_slots = map (\<lambda>i. slot_new now) [0..<sz], pl_free = map (\<lambda>i. sz - 1 - i) [0..<sz]\<rparr>"

definition has_inflight :: "pool \<Rightarrow> bool" where
  "has_inflight p = (length (pl_free p) \<noteq> length (pl_slots p))"

definition set_slot :: "nat \<Rightarrow> slot \<Rightarrow> pool \<Rightarrow> pool" where
  "set_slot idx s p = p\<lparr>pl_slots := (pl_slots p)[idx := s]\<rparr>"

definition recycle :: "nat \<Rightarrow> pool \<Rightarrow> pool \<times> reg_op list" where
  "recycle idx p =
     (let s = (pl_slots p ! idx)\<lparr>sl_owner := None\<rparr>;
          (s', ops) = (if sl_sock s \<noteq> None then ensure_registered (pool_token idx) Readable s
                       else slot_deregister s)
      in ((set_slot idx s' p)\<lparr>pl_free := pl_free p @ [idx]\<rparr>, ops))"

definition submit ::
  "sock_env \<Rightarrow> config \<Rightarrow> conn_id \<Rightarrow> u64 \<Rightarrow> bytes \<Rightarrow> u32 \<Rightarrow> pool \<Rightarrow> done_msg option \<times> pool \<times> reg_op list" where
  "submit env config owner tag body passes p =
     (if pl_free p = [] then (Some (owner, tag, Err reset_error), p, [])
      else
        let idx = last (pl_free p);
            p1 = p\<lparr>pl_free := butlast (pl_free p)\<rparr>;
            s = build (en_now env) config body passes
                  ((pl_slots p ! idx)\<lparr>sl_owner := Some owner, sl_tag := tag\<rparr>);
            dialed = (if sl_sock s \<noteq> None then Ok (s\<lparr>sl_state := Sending 0\<rparr>)
                      else dial (en_connect env) s)
        in case dialed of
             Err _ \<Rightarrow>
               (Some (owner, tag, Err reset_error),
                (set_slot idx (s\<lparr>sl_owner := None\<rparr>) p1)\<lparr>pl_free := pl_free p1 @ [idx]\<rparr>, [])
           | Ok s1 \<Rightarrow>
               (case ensure_registered (pool_token idx) Writable s1 of
                  (s2, ops) \<Rightarrow> (None, set_slot idx s2 p1, ops)))"

definition on_event ::
  "(bytes \<Rightarrow> (infer_response, string) result) \<Rightarrow> sock_env \<Rightarrow> nat \<Rightarrow> bool \<Rightarrow> pool
     \<Rightarrow> (done_msg option \<times> pool \<times> reg_op list) rust" where
  "on_event from_slice env idx writable p =
     (if \<not> idx < length (pl_slots p) then Panic
      else case drive from_slice env writable (pl_slots p ! idx) of
        Panic \<Rightarrow> Panic
      | Ret (Pending want_writable, s) \<Rightarrow>
          (case ensure_registered (pool_token idx) (if want_writable then Writable else Readable) s of
             (s', ops) \<Rightarrow> Ret (None, set_slot idx s' p, ops))
      | Ret (Redial, s) \<Rightarrow>
          (case dial (en_connect env) s of
             Err _ \<Rightarrow>
               (case recycle idx (set_slot idx (s\<lparr>sl_owner := None\<rparr>) p) of
                  (p', ops) \<Rightarrow>
                    Ret (map_option (\<lambda>owner. (owner, sl_tag s, Err reset_error)) (sl_owner s), p', ops))
           | Ok s1 \<Rightarrow>
               (case ensure_registered (pool_token idx) Writable s1 of
                  (s2, ops) \<Rightarrow> Ret (None, set_slot idx s2 p, ops)))
      | Ret (Done result, s) \<Rightarrow>
          (case recycle idx (set_slot idx (s\<lparr>sl_owner := None\<rparr>) p) of
             (p', ops) \<Rightarrow> Ret (map_option (\<lambda>owner. (owner, sl_tag s, result)) (sl_owner s), p', ops)))"

definition abort_owner :: "conn_id \<Rightarrow> pool \<Rightarrow> pool \<times> reg_op list" where
  "abort_owner owner p =
     (case position (\<lambda>s. sl_owner s = Some owner) (pl_slots p) of
        None \<Rightarrow> (p, [])
      | Some idx \<Rightarrow>
          recycle idx (set_slot idx
            ((pl_slots p ! idx)\<lparr>sl_owner := None, sl_sock := None, sl_state := Disconnected\<rparr>) p))"

subsection \<open>The thread's loop\<close>

definition compute_poll_timeout :: "bool \<Rightarrow> duration" where
  "compute_poll_timeout inflight = from_millis (if inflight then 10 else 1000)"

record b_event =
  be_token :: nat
  be_writable :: bool
  be_env :: sock_env

text \<open>The event loop of one iteration: the completions in order, or a panic.\<close>

fun b_events ::
  "(bytes \<Rightarrow> (infer_response, string) result) \<Rightarrow> b_event list \<Rightarrow> pool \<Rightarrow> (done_msg list \<times> pool) rust" where
  "b_events from_slice [] p = Ret ([], p)"
| "b_events from_slice (e # es) p =
     (if be_token e = B_WAKE then b_events from_slice es p
      else case on_event from_slice (be_env e) (pool_slot (be_token e)) (be_writable e) p of
        Panic \<Rightarrow> Panic
      | Ret (d, p', _) \<Rightarrow>
          (case b_events from_slice es p' of
             Panic \<Rightarrow> Panic
           | Ret (ds, p'') \<Rightarrow> Ret ((case d of None \<Rightarrow> ds | Some x \<Rightarrow> x # ds), p'')))"

definition b_cmd :: "sock_env \<Rightarrow> config \<Rightarrow> cmd \<Rightarrow> pool \<Rightarrow> done_msg option \<times> pool" where
  "b_cmd env config c p =
     (case c of
        Submit owner tag body passes \<Rightarrow>
          (case submit env config owner tag body passes p of (d, p', _) \<Rightarrow> (d, p'))
      | Abort owner \<Rightarrow> (None, fst (abort_owner owner p)))"

fun b_drain :: "config \<Rightarrow> (cmd \<times> sock_env) list \<Rightarrow> pool \<Rightarrow> done_msg list \<times> pool" where
  "b_drain config [] p = ([], p)"
| "b_drain config ((c, env) # cs) p =
     (case b_cmd env config c p of (d, p') \<Rightarrow>
       case b_drain config cs p' of (ds, p'') \<Rightarrow> ((case d of None \<Rightarrow> ds | Some x \<Rightarrow> x # ds), p''))"

text \<open>One iteration after a successful \<open>poll\<close>: the completions, whether thread A is woken, the pool.\<close>

definition b_iteration ::
  "(bytes \<Rightarrow> (infer_response, string) result) \<Rightarrow> config \<Rightarrow> b_event list \<Rightarrow> (cmd \<times> sock_env) list \<Rightarrow> pool
     \<Rightarrow> (done_msg list \<times> bool \<times> pool) rust" where
  "b_iteration from_slice config es cs p =
     (case b_events from_slice es p of
        Panic \<Rightarrow> Panic
      | Ret (ds, p') \<Rightarrow>
          (case b_drain config cs p' of (ds', p'') \<Rightarrow> Ret (ds @ ds', ds @ ds' \<noteq> [], p'')))"

end
