(* ===== verification/Sync_Pool.thy ===== *)
theory Sync_Pool
  imports Sync_Inference "HOL-Library.Multiset"
begin

text \<open>
  Correctness of thread B's pool: the invariant that ties the free list, the slots' owners, their
  sockets and their states together, that every operation keeps it, when the thread can panic, and
  that requests are neither lost nor duplicated.
\<close>

subsection \<open>The slot invariant\<close>

fun busy_state :: "slot_state \<Rightarrow> bool" where
  "busy_state Connecting = True"
| "busy_state (Sending _) = True"
| "busy_state Receiving = True"
| "busy_state Idle = False"
| "busy_state Disconnected = False"

text \<open>
  An owned slot has a registered socket and a request under way. A free slot either has an idle,
  registered keep-alive socket or no socket and no registration.
\<close>

definition slot_ok :: "slot \<Rightarrow> bool" where
  "slot_ok s \<longleftrightarrow> \<not> sl_dialed s \<and> (sl_registered s \<longleftrightarrow> sl_sock s \<noteq> None) \<and>
     (if sl_owner s \<noteq> None then sl_sock s \<noteq> None \<and> busy_state (sl_state s)
      else sl_sock s \<noteq> None \<longrightarrow> sl_state s = Idle)"

definition pool_inv :: "pool \<Rightarrow> bool" where
  "pool_inv p \<longleftrightarrow> distinct (pl_free p) \<and> (\<forall>s \<in> set (pl_slots p). slot_ok s) \<and>
     set (pl_free p) = {i. i < length (pl_slots p) \<and> sl_owner (pl_slots p ! i) = None}"

text \<open>What one call of \<open>drive\<close> does to a slot, by the step it returns.\<close>

definition drive_post :: "slot \<Rightarrow> step \<Rightarrow> slot \<Rightarrow> bool" where
  "drive_post s st s' \<longleftrightarrow>
     sl_owner s' = sl_owner s \<and> sl_tag s' = sl_tag s \<and> sl_req s' = sl_req s \<and>
     sl_dialed s' = sl_dialed s \<and> sl_registered s' = sl_registered s \<and>
     (case st of
        Pending _ \<Rightarrow>
          if sl_owner s \<noteq> None then sl_sock s' = sl_sock s \<and> busy_state (sl_state s')
          else sl_sock s' \<noteq> None \<longrightarrow> sl_sock s' = sl_sock s \<and> sl_state s' = Idle
      | Redial \<Rightarrow> sl_owner s \<noteq> None \<and> sl_sock s' = None
      | Done _ \<Rightarrow> sl_owner s \<noteq> None \<and> (sl_sock s' \<noteq> None \<longrightarrow> sl_sock s' = sl_sock s \<and> sl_state s' = Idle))"

lemma drive_post_state [simp]: "drive_post (s\<lparr>sl_state := x\<rparr>) st s' = drive_post s st s'"
  by (cases st) (simp_all add: drive_post_def)

lemma run_receiving_post:
  assumes "run_receiving fs env s = Ret (r, s')" and "sl_owner s \<noteq> None" and "sl_sock s \<noteq> None"
    and "sl_state s = Receiving"
  shows "case r of Ok st \<Rightarrow> drive_post s st s' | Err _ \<Rightarrow> \<exists>rb. s' = s\<lparr>sl_resp := rb\<rparr>"
  using assms
  by (auto simp: run_receiving_def drive_post_def Let_def
      split: prod.splits option.splits rust.splits sum.splits if_splits)

lemma run_sending_post:
  assumes "run_sending fs env off s = Ret (r, s')" and "sl_owner s \<noteq> None" and "sl_sock s \<noteq> None"
  shows "case r of Ok st \<Rightarrow> drive_post s st s' | Err _ \<Rightarrow>
           sl_owner s' = sl_owner s \<and> sl_tag s' = sl_tag s \<and> sl_req s' = sl_req s \<and> sl_sock s' = sl_sock s \<and>
           sl_dialed s' = sl_dialed s \<and> sl_registered s' = sl_registered s"
proof (cases "send_loop (length (sl_req s)) off (en_writes env)")
  case Sent
  then have r: "run_receiving fs env (s\<lparr>sl_state := Receiving\<rparr>) = Ret (r, s')"
    using assms by (auto simp: run_sending_def)
  show ?thesis
    using run_receiving_post [OF r] assms(2,3) by (auto split: sum.splits)
next
  case (Blocked x)
  then show ?thesis using assms by (auto simp: run_sending_def drive_post_def)
next
  case (Send_failed x)
  then show ?thesis using assms by (auto simp: run_sending_def)
qed

lemma slot_run_post:
  assumes "slot_ok s" and "slot_run fs env w s = Ret (r, s')"
  shows "case r of Ok st \<Rightarrow> drive_post s st s' | Err _ \<Rightarrow>
           sl_owner s \<noteq> None \<and> sl_owner s' = sl_owner s \<and> sl_tag s' = sl_tag s \<and> sl_req s' = sl_req s \<and>
           sl_sock s' = sl_sock s \<and> sl_dialed s' = sl_dialed s \<and> sl_registered s' = sl_registered s"
proof (cases "sl_owner s = None")
  case True
  with assms show ?thesis
    by (cases "sl_state s"; cases "sl_sock s")
      (auto simp: slot_ok_def slot_run_def drive_post_def run_receiving_def run_sending_def
        split: if_splits list.splits io_read.splits option.splits sum.splits)
next
  case False
  then have ow: "sl_sock s \<noteq> None" "busy_state (sl_state s)" using assms(1) by (auto simp: slot_ok_def)
  show ?thesis
  proof (cases "sl_state s")
    case Connecting
    show ?thesis
    proof (cases "en_take_error env = Ok None \<and> en_peer_ok env")
      case True
      then have r: "run_sending fs env 0 (s\<lparr>sl_state := Sending 0\<rparr>) = Ret (r, s')"
        using assms(2) Connecting ow by (auto simp: slot_run_def)
      from run_sending_post [OF r] ow False show ?thesis
        by (auto split: sum.splits)
    next
      case False
      then show ?thesis using assms(2) Connecting ow \<open>sl_owner s \<noteq> None\<close>
        by (auto simp: slot_run_def drive_post_def split: sum.splits option.splits if_splits)
    qed
  next
    case (Sending off)
    then have r: "run_sending fs env off s = Ret (r, s')" using assms(2) by (simp add: slot_run_def)
    from run_sending_post [OF r] ow False show ?thesis by (auto split: sum.splits)
  next
    case Receiving
    then have r: "run_receiving fs env s = Ret (r, s')" using assms(2) by (simp add: slot_run_def)
    from run_receiving_post [OF r] ow False Receiving show ?thesis by (auto split: sum.splits)
  qed (use ow in auto)
qed

lemma drive_ok:
  assumes "slot_ok s" and "drive fs env w s = Ret (st, s')"
  shows "drive_post s st s'"
  using assms(2) slot_run_post [OF assms(1), of fs env w]
  by (auto simp: drive_def retry_or_fail_def drive_post_def
      split: rust.splits prod.splits sum.splits if_splits)

subsection \<open>The pool invariant\<close>

lemma ensure_registered_facts [simp]:
  "sl_owner (fst (ensure_registered t i s)) = sl_owner s"
  "sl_tag (fst (ensure_registered t i s)) = sl_tag s"
  "sl_sock (fst (ensure_registered t i s)) = sl_sock s"
  "sl_state (fst (ensure_registered t i s)) = sl_state s"
  "sl_req (fst (ensure_registered t i s)) = sl_req s"
  "sl_resp (fst (ensure_registered t i s)) = sl_resp s"
  "\<not> sl_dialed (fst (ensure_registered t i s))"
  "sl_registered (fst (ensure_registered t i s)) \<longleftrightarrow> sl_sock s \<noteq> None"
  by (auto simp: ensure_registered_def Let_def split: option.splits)

lemma slot_deregister_facts [simp]:
  "sl_owner (fst (slot_deregister s)) = sl_owner s"
  "sl_tag (fst (slot_deregister s)) = sl_tag s"
  "sl_sock (fst (slot_deregister s)) = sl_sock s"
  "sl_dialed (fst (slot_deregister s)) = sl_dialed s"
  "\<not> sl_registered (fst (slot_deregister s))"
  by (auto simp: slot_deregister_def)

text \<open>Registering a slot makes it well formed, whatever its registration was.\<close>

lemma ensure_registered_ok:
  assumes "sl_owner s \<noteq> None \<Longrightarrow> sl_sock s \<noteq> None \<and> busy_state (sl_state s)"
    and "sl_owner s = None \<Longrightarrow> sl_sock s \<noteq> None \<Longrightarrow> sl_state s = Idle"
  shows "slot_ok (fst (ensure_registered t i s))"
  using assms by (auto simp: slot_ok_def)

lemma pool_inv_set_slot:
  assumes "pool_inv p" and "slot_ok s" and "sl_owner s = None \<longleftrightarrow> sl_owner (pl_slots p ! i) = None"
  shows "pool_inv (set_slot i s p)"
proof -
  have "{j. j < length (pl_slots p) \<and> sl_owner ((pl_slots p)[i := s] ! j) = None} =
      {j. j < length (pl_slots p) \<and> sl_owner (pl_slots p ! j) = None}"
    using assms(3)
    by (cases "i < length (pl_slots p)") (auto simp: nth_list_update split: if_splits)
  moreover have "\<forall>x \<in> set ((pl_slots p)[i := s]). slot_ok x"
    using assms(1,2) by (auto simp: pool_inv_def dest: set_update_subset_insert [THEN subsetD])
  ultimately show ?thesis using assms(1) by (simp add: pool_inv_def set_slot_def)
qed

text \<open>Freeing a slot: it leaves the owned ones and goes on the free list.\<close>

lemma pool_inv_free_slot:
  assumes "pool_inv p" and "slot_ok s" and "sl_owner s = None" and "i < length (pl_slots p)"
    and "sl_owner (pl_slots p ! i) \<noteq> None"
  shows "pool_inv ((set_slot i s p)\<lparr>pl_free := pl_free p @ [i]\<rparr>)"
proof -
  have "i \<notin> set (pl_free p)" using assms(1,5) by (auto simp: pool_inv_def)
  moreover have "{j. j < length (pl_slots p) \<and> sl_owner ((pl_slots p)[i := s] ! j) = None} =
      insert i {j. j < length (pl_slots p) \<and> sl_owner (pl_slots p ! j) = None}"
    using assms(3,4) by (auto simp: nth_list_update)
  moreover have "\<forall>x \<in> set ((pl_slots p)[i := s]). slot_ok x"
    using assms(1,2) by (auto simp: pool_inv_def dest: set_update_subset_insert [THEN subsetD])
  ultimately show ?thesis using assms(1) by (auto simp: pool_inv_def set_slot_def)
qed

lemma set_slot_slots [simp]:
  "pl_slots (set_slot i s p) = (pl_slots p)[i := s]"
  "pl_free (set_slot i s p) = pl_free p"
  "set_slot i s (set_slot i s' p) = set_slot i s p"
  by (simp_all add: set_slot_def)

text \<open>\<open>recycle\<close> after the caller wrote back the finished slot \<open>s\<close>.\<close>

definition recycled :: "nat \<Rightarrow> slot \<Rightarrow> slot" where
  "recycled idx s =
     (if sl_sock s \<noteq> None then fst (ensure_registered (pool_token idx) Readable (s\<lparr>sl_owner := None\<rparr>))
      else fst (slot_deregister (s\<lparr>sl_owner := None\<rparr>)))"

lemma recycle_set_slot:
  assumes "idx < length (pl_slots p)"
  shows "fst (recycle idx (set_slot idx (s\<lparr>sl_owner := None\<rparr>) p)) =
           (set_slot idx (recycled idx s) p)\<lparr>pl_free := pl_free p @ [idx]\<rparr>"
  using assms by (auto simp: recycle_def recycled_def Let_def split: prod.splits)

lemma recycled_facts [simp]:
  "sl_owner (recycled idx s) = None" "sl_sock (recycled idx s) = sl_sock s"
  by (auto simp: recycled_def)

lemma recycled_ok:
  "\<not> sl_dialed s \<Longrightarrow> (sl_sock s \<noteq> None \<Longrightarrow> sl_state s = Idle) \<Longrightarrow> slot_ok (recycled idx s)"
  by (auto simp: recycled_def slot_ok_def)

lemma pool_inv_nth: "pool_inv p \<Longrightarrow> i < length (pl_slots p) \<Longrightarrow> slot_ok (pl_slots p ! i)"
  by (simp add: pool_inv_def)

lemma on_event_inv [pool_inv_intros]:
  assumes inv: "pool_inv p" and ev: "on_event fs env idx w p = Ret (d, p', ops)"
  shows "pool_inv p'"
proof -
  define s where "s = pl_slots p ! idx"
  have idx: "idx < length (pl_slots p)" using ev by (auto simp: on_event_def split: if_splits)
  have ok: "slot_ok s" using pool_inv_nth [OF inv idx] by (simp add: s_def)
  obtain st s' where dr: "drive fs env w s = Ret (st, s')"
    using ev idx by (auto simp: on_event_def s_def split: rust.splits)
  note post = drive_ok [OF ok dr]
  show ?thesis
  proof (cases st)
    case (Pending b)
    then have p': "p' = set_slot idx (fst (ensure_registered (pool_token idx) (if b then Writable else Readable) s')) p"
      using ev idx dr by (auto simp: on_event_def s_def [symmetric] split: prod.splits)
    show ?thesis
      unfolding p' using post ok Pending
      by (intro pool_inv_set_slot [OF inv] ensure_registered_ok)
        (auto simp: drive_post_def s_def slot_ok_def)
  next
    case (Done r)
    then have "p' = (set_slot idx (recycled idx s') p)\<lparr>pl_free := pl_free p @ [idx]\<rparr>"
      using ev idx dr recycle_set_slot [OF idx, of s']
      by (auto simp: on_event_def s_def [symmetric] split: prod.splits)
    then show ?thesis
      using post ok Done idx
      by (auto simp: drive_post_def s_def slot_ok_def intro!: pool_inv_free_slot [OF inv] recycled_ok)
  next
    case Redial
    show ?thesis
    proof (cases "dial (en_connect env) s'")
      case (Inl e)
      then have "p' = (set_slot idx (recycled idx s') p)\<lparr>pl_free := pl_free p @ [idx]\<rparr>"
        using ev idx dr Redial recycle_set_slot [OF idx, of s']
        by (auto simp: on_event_def s_def [symmetric] split: prod.splits)
      then show ?thesis
        using post ok Redial idx
        by (auto simp: drive_post_def s_def slot_ok_def intro!: pool_inv_free_slot [OF inv] recycled_ok)
    next
      case (Inr s1)
      then have p': "p' = set_slot idx (fst (ensure_registered (pool_token idx) Writable s1)) p"
        using ev idx dr Redial by (auto simp: on_event_def s_def [symmetric] split: prod.splits)
      show ?thesis
        unfolding p' using post ok Redial Inr
        by (intro pool_inv_set_slot [OF inv] ensure_registered_ok)
          (auto simp: drive_post_def s_def slot_ok_def dial_def split: sum.splits)
    qed
  qed
qed

lemma pool_new_inv: "pool_inv (pool_new now n)"
proof -
  have "distinct (map (\<lambda>i. n - 1 - i) [0..<n])" by (auto simp: distinct_map inj_on_def)
  moreover have "j \<in> (\<lambda>i. n - 1 - i) ` {0..<n}" if "j < n" for j
    using that by (intro image_eqI [of _ _ "n - 1 - j"]) auto
  ultimately show ?thesis by (auto simp: pool_inv_def pool_new_def slot_new_def slot_ok_def)
qed

lemma build_facts [simp]:
  "sl_owner (build now c body n s) = sl_owner s" "sl_tag (build now c body n s) = sl_tag s"
  "sl_sock (build now c body n s) = sl_sock s" "sl_state (build now c body n s) = sl_state s"
  "sl_dialed (build now c body n s) = sl_dialed s" "sl_registered (build now c body n s) = sl_registered s"
  by (simp_all add: build_def)

text \<open>
  \<open>submit\<close> by cases: the pool is exhausted, the dial failed, or a slot took the request. In the
  last two the slot is the one on top of the free list.
\<close>

definition accepted_slot :: "sock_env \<Rightarrow> config \<Rightarrow> conn_id \<Rightarrow> u64 \<Rightarrow> bytes \<Rightarrow> u32 \<Rightarrow> pool \<Rightarrow> slot" where
  "accepted_slot env c owner tag body n p =
     (let s = build (en_now env) c body n
          ((pl_slots p ! last (pl_free p))\<lparr>sl_owner := Some owner, sl_tag := tag\<rparr>)
      in case sl_sock s of
           Some _ \<Rightarrow> s\<lparr>sl_state := Sending 0\<rparr>
         | None \<Rightarrow> (case en_connect env of
              Ok fd \<Rightarrow> s\<lparr>sl_sock := Some fd, sl_state := Connecting, sl_dialed := True\<rparr>
            | Err _ \<Rightarrow> s))"

lemma submit_cases:
  obtains (exhausted) "pl_free p = []" "submit env c owner tag body n p = (Some (owner, tag, Err reset_error), p, [])"
  | (undialed) idx e s where "pl_free p \<noteq> []" "idx = last (pl_free p)" "sl_sock (pl_slots p ! idx) = None"
      "en_connect env = Err e"
      "s = (build (en_now env) c body n ((pl_slots p ! idx)\<lparr>sl_owner := Some owner, sl_tag := tag\<rparr>))\<lparr>sl_owner := None\<rparr>"
      "submit env c owner tag body n p = (Some (owner, tag, Err reset_error),
         (set_slot idx s p)\<lparr>pl_free := pl_free p\<rparr>, [])"
  | (accepted) idx s ops where "pl_free p \<noteq> []" "idx = last (pl_free p)"
      "s = fst (ensure_registered (pool_token idx) Writable (accepted_slot env c owner tag body n p))"
      "sl_sock s \<noteq> None" "busy_state (sl_state s)" "sl_owner s = Some owner" "sl_tag s = tag"
      "submit env c owner tag body n p = (None, (set_slot idx s p)\<lparr>pl_free := butlast (pl_free p)\<rparr>, ops)"
proof (cases "pl_free p = []")
  case True
  then show ?thesis using exhausted by (simp add: submit_def)
next
  case False
  define idx where "idx = last (pl_free p)"
  have fr: "butlast (pl_free p) @ [idx] = pl_free p" using False by (simp add: idx_def)
  show ?thesis
  proof (cases "sl_sock (pl_slots p ! idx) = None \<and> (\<exists>e. en_connect env = Err e)")
    case True
    then obtain e where "sl_sock (pl_slots p ! idx) = None" "en_connect env = Err e" by blast
    then show ?thesis
      using False fr by (intro undialed [OF False idx_def]) 
        (auto simp: submit_def Let_def idx_def [symmetric] dial_def set_slot_def)
  next
    case F: False
    then show ?thesis
      by (intro accepted [OF False idx_def refl, of "snd (ensure_registered (pool_token idx) Writable
            (accepted_slot env c owner tag body n p))"])
        (auto simp: accepted_slot_def Let_def idx_def [symmetric] submit_def False dial_def set_slot_def
           split: option.splits sum.splits prod.splits)
  qed
qed

lemma submit_inv [pool_inv_intros]:
  assumes inv: "pool_inv p"
  shows "pool_inv (fst (snd (submit env c owner tag body n p)))"
proof (cases rule: submit_cases [of p env c owner tag body n])
  case exhausted
  then show ?thesis using inv by simp
next
  case (undialed idx e s)
  have "idx \<in> set (pl_free p)" using undialed by simp
  then have i: "idx < length (pl_slots p)" "sl_owner (pl_slots p ! idx) = None"
    using inv by (auto simp: pool_inv_def)
  then have "slot_ok s"
    using pool_inv_nth [OF inv i(1)] undialed by (auto simp: slot_ok_def)
  then have "pool_inv (set_slot idx s p)" using undialed(5) i by (intro pool_inv_set_slot [OF inv]) auto
  moreover have "(set_slot idx s p)\<lparr>pl_free := pl_free p\<rparr> = set_slot idx s p" by (simp add: set_slot_def)
  ultimately show ?thesis by (simp only: undialed(6) fst_conv snd_conv)
next
  case (accepted idx s ops)
  have mem: "idx \<in> set (pl_free p)" using accepted by simp
  then have i: "idx < length (pl_slots p)" "sl_owner (pl_slots p ! idx) = None"
    using inv by (auto simp: pool_inv_def)
  have ok: "slot_ok s" using accepted(3-6) by (auto simp: slot_ok_def)
  have fr: "distinct (pl_free p)" "pl_free p = butlast (pl_free p) @ [idx]"
    using inv accepted(1,2) by (auto simp: pool_inv_def)
  then have fd: "distinct (butlast (pl_free p))" "set (butlast (pl_free p)) = set (pl_free p) - {idx}"
    by (metis distinct_butlast) (metis Diff_insert_absorb Un_insert_right distinct_append fr empty_set
      append_Nil2 disjoint_insert(1) list.set(2) set_append)
  have "{j. j < length (pl_slots p) \<and> sl_owner ((pl_slots p)[idx := s] ! j) = None} =
      {j. j < length (pl_slots p) \<and> sl_owner (pl_slots p ! j) = None} - {idx}"
    using accepted(6) i by (auto simp: nth_list_update split: if_splits)
  moreover have "\<forall>x \<in> set ((pl_slots p)[idx := s]). slot_ok x"
    using inv ok by (auto simp: pool_inv_def dest: set_update_subset_insert [THEN subsetD])
  ultimately show ?thesis
    using inv fd accepted(8) by (simp add: pool_inv_def)
qed

lemma abort_owner_found:
  assumes "position (\<lambda>s. sl_owner s = Some owner) (pl_slots p) = Some idx"
  shows "fst (abort_owner owner p) = (set_slot idx
      (recycled idx ((pl_slots p ! idx)\<lparr>sl_sock := None, sl_state := Disconnected\<rparr>)) p)\<lparr>pl_free := pl_free p @ [idx]\<rparr>"
proof -
  define s where "s = (pl_slots p ! idx)\<lparr>sl_sock := None, sl_state := Disconnected\<rparr>"
  have "s\<lparr>sl_owner := None\<rparr> = (pl_slots p ! idx)\<lparr>sl_owner := None, sl_sock := None, sl_state := Disconnected\<rparr>"
    by (simp add: s_def)
  then show ?thesis
    using recycle_set_slot [of idx p s] position_SomeD [OF assms]
    by (simp add: abort_owner_def assms s_def [symmetric])
qed

lemma abort_owner_inv [pool_inv_intros]:
  assumes inv: "pool_inv p"
  shows "pool_inv (fst (abort_owner owner p))"
proof (cases "position (\<lambda>s. sl_owner s = Some owner) (pl_slots p)")
  case None
  then show ?thesis using inv by (simp add: abort_owner_def)
next
  case (Some idx)
  define s where "s = (pl_slots p ! idx)\<lparr>sl_sock := None, sl_state := Disconnected\<rparr>"
  have i: "idx < length (pl_slots p)" "sl_owner (pl_slots p ! idx) = Some owner"
    using position_SomeD [OF Some] by auto
  have "slot_ok (recycled idx s)"
    using pool_inv_nth [OF inv i(1)] by (intro recycled_ok) (auto simp: s_def slot_ok_def)
  then show ?thesis
    unfolding abort_owner_found [OF Some, folded s_def] using i by (simp add: pool_inv_free_slot [OF inv])
qed

lemma b_cmd_inv [pool_inv_intros]: "pool_inv p \<Longrightarrow> pool_inv (snd (b_cmd env c x p))"
  using submit_inv [of p env c] abort_owner_inv [of p]
  by (cases x) (auto simp: b_cmd_def split_beta)

lemma b_drain_inv [pool_inv_intros]: "pool_inv p \<Longrightarrow> pool_inv (snd (b_drain c cs p))"
proof (induction c cs p rule: b_drain.induct)
  case (2 c x env cs p)
  show ?case using 2(1) [OF prod.collapse] b_cmd_inv [OF 2(2)] by (simp add: split_beta)
qed simp

lemma b_events_inv [pool_inv_intros]:
  "pool_inv p \<Longrightarrow> b_events fs es p = Ret (ds, p') \<Longrightarrow> pool_inv p'"
proof (induction es arbitrary: p ds)
  case (Cons e es)
  then show ?case
    by (auto split: if_splits rust.splits prod.splits dest: on_event_inv)
qed simp

subsection \<open>Requests are conserved\<close>

definition slot_key :: "slot \<Rightarrow> (conn_id \<times> u64) multiset" where
  "slot_key s = (case sl_owner s of None \<Rightarrow> {#} | Some owner \<Rightarrow> {#(owner, sl_tag s)#})"

text \<open>The requests a pool holds: owner and tag of every owned slot.\<close>

definition outstanding :: "pool \<Rightarrow> (conn_id \<times> u64) multiset" where
  "outstanding p = sum_list (map slot_key (pl_slots p))"

definition done_keys :: "done_msg list \<Rightarrow> (conn_id \<times> u64) multiset" where
  "done_keys ds = mset (map (\<lambda>(owner, tag, _). (owner, tag)) ds)"

fun done_list :: "done_msg option \<Rightarrow> done_msg list" where
  "done_list None = []"
| "done_list (Some d) = [d]"

lemma done_keys_simps [simp]:
  "done_keys [] = {#}" "done_keys ((owner, tag, r) # ds) = add_mset (owner, tag) (done_keys ds)"
  "done_keys (ds @ ds') = done_keys ds + done_keys ds'"
  by (simp_all add: done_keys_def)

lemma sum_list_update_mset:
  fixes f :: "'a \<Rightarrow> 'b multiset"
  shows "i < length xs \<Longrightarrow> sum_list (map f (xs[i := x])) + f (xs ! i) = sum_list (map f xs) + f x"
proof (induction xs arbitrary: i)
  case (Cons y ys)
  show ?case
  proof (cases i)
    case (Suc j)
    then have "sum_list (map f (ys[j := x])) + f (ys ! j) = sum_list (map f ys) + f x"
      using Cons by simp
    then show ?thesis by (simp add: Suc add.assoc)
  qed (simp add: ac_simps)
qed simp

lemma outstanding_set_slot:
  "i < length (pl_slots p) \<Longrightarrow>
     outstanding (set_slot i s p) + slot_key (pl_slots p ! i) = outstanding p + slot_key s"
  by (simp add: outstanding_def sum_list_update_mset)

lemma outstanding_free [simp]: "outstanding (p\<lparr>pl_free := f\<rparr>) = outstanding p"
  by (simp add: outstanding_def)

lemma slot_key_None [simp]: "sl_owner s = None \<Longrightarrow> slot_key s = {#}"
  by (simp add: slot_key_def)

lemma submit_conserves:
  assumes inv: "pool_inv p" and "submit env c owner tag body n p = (d, p', ops)"
  shows "outstanding p' + done_keys (done_list d) = outstanding p + {#(owner, tag)#}"
proof (cases rule: submit_cases [of p env c owner tag body n])
  case exhausted
  then show ?thesis using assms(2) by auto
next
  case (undialed idx e s)
  then have "idx \<in> set (pl_free p)" by simp
  then have i: "idx < length (pl_slots p)" "sl_owner (pl_slots p ! idx) = None"
    using inv by (auto simp: pool_inv_def)
  then have "outstanding (set_slot idx s p) = outstanding p"
    using outstanding_set_slot [OF i(1), of s] undialed(5) by simp
  then show ?thesis using assms(2) undialed(6) by auto
next
  case (accepted idx s ops')
  then have "idx \<in> set (pl_free p)" by simp
  then have i: "idx < length (pl_slots p)" "sl_owner (pl_slots p ! idx) = None"
    using inv by (auto simp: pool_inv_def)
  then have "outstanding (set_slot idx s p) = outstanding p + {#(owner, tag)#}"
    using outstanding_set_slot [OF i(1), of s] accepted(6,7) by (simp add: slot_key_def)
  then show ?thesis using assms(2) accepted(8) by auto
qed

text \<open>How \<open>on_event\<close> changes one slot, by what it reports.\<close>

lemma on_event_key:
  assumes inv: "pool_inv p" and ev: "on_event fs env idx w p = Ret (d, p', ops)"
  obtains s where "idx < length (pl_slots p)" "pl_slots p' = (pl_slots p)[idx := s]"
    "slot_key s + done_keys (done_list d) = slot_key (pl_slots p ! idx)"
proof -
  note goal = that
  define s where "s = pl_slots p ! idx"
  have idx: "idx < length (pl_slots p)" using ev by (auto simp: on_event_def split: if_splits)
  have ok: "slot_ok s" using pool_inv_nth [OF inv idx] by (simp add: s_def)
  obtain st s' where dr: "drive fs env w s = Ret (st, s')"
    using ev idx by (auto simp: on_event_def s_def split: rust.splits)
  note post = drive_ok [OF ok dr]
  have own: "sl_owner s' = sl_owner s" "sl_tag s' = sl_tag s" using post by (auto simp: drive_post_def)
  have rec: thesis if "fst (recycle idx (set_slot idx (s'\<lparr>sl_owner := None\<rparr>) p)) = p'"
    and "d = map_option (\<lambda>owner. (owner, sl_tag s', r)) (sl_owner s')" for r
    using that recycle_set_slot [OF idx, of s'] own
    by (intro goal [of "recycled idx s'"]) (auto simp: idx slot_key_def s_def split: option.splits)
  have keep: thesis if "p' = set_slot idx (fst (ensure_registered t i s1)) p" and "d = None"
      and "sl_owner s1 = sl_owner s'" and "sl_tag s1 = sl_tag s'" for t i s1
    using that own by (intro goal [of "fst (ensure_registered t i s1)"])
      (auto simp: idx slot_key_def s_def split: option.splits)
  show ?thesis
  proof (cases st)
    case (Pending b)
    then show ?thesis using ev idx dr
      by (intro keep [of "pool_token idx" "if b then Writable else Readable" s'])
        (auto simp: on_event_def s_def [symmetric] split: prod.splits)
  next
    case (Done r)
    then show ?thesis using ev idx dr
      by (intro rec [of r]) (auto simp: on_event_def s_def [symmetric] split: prod.splits)
  next
    case Redial
    show ?thesis
    proof (cases "dial (en_connect env) s'")
      case (Inl e)
      then show ?thesis using ev idx dr Redial
        by (intro rec [of "Err reset_error"]) (auto simp: on_event_def s_def [symmetric] split: prod.splits)
    next
      case (Inr s1)
      then show ?thesis using ev idx dr Redial
        by (intro keep [of "pool_token idx" Writable s1])
          (auto simp: on_event_def s_def [symmetric] dial_def split: prod.splits sum.splits)
    qed
  qed
qed

lemma on_event_conserves:
  assumes "pool_inv p" and "on_event fs env idx w p = Ret (d, p', ops)"
  shows "outstanding p' + done_keys (done_list d) = outstanding p"
proof -
  obtain s where s: "idx < length (pl_slots p)" "pl_slots p' = (pl_slots p)[idx := s]"
    "slot_key s + done_keys (done_list d) = slot_key (pl_slots p ! idx)"
    using on_event_key [OF assms] .
  have "outstanding p' + slot_key (pl_slots p ! idx) = outstanding p + slot_key s"
    using sum_list_update_mset [OF s(1), of slot_key s] by (simp add: outstanding_def s(2))
  then have "outstanding p' + done_keys (done_list d) + slot_key s = outstanding p + slot_key s"
    by (simp add: s(3) [symmetric] ac_simps)
  then show ?thesis by simp
qed

lemma abort_owner_conserves:
  assumes "pool_inv p"
  shows "outstanding (fst (abort_owner owner p)) +
           (case position (\<lambda>s. sl_owner s = Some owner) (pl_slots p) of
              None \<Rightarrow> {#} | Some i \<Rightarrow> {#(owner, sl_tag (pl_slots p ! i))#}) = outstanding p"
proof (cases "position (\<lambda>s. sl_owner s = Some owner) (pl_slots p)")
  case None
  then show ?thesis by (simp add: abort_owner_def)
next
  case (Some idx)
  define s where "s = (pl_slots p ! idx)\<lparr>sl_sock := None, sl_state := Disconnected\<rparr>"
  have i: "idx < length (pl_slots p)" "sl_owner (pl_slots p ! idx) = Some owner"
    using position_SomeD [OF Some] by auto
  show ?thesis
    unfolding abort_owner_found [OF Some, folded s_def]
    using outstanding_set_slot [OF i(1), of "recycled idx s"] i(2) by (simp add: Some slot_key_def)
qed

definition submitted :: "(cmd \<times> sock_env) list \<Rightarrow> (conn_id \<times> u64) multiset" where
  "submitted cs = sum_list (map (\<lambda>(c, _). case c of Submit owner tag _ _ \<Rightarrow> {#(owner, tag)#} | Abort _ \<Rightarrow> {#}) cs)"

definition no_abort :: "(cmd \<times> sock_env) list \<Rightarrow> bool" where
  "no_abort cs \<longleftrightarrow> list_all (\<lambda>(c, _). case c of Abort _ \<Rightarrow> False | _ \<Rightarrow> True) cs"

lemma done_keys_case: "done_keys (case d of None \<Rightarrow> ds | Some x \<Rightarrow> x # ds) = done_keys (done_list d) + done_keys ds"
  by (cases d) auto

lemma mset_chain:
  fixes q :: "'a multiset"
  assumes "p + k = q"
  shows "x + y = p + r \<Longrightarrow> x + (k + y) = q + r"
    and "x + y \<subseteq># p + r \<Longrightarrow> x + (k + y) \<subseteq># q + r"
proof -
  have e: "x + (k + y) = x + y + k" "q + r = p + r + k" using assms by (simp_all add: ac_simps)
  show "x + y = p + r \<Longrightarrow> x + (k + y) = q + r" unfolding e by simp
  show "x + y \<subseteq># p + r \<Longrightarrow> x + (k + y) \<subseteq># q + r" unfolding e by simp
qed

lemma submitted_Cons: "submitted ((Submit owner tag body n, env) # cs) = {#(owner, tag)#} + submitted cs"
  "submitted ((Abort owner, env) # cs) = submitted cs"
  by (simp_all add: submitted_def)

lemma no_abort_Cons: "no_abort ((Submit owner tag body n, env) # cs) = no_abort cs"
  "\<not> no_abort ((Abort owner, env) # cs)"
  by (simp_all add: no_abort_def)

lemma b_events_conserves:
  "pool_inv p \<Longrightarrow> b_events fs es p = Ret (ds, p') \<Longrightarrow> outstanding p' + done_keys ds = outstanding p"
proof (induction es arbitrary: p ds)
  case (Cons e es)
  show ?case
  proof (cases "be_token e = B_WAKE")
    case True
    then show ?thesis using Cons by simp
  next
    case False
    then obtain d p1 ops ds1 where 1: "on_event fs (be_env e) (pool_slot (be_token e)) (be_writable e) p = Ret (d, p1, ops)"
      and 2: "b_events fs es p1 = Ret (ds1, p')" and ds: "ds = (case d of None \<Rightarrow> ds1 | Some x \<Rightarrow> x # ds1)"
      using Cons.prems(2) by (auto split: rust.splits prod.splits)
    have "outstanding p' + done_keys ds1 = outstanding p1"
      using Cons.IH [OF on_event_inv [OF Cons.prems(1) 1] 2] .
    with mset_chain(1) [OF on_event_conserves [OF Cons.prems(1) 1], where r = "{#}"]
    show ?thesis by (simp only: ds done_keys_case add_0_right)
  qed
qed simp

lemma b_drain_conserves:
  "pool_inv p \<Longrightarrow> b_drain c cs p = (ds, p') \<Longrightarrow>
     outstanding p' + done_keys ds \<subseteq># outstanding p + submitted cs \<and>
     (no_abort cs \<longrightarrow> outstanding p' + done_keys ds = outstanding p + submitted cs)"
proof (induction cs arbitrary: p ds)
  case (Cons x cs)
  obtain cm env where x: "x = (cm, env)" by (cases x)
  obtain d p1 where 1: "b_cmd env c cm p = (d, p1)" by (cases "b_cmd env c cm p")
  obtain ds1 where 2: "b_drain c cs p1 = (ds1, p')" and ds: "ds = (case d of None \<Rightarrow> ds1 | Some x \<Rightarrow> x # ds1)"
    using Cons.prems(2) by (auto simp: x 1 split: prod.splits)
  have "pool_inv p1" using b_cmd_inv [OF Cons.prems(1), of env c cm] by (simp add: 1)
  note IH = Cons.IH [OF this 2]
  show ?case
  proof (cases cm)
    case (Submit owner tag body n)
    then obtain ops where "submit env c owner tag body n p = (d, p1, ops)"
      using 1 by (auto simp: b_cmd_def split: prod.splits)
    from mset_chain [OF submit_conserves [OF Cons.prems(1) this], where r = "submitted cs"] IH
    show ?thesis
      unfolding ds done_keys_case x Submit submitted_Cons no_abort_Cons by (simp add: add.assoc)
  next
    case (Abort owner)
    then have d: "d = None" "p1 = fst (abort_owner owner p)" using 1 by (auto simp: b_cmd_def)
    have "outstanding p1 \<subseteq># outstanding p"
      using abort_owner_conserves [OF Cons.prems(1), of owner] unfolding d(2) by (metis mset_subset_eq_add_left)
    then have "outstanding p1 + submitted cs \<subseteq># outstanding p + submitted cs" by simp
    with IH show ?thesis
      unfolding ds done_keys_case x Abort submitted_Cons
      by (auto simp: d(1) no_abort_Cons intro: subset_mset.order_trans)
  qed
qed (simp add: submitted_def)

subsection \<open>When the thread panics\<close>

lemma run_receiving_panic:
  "sl_sock s \<noteq> None \<Longrightarrow> parse_response fs (snd (recv_loop (en_reads env) (sl_resp s))) \<noteq> Panic \<Longrightarrow>
     run_receiving fs env s \<noteq> Panic"
  by (auto simp: run_receiving_def Let_def split: prod.splits option.splits rust.splits sum.splits)

lemma run_sending_panic:
  "sl_sock s \<noteq> None \<Longrightarrow> parse_response fs (snd (recv_loop (en_reads env) (sl_resp s))) \<noteq> Panic \<Longrightarrow>
     run_sending fs env off s \<noteq> Panic"
  using run_receiving_panic [of "s\<lparr>sl_state := Receiving\<rparr>" fs env]
  by (auto simp: run_sending_def split: send_result.splits)

lemma slot_run_panic:
  "sl_sock s \<noteq> None \<Longrightarrow> parse_response fs (snd (recv_loop (en_reads env) (sl_resp s))) \<noteq> Panic \<Longrightarrow>
     slot_run fs env w s \<noteq> Panic"
  using run_receiving_panic [of s fs env] run_sending_panic [of s fs env]
    run_sending_panic [of "s\<lparr>sl_state := Sending 0\<rparr>" fs env]
  by (auto simp: slot_run_def split: slot_state.splits sum.splits option.splits list.splits io_read.splits)

text \<open>
  C27: the event handler cannot panic. For an event of a slot that has a socket, \<open>on_event\<close> returns,
  unless the bytes received so far make \<open>parse_response\<close> itself panic (see the next property), and
  the pool it returns satisfies the invariant again.
\<close>

theorem on_event_total:
  assumes "pool_inv p" and "idx < length (pl_slots p)" and "sl_sock (pl_slots p ! idx) \<noteq> None"
    and "parse_response fs (snd (recv_loop (en_reads env) (sl_resp (pl_slots p ! idx)))) \<noteq> Panic"
  shows "\<exists>d p' ops. on_event fs env idx w p = Ret (d, p', ops) \<and> pool_inv p'"
proof -
  have "slot_run fs env w (pl_slots p ! idx) \<noteq> Panic" using assms(3,4) by (rule slot_run_panic)
  then have "drive fs env w (pl_slots p ! idx) \<noteq> Panic"
    by (auto simp: drive_def split: rust.splits prod.splits sum.splits)
  then obtain st s where "drive fs env w (pl_slots p ! idx) = Ret (st, s)"
    by (cases "drive fs env w (pl_slots p ! idx)") auto
  then have "on_event fs env idx w p \<noteq> Panic"
    using assms(2) by (auto simp: on_event_def split: step.splits sum.splits prod.splits)
  then obtain d p' ops where "on_event fs env idx w p = Ret (d, p', ops)"
    by (cases "on_event fs env idx w p") auto
  with on_event_inv [OF assms(1) this] show ?thesis by blast
qed

definition env_blocked :: sock_env where
  "env_blocked = \<lparr>en_now = 0, en_take_error = Ok None, en_peer_ok = True, en_writes = [], en_reads = [],
     en_connect = Ok 7\<rparr>"

definition example_config :: config where
  "example_config = from_env (\<lambda>_. None)"

definition example_pool :: pool where
  "example_pool = fst (snd (submit env_blocked example_config 5 1 [1, 2] 4 (pool_new 0 2)))"

lemma example_pool_inv: "pool_inv example_pool"
  by (simp add: example_pool_def submit_inv pool_new_inv)

lemma example_pool_facts:
  "length (pl_slots example_pool) = 2" "sl_sock (pl_slots example_pool ! 0) = Some 7"
  "sl_resp (pl_slots example_pool ! 0) = []"
  by (simp_all add: example_pool_def submit_def pool_new_def Let_def slot_new_def env_blocked_def dial_def
      ensure_registered_def set_slot_def build_def upt_conv_Cons)

theorem on_event_total_witness:
  "\<exists>d p' ops. on_event (\<lambda>_. Err ''x'') env_blocked 0 True example_pool = Ret (d, p', ops) \<and> pool_inv p'"
  by (rule on_event_total)
    (simp_all add: example_pool_inv example_pool_facts env_blocked_def parse_response_def CRLFCRLF_def)

text \<open>\<open>parse_response\<close> on a buffer whose head is complete, with the end of the body as a number.\<close>

definition response_value ::
  "(bytes \<Rightarrow> (infer_response, string) result) \<Rightarrow> u16 \<Rightarrow> bytes \<Rightarrow> (infer_response, parse_err) result" where
  "response_value fs status body =
     (if \<not> (200 \<le> status \<and> status < 300)
      then Err (InferenceRequest, fst (classify_status status),
             ''inference returned status '' @ dec (unat status), Some status)
      else (case fs body of
              Ok infer \<Rightarrow> Ok infer
            | Err e \<Rightarrow> Err (InferenceResponseParse, ParseError, e, Some status)))"

lemma parse_response_head:
  assumes "find_sub CRLFCRLF buf = Some pos" and "from_utf8 (take (pos + 4) buf) = Some head"
    and "length buf < 2 ^ 64" and "cl = content_len_of (tl (split_str CRLF head))"
  shows "parse_response fs buf =
     (if 2 ^ 64 \<le> pos + 4 + unat cl then Panic
      else if length buf < pos + 4 + unat cl then Ret None
      else Ret (Some (response_value fs (status_of (split_str CRLF head))
             (take (unat cl) (drop (pos + 4) buf)))))"
proof -
  define stop where "stop = (of_nat (pos + 4) + cl :: u64)"
  have pos: "pos + 4 \<le> length buf" using find_sub_SomeD [OF assms(1)] by (simp add: CRLFCRLF_def)
  have cl: "unat cl < 2 ^ 64" using unsigned_less [of cl] by simp
  have st: "unat stop = (pos + 4 + unat cl) mod 2 ^ 64"
    by (simp only: stop_def unat_word_ariths unat_of_nat) (simp add: mod_simps)
  have "parse_response fs buf =
      (if length buf < unat stop then Ret None
       else if unat stop < pos + 4 then Panic
       else Ret (Some (response_value fs (status_of (split_str CRLF head))
              (take (unat stop - (pos + 4)) (drop (pos + 4) buf)))))"
    unfolding parse_response_def assms(1,2) option.case Let_def assms(4) [symmetric] stop_def [symmetric]
      response_value_def by (simp split: sum.splits)
  also have "\<dots> = (if 2 ^ 64 \<le> pos + 4 + unat cl then Panic
      else if length buf < pos + 4 + unat cl then Ret None
      else Ret (Some (response_value fs (status_of (split_str CRLF head))
             (take (unat cl) (drop (pos + 4) buf)))))"
  proof (cases "pos + 4 + unat cl < 2 ^ 64")
    case True
    then have "unat stop = pos + 4 + unat cl" using st by simp
    then show ?thesis using True by simp
  next
    case False
    then have "unat stop = pos + 4 + unat cl - 2 ^ 64"
      using cl pos assms(3) st by (simp add: mod_if)
    then have "\<not> length buf < unat stop" "unat stop < pos + 4" using False cl pos by auto
    then show ?thesis using False by simp
  qed
  finally show ?thesis .
qed

text \<open>
  C32: the one input that makes thread B panic. On a buffer of less than \<open>2 ^ 64\<close> bytes,
  \<open>parse_response\<close> panics if and only if the head is complete and valid UTF-8 and its
  \<open>Content-Length\<close> is so large that the end of the body does not fit in 64 bits.
\<close>

theorem parse_response_panics:
  assumes "length buf < 2 ^ 64"
  shows "parse_response fs buf = Panic \<longleftrightarrow>
     (\<exists>pos head. find_sub CRLFCRLF buf = Some pos \<and> from_utf8 (take (pos + 4) buf) = Some head \<and>
        2 ^ 64 \<le> pos + 4 + unat (content_len_of (tl (split_str CRLF head))))"
proof (cases "find_sub CRLFCRLF buf")
  case None
  then show ?thesis by (simp add: parse_response_def)
next
  case pos: (Some pos)
  show ?thesis
  proof (cases "from_utf8 (take (pos + 4) buf)")
    case None
    then show ?thesis using pos by (simp add: parse_response_def Let_def)
  next
    case (Some head)
    then show ?thesis using parse_response_head [OF pos Some assms refl] pos by simp
  qed
qed

subsection \<open>Reading a response\<close>

lemma content_len_of_blank: "content_len_of (hs @ [[], []]) = content_len_of hs"
proof -
  have "split_once '':'' [] = None" by (simp add: split_once_def)
  then show ?thesis by (simp add: content_len_of_def find_map_append split: option.splits)
qed

lemma http_response_lines:
  assumes "list_all line_ok (l # hs)"
  shows "split_str CRLF (http_head (l # hs)) = l # hs @ [[], []]" and "4 \<le> length (http_head (l # hs))"
  using split_http_head_full [OF assms] length_http_head_ge [OF assms] by simp_all

lemma http_response_head:
  assumes "list_all line_ok (l # hs)"
  shows "find_sub CRLFCRLF (as_bytes (http_head (l # hs)) @ body) = Some (length (http_head (l # hs)) - 4)"
    and "from_utf8 (take (length (http_head (l # hs)) - 4 + 4) (as_bytes (http_head (l # hs)) @ body)) =
           Some (http_head (l # hs))"
  using find_head_end [OF assms] http_response_lines(2) [OF assms]
    from_utf8_ascii [OF ascii_http_head [OF assms]] by simp_all

lemma status_of_Cons: "status_of (l # ls @ [[], []]) = status_of [l]"
  by (simp add: status_of_def)

theorem parse_response_panics_witness:
  "parse_response (\<lambda>_. Err ''x'')
     (as_bytes (http_head [''HTTP/1.1 200 OK'', ''content-length: 18446744073709551615''])) = Panic"
proof -
  define ls where "ls = [''HTTP/1.1 200 OK'', ''content-length: 18446744073709551615'']"
  have "list_all line_ok ls" by (simp add: ls_def line_ok_def)
  note h = http_response_head [OF this [unfolded ls_def], of "[]", folded ls_def]
    http_response_lines [OF this [unfolded ls_def], folded ls_def]
  have "content_len_of [''content-length: 18446744073709551615''] = 18446744073709551615"
    by (simp add: content_len_of_def split_once_def trim_visible visible_def eq_ignore_ascii_case_def
      parse_u64_def parse_uint_def digit_val_def)
  then have "unat (content_len_of (tl (split_str CRLF (http_head ls)))) = 18446744073709551615"
    using h(3) content_len_of_blank [of "[''content-length: 18446744073709551615'']"] by simp
  moreover have "length (as_bytes (http_head ls)) < 2 ^ 64"
    by (simp add: ls_def http_head_def CRLF_def)
  ultimately show ?thesis
    unfolding ls_def [symmetric]
    using parse_response_panics [of "as_bytes (http_head ls)" "\<lambda>_. Err ''x''"] h by auto
qed

lemma recv_loop_chunks:
  "\<forall>c \<in> set cs. c \<noteq> [] \<Longrightarrow> recv_loop (map Rd cs) resp = (None, resp @ concat cs)"
  by (induction cs arbitrary: resp) auto

text \<open>A complete head followed by some of the body, or by all of it.\<close>

lemma parse_response_body:
  assumes ok: "list_all line_ok (l # hs)" and cl: "content_len_of hs = of_nat n"
    and len: "length (http_head (l # hs)) + n < 2 ^ 64" and b: "length body \<le> n"
  shows "parse_response fs (as_bytes (http_head (l # hs)) @ body) =
           (if length body < n then Ret None else Ret (Some (response_value fs (status_of [l]) body)))"
proof -
  define H where "H = http_head (l # hs)"
  note h = http_response_head [OF ok, of body, folded H_def]
  have ge: "length H - 4 + 4 = length H" using http_response_lines(2) [OF ok] by (simp add: H_def)
  have sp: "split_str CRLF H = l # hs @ [[], []]" using http_response_lines(1) [OF ok] by (simp add: H_def)
  have c: "of_nat n = content_len_of (tl (split_str CRLF H))" by (simp add: sp content_len_of_blank cl)
  have "n < 2 ^ 64" using len by simp
  then have u: "unat (of_nat n :: u64) = n" by (simp add: unat_of_nat)
  have "length (as_bytes H @ body) < 2 ^ 64" using len b by (simp add: H_def)
  from parse_response_head [OF h this c, of fs]
  have "parse_response fs (as_bytes H @ body) =
      (if 2 ^ 64 \<le> length H + n then Panic
       else if length (as_bytes H @ body) < length H + n then Ret None
       else Ret (Some (response_value fs (status_of [l]) (take n (drop (length H) (as_bytes H @ body))))))"
    by (simp only: ge u sp status_of_Cons)
  then show ?thesis using len b unfolding H_def [symmetric] by simp
qed

lemma parse_response_prefix:
  assumes "list_all line_ok (l # hs)" and "content_len_of hs = of_nat (length body)"
    and "length (http_head (l # hs)) + length body < 2 ^ 64"
    and "as_bytes (http_head (l # hs)) @ body = xs @ ys" and "ys \<noteq> []"
  shows "parse_response fs xs = Ret None"
proof (cases "length (http_head (l # hs)) \<le> length xs")
  case False
  then have "take (length xs) (as_bytes (http_head (l # hs))) = xs"
    using assms(4) by (simp add: append_eq_append_conv_if)
  then have "as_bytes (http_head (l # hs)) = xs @ drop (length xs) (as_bytes (http_head (l # hs)))"
    by (metis append_take_drop_id)
  from head_incomplete [OF assms(1) _ this] False have "find_sub CRLFCRLF xs = None" by simp
  then show ?thesis by (simp add: parse_response_def)
next
  case True
  define zs where "zs = drop (length (http_head (l # hs))) xs"
  have "as_bytes (http_head (l # hs)) = take (length (http_head (l # hs))) xs" and b: "body = zs @ ys"
    using True assms(4) by (simp_all add: append_eq_append_conv_if zs_def)
  then have xs: "xs = as_bytes (http_head (l # hs)) @ zs" by (simp add: zs_def)
  have "length zs < length body" using b assms(5) by (cases ys) auto
  then show ?thesis using parse_response_body [OF assms(1,2,3), of zs fs] by (simp add: xs)
qed

text \<open>
  C28: a response is read correctly however TCP cuts it. With a \<open>Content-Length\<close> that is the length of
  the body, a slot that waits for a response keeps waiting, asking for readability, as long as
  part of the response is missing, and with the last byte finishes with the decoded body.
\<close>

theorem response_any_split:
  assumes "list_all line_ok (l # hs)" and "content_len_of hs = of_nat (length body)"
    and "length (http_head (l # hs)) + length body < 2 ^ 64"
    and "200 \<le> status_of [l]" and "status_of [l] < 300" and "fs body = Ok infer"
    and "as_bytes (http_head (l # hs)) @ body = concat before @ concat after"
    and "list_all (\<lambda>c. c \<noteq> []) (before @ after)" and "after \<noteq> []"
    and "sl_state s = Receiving" and "sl_sock s \<noteq> None" and "sl_resp s = []"
    and "en_reads env1 = map Rd before" and "en_reads env2 = map Rd after"
  shows "\<exists>s1 s2. slot_run fs env1 w s = Ret (Ok (Pending False), s1) \<and>
           slot_run fs env2 w s1 = Ret (Ok (Done (Ok infer)), s2) \<and> sl_state s2 = Idle"
proof -
  have ne: "\<forall>c \<in> set before. c \<noteq> []" "\<forall>c \<in> set after. c \<noteq> []" "concat after \<noteq> []"
    using assms(8,9) by (auto simp: list_all_iff neq_Nil_conv)
  define s1 where "s1 = s\<lparr>sl_resp := concat before\<rparr>"
  have "parse_response fs (concat before) = Ret None"
    using parse_response_prefix [OF assms(1-3) assms(7) ne(3)] .
  then have 1: "slot_run fs env1 w s = Ret (Ok (Pending False), s1)"
    using assms(10-12) by (simp add: slot_run_def run_receiving_def assms(13) recv_loop_chunks [OF ne(1)] s1_def)
  have "parse_response fs (concat before @ concat after) = Ret (Some (Ok infer))"
    using parse_response_body [OF assms(1-3), of body fs] assms(4-6)
    by (simp add: assms(7) [symmetric] response_value_def)
  then have "slot_run fs env2 w s1 =
      Ret (Ok (Done (Ok infer)), s1\<lparr>sl_resp := concat before @ concat after, sl_state := Idle\<rparr>)"
    using assms(10,11) by (simp add: slot_run_def run_receiving_def assms(14) recv_loop_chunks [OF ne(2)] s1_def)
  with 1 show ?thesis by force
qed

definition example_infer :: infer_response where
  "example_infer = \<lparr>ir_rms = f64_zero, ir_zero_crossings = 0, ir_checksum = 0, ir_samples = 2, ir_transcript = ''the'',
     ir_audio_bytes = 4\<rparr>"

definition example_receiving :: slot where
  "example_receiving = (slot_new 0)\<lparr>sl_sock := Some 7, sl_owner := Some 5, sl_tag := 1, sl_state := Receiving\<rparr>"

lemma example_content_length: "content_len_of [''content-length: 2''] = 2"
  by (simp add: content_len_of_def split_once_def trim_visible visible_def eq_ignore_ascii_case_def
      parse_u64_def parse_uint_def digit_val_def)

lemma example_status: "status_of [''HTTP/1.1 200 OK''] = 200"
proof -
  have "split_str '' '' ''HTTP/1.1 200 OK'' = ''HTTP/1.1'' # split_str '' '' ''200 OK''"
    using split_str_space [of "''HTTP/1.1''" "''200 OK''"] by simp
  also have "split_str '' '' ''200 OK'' = ''200'' # split_str '' '' ''OK''"
    using split_str_space [of "''200''" "''OK''"] by simp
  finally have "nth_opt 1 (split_str '' '' ''HTTP/1.1 200 OK'') = Some ''200''" by (simp add: nth_opt_def)
  moreover have "parse_u16 ''200'' = Some 200"
    by (simp add: parse_u16_def parse_uint_def digit_val_def)
  ultimately show ?thesis by (simp add: status_of_def)
qed

theorem response_any_split_witness:
  "\<exists>s1 s2. slot_run (\<lambda>_. Ok example_infer)
       (env_blocked\<lparr>en_reads := map Rd [as_bytes (http_head [''HTTP/1.1 200 OK'', ''content-length: 2''])]\<rparr>)
       False example_receiving = Ret (Ok (Pending False), s1) \<and>
     slot_run (\<lambda>_. Ok example_infer) (env_blocked\<lparr>en_reads := map Rd [[123, 125]]\<rparr>) False s1 =
       Ret (Ok (Done (Ok example_infer)), s2) \<and> sl_state s2 = Idle"
  by (rule response_any_split [where l = "''HTTP/1.1 200 OK''" and hs = "[''content-length: 2'']"
        and body = "[123, 125]" and before = "[as_bytes (http_head [''HTTP/1.1 200 OK'', ''content-length: 2''])]"
        and after = "[[123, 125]]"])
    (simp_all add: example_content_length example_status example_receiving_def slot_new_def,
     simp_all add: line_ok_def http_head_def CRLF_def as_bytes_def)



text \<open>
  C33: how a non-2xx answer of the inference server is reported. The slot finishes with an error of
  the kind \<open>classify_status\<close> assigns and with the status, and always marks it retryable: the flag
  that \<open>classify_status\<close> computes, false for a 4xx other than 429, is not what is reported.
\<close>

theorem error_status_reported:
  assumes "list_all line_ok (l # hs)" and "content_len_of hs = of_nat (length body)"
    and "length (http_head (l # hs)) + length body < 2 ^ 64"
    and "\<not> (200 \<le> status_of [l] \<and> status_of [l] < 300)"
    and "sl_state s = Receiving" and "sl_sock s \<noteq> None" and "sl_resp s = []"
    and "en_reads env = [Rd (as_bytes (http_head (l # hs)) @ body)]"
  shows "\<exists>e s'. slot_run fs env w s = Ret (Ok (Done (Err e)), s') \<and>
           ie_kind e = fst (classify_status (status_of [l])) \<and> ie_status e = Some (status_of [l]) \<and>
           ie_retryable e"
proof -
  have "as_bytes (http_head (l # hs)) @ body \<noteq> []" by (simp add: http_head_def as_bytes_def CRLF_def)
  then have r: "recv_loop (en_reads env) [] = (None, as_bytes (http_head (l # hs)) @ body)"
    by (simp only: assms(8) recv_loop.simps if_False append_Nil)
  have "parse_response fs (as_bytes (http_head (l # hs)) @ body) =
      Ret (Some (response_value fs (status_of [l]) body))"
    using parse_response_body [OF assms(1-3), of body fs] by simp
  moreover have "fst (classify_status (status_of [l])) \<noteq> ParseError"
    by (simp add: classify_status_def)
  ultimately show ?thesis
    using assms(4-7) r
    by (simp add: slot_run_def run_receiving_def response_value_def kind_retryable_def)
qed

lemma example_status_404: "status_of [''HTTP/1.1 404 Not Found''] = 404"
proof -
  have "split_str '' '' ''HTTP/1.1 404 Not Found'' = ''HTTP/1.1'' # split_str '' '' ''404 Not Found''"
    using split_str_space [of "''HTTP/1.1''" "''404 Not Found''"] by simp
  also have "split_str '' '' ''404 Not Found'' = ''404'' # split_str '' '' ''Not Found''"
    using split_str_space [of "''404''" "''Not Found''"] by simp
  finally have "nth_opt 1 (split_str '' '' ''HTTP/1.1 404 Not Found'') = Some ''404''" by (simp add: nth_opt_def)
  moreover have "parse_u16 ''404'' = Some 404"
    by (simp add: parse_u16_def parse_uint_def digit_val_def)
  ultimately show ?thesis by (simp add: status_of_def)
qed

theorem error_status_reported_witness:
  "\<exists>e s'. slot_run (\<lambda>_. Err ''x'')
       (env_blocked\<lparr>en_reads := [Rd (as_bytes (http_head [''HTTP/1.1 404 Not Found'', ''content-length: 2'']) @ [1, 2])]\<rparr>)
       False example_receiving = Ret (Ok (Done (Err e)), s') \<and>
     ie_kind e = fst (classify_status 404) \<and> ie_status e = Some 404 \<and> ie_retryable e \<and>
     \<not> snd (classify_status 404)"
proof -
  have "\<not> snd (classify_status 404)" by (simp add: classify_status_def)
  moreover have "list_all line_ok [''HTTP/1.1 404 Not Found'', ''content-length: 2'']" by (simp add: line_ok_def)
  moreover have "length (http_head [''HTTP/1.1 404 Not Found'', ''content-length: 2'']) + length [1, 2 :: u8] < 2 ^ 64"
    by (simp add: http_head_def CRLF_def)
  ultimately show ?thesis
    using error_status_reported [where l = "''HTTP/1.1 404 Not Found''" and hs = "[''content-length: 2'']"
        and body = "[1, 2]" and s = example_receiving and w = False and fs = "\<lambda>_. Err ''x''"
        and env = "env_blocked\<lparr>en_reads := [Rd (as_bytes (http_head [''HTTP/1.1 404 Not Found'', ''content-length: 2'']) @ [1, 2])]\<rparr>"]
    by (simp add: example_status_404 example_content_length example_receiving_def slot_new_def)
qed

end
