(* ===== verification/Sync_Http.thy ===== *)
theory Sync_Http
  imports Rust_Io
begin

text \<open>
  The non-blocking upgrade handshake of the rust-sync gateway, \<open>services/rust-sync/src/http.rs\<close>.
  \<open>derive_accept_key\<close> is tungstenite's and so a parameter. The bytes of the \<open>write_all\<close> calls are
  returned as a list; \<open>wr\<close> is the result of the one \<open>write_all\<close> whose error is propagated.
\<close>

definition MAX_HEADER_BYTES :: nat where
  "MAX_HEADER_BYTES = 16 * 1024"

datatype route = Route_WebSocket | Route_Handled | Route_NeedMore

definition find_double_crlf :: "bytes \<Rightarrow> nat option" where
  "find_double_crlf buf = find_sub CRLFCRLF buf"

definition header :: "string list \<Rightarrow> string \<Rightarrow> string option" where
  "header lines name =
     find_map (\<lambda>line. case split_once '':'' line of
         None \<Rightarrow> None
       | Some (k, v) \<Rightarrow> if eq_ignore_ascii_case (trim k) name then Some (trim v) else None) lines"

definition write_simple :: "u16 \<Rightarrow> string \<Rightarrow> bytes" where
  "write_simple code reason =
     as_bytes (''HTTP/1.1 '' @ dec (unat code) @ '' '' @ reason @ CRLF @
       ''Content-Length: 0'' @ CRLF @ ''Connection: close'' @ CRLF @ CRLF)"

text \<open>The read loop: drains the socket into \<open>buf\<close>, up to an error or \<open>WouldBlock\<close>.\<close>

fun feed_read :: "io_read list \<Rightarrow> bytes \<Rightarrow> io_error option \<times> bytes \<times> io_read list" where
  "feed_read [] buf = (None, buf, [])"
| "feed_read (Rd bs # rs) buf =
     (if bs = [] then (Some UnexpectedEof, buf, rs)
      else if MAX_HEADER_BYTES < length (buf @ bs)
        then (Some (Io_message ''request head too large''), buf @ bs, rs)
      else feed_read rs (buf @ bs))"
| "feed_read (Rd_err e # rs) buf =
     (if e = WouldBlock then (None, buf, rs)
      else if e = Interrupted then feed_read rs buf
      else (Some e, buf, rs))"

definition health_body :: string where
  "health_body = [CHR ''{'', CHR 0x22] @ ''ok'' @ [CHR 0x22] @ '':true,'' @ [CHR 0x22] @ ''runtime'' @
     [CHR 0x22, CHR '':'', CHR 0x22] @ ''rust-sync'' @ [CHR 0x22, CHR ''}'']"

definition health_response :: string where
  "health_response =
     ''HTTP/1.1 200 OK'' @ CRLF @ ''Content-Type: application/json'' @ CRLF @
     ''Content-Length: '' @ dec (length health_body) @ CRLF @ ''Connection: close'' @ CRLF @ CRLF"

definition upgrade_response :: "string \<Rightarrow> string" where
  "upgrade_response accept =
     ''HTTP/1.1 101 Switching Protocols'' @ CRLF @ ''Upgrade: websocket'' @ CRLF @
     ''Connection: Upgrade'' @ CRLF @ ''Sec-WebSocket-Accept: '' @ accept @ CRLF @ CRLF"

text \<open>Routing of a buffer the read loop left: the result and the bytes written.\<close>

definition feed_route ::
  "(bytes \<Rightarrow> string) \<Rightarrow> (unit, io_error) result \<Rightarrow> bytes \<Rightarrow> (route, io_error) result \<times> bytes list" where
  "feed_route derive_accept_key wr buf =
     (case find_double_crlf buf of
        None \<Rightarrow> (Ok Route_NeedMore, [])
      | Some end \<Rightarrow>
          (case from_utf8 (take end buf) of
             None \<Rightarrow> (Err InvalidData, [])
           | Some head \<Rightarrow>
               let lines = split_str CRLF head;
                   request_line = (case lines of l # _ \<Rightarrow> l | [] \<Rightarrow> []);
                   parts = split_str '' '' request_line;
                   method = (case nth_opt 0 parts of Some m \<Rightarrow> m | None \<Rightarrow> []);
                   path = (case nth_opt 1 parts of Some p \<Rightarrow> p | None \<Rightarrow> [])
               in if method \<noteq> ''GET''
                    then (Ok Route_Handled, [write_simple 405 ''Method Not Allowed''])
                  else if path = ''/health''
                    then (Ok Route_Handled, [as_bytes health_response, as_bytes health_body])
                  else if path = ''/ws/stt'' then
                    (case header (tl lines) ''sec-websocket-key'' of
                       None \<Rightarrow> (Ok Route_Handled, [write_simple 400 ''Bad Request''])
                     | Some key \<Rightarrow>
                         let accept = derive_accept_key (as_bytes key);
                             resp = as_bytes (upgrade_response accept)
                         in (case wr of
                               Err e \<Rightarrow> (Err e, [resp])
                             | Ok _ \<Rightarrow> (Ok Route_WebSocket, [resp])))
                  else (Ok Route_Handled, [write_simple 404 ''Not Found''])))"

text \<open>\<open>feed\<close>: the result, the buffer, the rest of the read script and the bytes written.\<close>

definition feed ::
  "(bytes \<Rightarrow> string) \<Rightarrow> (unit, io_error) result \<Rightarrow> io_read list \<Rightarrow> bytes
     \<Rightarrow> (route, io_error) result \<times> bytes \<times> io_read list \<times> bytes list" where
  "feed derive_accept_key wr rs buf =
     (case feed_read rs buf of
        (Some e, buf', rs') \<Rightarrow> (Err e, buf', rs', [])
      | (None, buf', rs') \<Rightarrow>
          (case feed_route derive_accept_key wr buf' of (r, ws) \<Rightarrow> (r, buf', rs', ws)))"

subsection \<open>The handshake does not depend on how the head was split\<close>

lemma feed_read_chunks:
  assumes "\<forall>c \<in> set cs. c \<noteq> []" and "length (buf @ concat cs) \<le> MAX_HEADER_BYTES"
  shows "feed_read (map Rd cs) buf = (None, buf @ concat cs, [])"
  using assms by (induction cs arbitrary: buf) auto

lemma feed_chunks:
  assumes "\<forall>c \<in> set cs. c \<noteq> []" and "length (buf @ concat cs) \<le> MAX_HEADER_BYTES"
  shows "feed d wr (map Rd cs) buf =
           (fst (feed_route d wr (buf @ concat cs)), buf @ concat cs, [],
            snd (feed_route d wr (buf @ concat cs)))"
  using feed_read_chunks [OF assms] by (simp add: feed_def split_beta)

lemma feed_read_bound:
  assumes "length buf \<le> MAX_HEADER_BYTES" and "feed_read rs buf = (None, buf', rs')"
  shows "length buf' \<le> MAX_HEADER_BYTES"
  using assms by (induction rs buf rule: feed_read.induct) (auto split: if_splits)

lemma feed_route_request:
  assumes "list_all line_ok hs" and "path \<noteq> []" and "CHR '' '' \<notin> set path" and "line_ok path"
  shows "feed_route d wr (as_bytes (http_head ((''GET '' @ path @ '' HTTP/1.1'') # hs))) =
     (if path = ''/health'' then (Ok Route_Handled, [as_bytes health_response, as_bytes health_body])
      else if path = ''/ws/stt'' then
        (case header hs ''sec-websocket-key'' of
           None \<Rightarrow> (Ok Route_Handled, [write_simple 400 ''Bad Request''])
         | Some key \<Rightarrow>
             (case wr of
                Err e \<Rightarrow> (Err e, [as_bytes (upgrade_response (d (as_bytes key)))])
              | Ok _ \<Rightarrow> (Ok Route_WebSocket, [as_bytes (upgrade_response (d (as_bytes key)))])))
      else (Ok Route_Handled, [write_simple 404 ''Not Found'']))"
proof -
  define rl where "rl = ''GET '' @ path @ '' HTTP/1.1''"
  define h where "h = http_head (rl # hs)"
  have ok: "list_all line_ok (rl # hs)" using assms(1,4) by (auto simp: rl_def line_ok_def)
  have fd: "find_double_crlf (as_bytes h) = Some (length h - 4)"
    using find_head_end [OF ok, of "[]"] by (simp add: find_double_crlf_def h_def)
  have u: "from_utf8 (take (length h - 4) (as_bytes h)) = Some (take (length h - 4) h)"
    using from_utf8_ascii [OF ascii_take [OF ascii_http_head [OF ok]], of "length h - 4"]
    by (simp add: as_bytes_take h_def)
  have sp: "split_str CRLF (take (length h - 4) h) = rl # hs"
    using split_http_head [OF ok] by (simp add: h_def)
  have "split_str '' '' rl = ''GET'' # split_str '' '' (path @ '' HTTP/1.1'')"
    using split_str_space [of "''GET''" "path @ '' HTTP/1.1''"] by (simp add: rl_def)
  also have "split_str '' '' (path @ '' HTTP/1.1'') = path # split_str '' '' ''HTTP/1.1''"
    using split_str_space [OF assms(3), of "''HTTP/1.1''"] by simp
  finally have "nth_opt 0 (split_str '' '' rl) = Some ''GET''" "nth_opt 1 (split_str '' '' rl) = Some path"
    by (simp_all add: nth_opt_def)
  then show ?thesis
    unfolding h_def [symmetric] rl_def [symmetric]
    by (simp add: feed_route_def fd u sp Let_def split: option.splits sum.splits)
qed

text \<open>
  C15: an upgrade request is accepted however TCP cuts it. Whatever chunks the head of a
  \<open>GET /ws/stt\<close> request with a \<open>Sec-WebSocket-Key\<close> header arrives in, and wherever the socket runs
  dry in between, \<open>feed\<close> asks for more until the head is complete and then answers with the 101
  response for exactly that key.
\<close>

theorem handshake_any_split:
  assumes "list_all line_ok hs" and "header hs ''sec-websocket-key'' = Some key"
    and "as_bytes (http_head (''GET /ws/stt HTTP/1.1'' # hs)) = concat before @ concat after"
    and "list_all (\<lambda>c. c \<noteq> []) (before @ after)" and "after \<noteq> []"
    and "length (http_head (''GET /ws/stt HTTP/1.1'' # hs)) \<le> MAX_HEADER_BYTES"
  shows "feed d (Ok ()) (map Rd before) [] = (Ok Route_NeedMore, concat before, [], []) \<and>
         feed d (Ok ()) (map Rd after) (concat before) =
           (Ok Route_WebSocket, concat before @ concat after, [],
            [as_bytes (upgrade_response (d (as_bytes key)))])"
proof
  have ne: "\<forall>c \<in> set before. c \<noteq> []" "\<forall>c \<in> set after. c \<noteq> []" "concat after \<noteq> []"
    using assms(4,5) by (auto simp: list_all_iff neq_Nil_conv)
  have len: "length (concat before @ concat after) \<le> MAX_HEADER_BYTES"
    using assms(6) arg_cong [OF assms(3), of length] by simp
  have "list_all line_ok (''GET /ws/stt HTTP/1.1'' # hs)" using assms(1) by (simp add: line_ok_def)
  from head_incomplete [OF this _ assms(3) ne(3)]
  have "feed_route d (Ok ()) (concat before) = (Ok Route_NeedMore, [])"
    by (simp add: feed_route_def find_double_crlf_def)
  then show "feed d (Ok ()) (map Rd before) [] = (Ok Route_NeedMore, concat before, [], [])"
    using feed_chunks [OF ne(1), of "[]" d "Ok ()"] len by simp
  have "feed_route d (Ok ()) (concat before @ concat after) =
      (Ok Route_WebSocket, [as_bytes (upgrade_response (d (as_bytes key)))])"
    using feed_route_request [OF assms(1), of "''/ws/stt''" d "Ok ()"] assms(2)
    by (simp add: assms(3) [symmetric] line_ok_def)
  then show "feed d (Ok ()) (map Rd after) (concat before) =
      (Ok Route_WebSocket, concat before @ concat after, [], [as_bytes (upgrade_response (d (as_bytes key)))])"
    using feed_chunks [OF ne(2) len, of d "Ok ()"] by simp
qed

lemma example_header: "header [''Host: x'', ''Sec-WebSocket-Key: abc''] ''sec-websocket-key'' = Some ''abc''"
  by (simp add: header_def split_once_def trim_visible visible_def eq_ignore_ascii_case_def
    to_ascii_lower_def char_of_def bit_0)

definition example_request :: string where
  "example_request = http_head [''GET /ws/stt HTTP/1.1'', ''Host: x'', ''Sec-WebSocket-Key: abc'']"

theorem handshake_any_split_witness:
  "feed (\<lambda>k. ''acc'') (Ok ()) (map Rd [as_bytes (take 30 example_request)]) []
     = (Ok Route_NeedMore, as_bytes (take 30 example_request), [], []) \<and>
   feed (\<lambda>k. ''acc'') (Ok ()) (map Rd [as_bytes (drop 30 example_request)]) (as_bytes (take 30 example_request))
     = (Ok Route_WebSocket, as_bytes example_request, [], [as_bytes (upgrade_response ''acc'')])"
proof -
  define x where "x = as_bytes (take 30 example_request)"
  define y where "y = as_bytes (drop 30 example_request)"
  have len: "length example_request = 57" by (simp add: example_request_def http_head_def CRLF_def)
  have xy: "as_bytes example_request = concat [x] @ concat [y]"
    by (simp add: x_def y_def flip: as_bytes_append)
  have ne: "list_all (\<lambda>c. c \<noteq> []) ([x] @ [y])"
    using len by (auto simp: x_def y_def as_bytes_def)
  have ok: "list_all line_ok [''Host: x'', ''Sec-WebSocket-Key: abc'']" by (simp add: line_ok_def)
  have "length example_request \<le> MAX_HEADER_BYTES" by (simp add: len MAX_HEADER_BYTES_def)
  from handshake_any_split [OF ok example_header, folded example_request_def, OF xy ne _ this,
      where d = "\<lambda>k. ''acc''"]
  show ?thesis by (simp add: xy x_def [symmetric] y_def [symmetric])
qed

end
