(* ===== verification/Sync_Session.thy ===== *)
theory Sync_Session
  imports Sync_Inference Sync_Http
begin

text \<open>
  One connection of the rust-sync gateway, \<open>services/rust-sync/src/session.rs\<close>: its state and its
  handlers. The WebSocket is tungstenite's. What its \<open>read\<close> calls return during one handler is a
  script of messages, each with the clock value read when it is handled; the end of the script is
  \<open>WouldBlock\<close>. \<open>flush\<close> has one result per handler. What a handler writes to the WebSocket is
  returned as a list of outgoing messages; \<open>ser_ok\<close> says whether \<open>serde_json::to_writer\<close>
  succeeds on a message. The scratch buffer \<open>json\<close>, cleared before each use, is not part of the
  state.
\<close>

datatype outcome = Keep | Close

record frame_meta =
  fm_seq :: u64
  fm_received_at :: instant

record batch =
  ba_oldest_seq :: u64
  ba_newest_seq :: u64
  ba_oldest_at :: instant
  ba_newest_at :: instant
  ba_frames :: u64
  ba_audio_bytes :: u64
  ba_flush_lateness_ms :: f64

datatype tick = Tick_keep | Tick_flush batch | Tick_timeout f64

definition ws_token :: "nat \<Rightarrow> nat" where
  "ws_token i = i"

definition batch_tag :: "batch \<Rightarrow> u64" where
  "batch_tag b = ba_oldest_seq b"

record pending =
  pe_batch :: batch
  pe_started :: instant

record conn =
  cn_id :: nat
  cn_pre :: "nat option"
  cn_hs_buf :: bytes
  cn_ws :: "nat option"
  cn_started :: bool
  cn_ws_writable :: bool
  cn_pending :: "pending option"
  cn_pcm :: bytes
  cn_meta :: "frame_meta list"
  cn_seq :: u64
  cn_next_flush :: instant

datatype gateway_msg = Msg_partial sync_partial | Msg_error sync_error

datatype close_code = Protocol | Unsupported

datatype ws_out = Out_msg gateway_msg | Out_close "(close_code \<times> string) option"

datatype ws_read = Ws_text string | Ws_binary bytes | Ws_close | Ws_control | Ws_would_block | Ws_error

datatype flush_result = Flush_ok | Flush_would_block | Flush_error

record conn_env =
  ce_reads :: "io_read list"
  ce_write :: "(unit, io_error) result"
  ce_msgs :: "(ws_read \<times> instant) list"
  ce_flush :: flush_result
  ce_now :: instant

text \<open>
  The code of third parties the handlers call: tungstenite's key derivation, serde's decoding of
  the start message and its encoding of a response.
\<close>

record externals =
  xt_accept_key :: "bytes \<Rightarrow> string"
  xt_start_ok :: "string \<Rightarrow> bool"
  xt_ser_ok :: "gateway_msg \<Rightarrow> bool"

text \<open>\<open>Conn::new\<close>: \<open>jitter\<close> is the drawn \<open>random_range(0..=jitter_ms)\<close>, \<open>now\<close> the clock.\<close>

definition conn_new :: "nat \<Rightarrow> nat \<Rightarrow> config \<Rightarrow> nat \<Rightarrow> instant \<Rightarrow> conn" where
  "conn_new i stream config jitter now =
     (let jitter_ms = as_millis (cf_flush_phase_jitter config);
          phase = (if jitter_ms = 0 then 0 else from_millis jitter)
      in \<lparr>cn_id = i, cn_pre = Some stream, cn_hs_buf = [], cn_ws = None, cn_started = False,
          cn_ws_writable = False, cn_pending = None, cn_pcm = [], cn_meta = [], cn_seq = 0,
          cn_next_flush = now + cf_flush_interval config + phase\<rparr>)"

definition deadline :: "conn \<Rightarrow> instant" where
  "deadline c =
     (case cn_pending c of
        Some p \<Rightarrow> min (pe_started p + INFERENCE_TIMEOUT) (cn_next_flush c)
      | None \<Rightarrow> cn_next_flush c)"

definition ms :: "instant \<Rightarrow> instant \<Rightarrow> f64" where
  "ms now earlier = as_ms_f64 (now - earlier)"

definition flush_ws :: "flush_result \<Rightarrow> conn \<Rightarrow> outcome \<times> conn \<times> reg_op list" where
  "flush_ws fl c =
     (case cn_ws c of
        None \<Rightarrow> (Keep, c, [])
      | Some fd \<Rightarrow>
          (case fl of
             Flush_ok \<Rightarrow>
               if cn_ws_writable c
               then (Keep, c\<lparr>cn_ws_writable := False\<rparr>, [Reregister fd (ws_token (cn_id c)) Readable])
               else (Keep, c, [])
           | Flush_would_block \<Rightarrow>
               if \<not> cn_ws_writable c
               then (Keep, c\<lparr>cn_ws_writable := True\<rparr>, [Reregister fd (ws_token (cn_id c)) ReadWrite])
               else (Keep, c, [])
           | Flush_error \<Rightarrow> (Close, c, [])))"

definition close_ws :: "close_code \<Rightarrow> string \<Rightarrow> conn \<Rightarrow> outcome \<times> ws_out list" where
  "close_ws code reason c =
     (Close, if cn_ws c = None then [] else [Out_close (Some (code, reason))])"

definition handshake ::
  "externals \<Rightarrow> conn_env \<Rightarrow> conn \<Rightarrow> (outcome \<times> conn \<times> bytes list \<times> reg_op list) rust" where
  "handshake x env c =
     (case cn_pre c of
        None \<Rightarrow> Panic
      | Some stream \<Rightarrow>
          (case feed (xt_accept_key x) (ce_write env) (ce_reads env) (cn_hs_buf c) of
             (r, buf, _, written) \<Rightarrow>
               let c1 = c\<lparr>cn_hs_buf := buf\<rparr> in
               (case r of
                  Ok Route_NeedMore \<Rightarrow> Ret (Keep, c1, written, [])
                | Ok Route_Handled \<Rightarrow> Ret (Close, c1, written, [])
                | Err _ \<Rightarrow> Ret (Close, c1, written, [])
                | Ok Route_WebSocket \<Rightarrow>
                    Ret (Keep, c1\<lparr>cn_pre := None, cn_ws := Some stream\<rparr>, written,
                         [Reregister stream (ws_token (cn_id c)) Readable]))))"

definition push_frame :: "bytes \<Rightarrow> instant \<Rightarrow> conn \<Rightarrow> conn" where
  "push_frame p now c =
     c\<lparr>cn_seq := cn_seq c + 1, cn_pcm := cn_pcm c @ p,
       cn_meta := cn_meta c @ [\<lparr>fm_seq = cn_seq c + 1, fm_received_at = now\<rparr>]\<rparr>"

text \<open>
  The read loop of \<open>on_readable\<close>: \<open>None\<close> when it breaks on \<open>WouldBlock\<close>, otherwise the outcome it
  returns with.
\<close>

fun read_loop ::
  "(string \<Rightarrow> bool) \<Rightarrow> (ws_read \<times> instant) list \<Rightarrow> conn \<Rightarrow> outcome option \<times> conn \<times> ws_out list" where
  "read_loop start_ok [] c = (None, c, [])"
| "read_loop start_ok ((Ws_would_block, now) # rest) c = (None, c, [])"
| "read_loop start_ok ((Ws_error, now) # rest) c = (Some Close, c, [])"
| "read_loop start_ok ((Ws_text t, now) # rest) c =
     (if \<not> cn_started c then
        (if start_ok t then read_loop start_ok rest (c\<lparr>cn_started := True\<rparr>)
         else (case close_ws Protocol REASON_NEED_START c of (r, outs) \<Rightarrow> (Some r, c, outs)))
      else (case close_ws Protocol REASON_TEXT_AFTER_START c of (r, outs) \<Rightarrow> (Some r, c, outs)))"
| "read_loop start_ok ((Ws_binary p, now) # rest) c =
     (if cn_started c \<and> length p = SYNC_FRAME_BYTES then read_loop start_ok rest (push_frame p now c)
      else if \<not> cn_started c
        then (case close_ws Protocol REASON_NEED_START c of (r, outs) \<Rightarrow> (Some r, c, outs))
      else (case close_ws Unsupported REASON_BAD_FRAME_SIZE c of (r, outs) \<Rightarrow> (Some r, c, outs)))"
| "read_loop start_ok ((Ws_close, now) # rest) c = (Some Close, c, [Out_close None])"
| "read_loop start_ok ((Ws_control, now) # rest) c = read_loop start_ok rest c"

text \<open>
  A handler's result: the outcome, the connection, the bytes written before the upgrade, the
  WebSocket messages, and the registry calls.
\<close>

type_synonym handled = "outcome \<times> conn \<times> bytes list \<times> ws_out list \<times> reg_op list"

definition on_readable :: "externals \<Rightarrow> conn_env \<Rightarrow> conn \<Rightarrow> handled rust" where
  "on_readable x env c =
     (if cn_ws c = None then
        (case handshake x env c of
           Panic \<Rightarrow> Panic
         | Ret (r, c', written, ops) \<Rightarrow> Ret (r, c', written, [], ops))
      else
        (case read_loop (xt_start_ok x) (ce_msgs env) c of
           (Some r, c', outs) \<Rightarrow> Ret (r, c', [], outs, [])
         | (None, c', outs) \<Rightarrow>
             (case flush_ws (ce_flush env) c' of (r, c'', ops) \<Rightarrow> Ret (r, c'', [], outs, ops))))"

definition on_writable :: "conn_env \<Rightarrow> conn \<Rightarrow> handled" where
  "on_writable env c = (case flush_ws (ce_flush env) c of (r, c', ops) \<Rightarrow> (r, c', [], [], ops))"

definition on_ready :: "externals \<Rightarrow> conn_env \<Rightarrow> bool \<Rightarrow> bool \<Rightarrow> conn \<Rightarrow> handled rust" where
  "on_ready x env readable writable c =
     (if readable then on_readable x env c
      else if writable then Ret (on_writable env c)
      else Ret (Keep, c, [], [], []))"

definition on_timer :: "config \<Rightarrow> instant \<Rightarrow> conn \<Rightarrow> tick \<times> conn" where
  "on_timer config now c =
     (case cn_pending c of
        Some p \<Rightarrow>
          if pe_started p + INFERENCE_TIMEOUT \<le> now
          then (Tick_timeout (as_ms_f64 (now - pe_started p)), c)
          else if now < cn_next_flush c then (Tick_keep, c)
          else (Tick_keep, c\<lparr>cn_next_flush := cn_next_flush c + cf_flush_interval config\<rparr>)
      | None \<Rightarrow>
          if now < cn_next_flush c then (Tick_keep, c)
          else
            let lateness = as_ms_f64 (now - cn_next_flush c);
                c' = c\<lparr>cn_next_flush := cn_next_flush c + cf_flush_interval config\<rparr>
            in if cn_meta c = [] then (Tick_keep, c')
               else (Tick_flush
                 \<lparr>ba_oldest_seq = fm_seq (hd (cn_meta c)), ba_newest_seq = fm_seq (last (cn_meta c)),
                  ba_oldest_at = fm_received_at (hd (cn_meta c)),
                  ba_newest_at = fm_received_at (last (cn_meta c)),
                  ba_frames = of_nat (length (cn_meta c)), ba_audio_bytes = of_nat (length (cn_pcm c)),
                  ba_flush_lateness_ms = lateness\<rparr>, c'))"

definition begin_pending :: "batch \<Rightarrow> instant \<Rightarrow> conn \<Rightarrow> conn" where
  "begin_pending b now c =
     c\<lparr>cn_pending := Some \<lparr>pe_batch = b, pe_started = now\<rparr>, cn_pcm := [], cn_meta := []\<rparr>"

definition has_pending :: "conn \<Rightarrow> bool" where
  "has_pending c = (cn_pending c \<noteq> None)"

definition partial_of :: "config \<Rightarrow> batch \<Rightarrow> infer_response \<Rightarrow> sync_partial" where
  "partial_of config b r =
     \<lparr>sp_type_tag = PARTIAL_TYPE, sp_oldest_frame_seq = ba_oldest_seq b,
      sp_newest_frame_seq = ba_newest_seq b, sp_frames = ba_frames b, sp_rms = ir_rms r,
      sp_zero_crossings = ir_zero_crossings r, sp_checksum = ir_checksum r, sp_samples = ir_samples r,
      sp_transcript = ir_transcript r, sp_audio_bytes = ir_audio_bytes r,
      sp_cpu_passes = cf_cpu_passes config, sp_model_delay_ms = cf_model_delay_ms config,
      sp_flush_lateness_ms = ba_flush_lateness_ms b, sp_inflight_model_jobs = 0\<rparr>"

definition error_of :: "instant \<Rightarrow> batch \<Rightarrow> infer_error \<Rightarrow> sync_error" where
  "error_of now b e =
     \<lparr>se_type_tag = ERROR_TYPE, se_stage = ie_stage e, se_kind = ie_kind e, se_message = ie_message e,
      se_oldest_frame_seq = ba_oldest_seq b, se_newest_frame_seq = ba_newest_seq b,
      se_frames = ba_frames b, se_audio_bytes = ba_audio_bytes b,
      se_oldest_age_ms = ms now (ba_oldest_at b), se_newest_age_ms = ms now (ba_newest_at b),
      se_flush_lateness_ms = ba_flush_lateness_ms b, se_inference_elapsed_ms = Some (ie_elapsed_ms e),
      se_inflight_gateway_batches = 1, se_gateway_buffer_frames = 0,
      se_inference_status = ie_status e, se_retryable = ie_retryable e\<rparr>"

definition deliver :: "externals \<Rightarrow> conn_env \<Rightarrow> config \<Rightarrow> infer_result \<Rightarrow> conn \<Rightarrow> handled" where
  "deliver x env config result c =
     (case cn_pending c of
        None \<Rightarrow> (Keep, c, [], [], [])
      | Some p \<Rightarrow>
          let c1 = c\<lparr>cn_pending := None\<rparr>; b = pe_batch p;
              msg = (case result of
                       Ok infer \<Rightarrow> Msg_partial (partial_of config b infer)
                     | Err e \<Rightarrow> Msg_error (error_of (ce_now env) b e))
          in if \<not> xt_ser_ok x msg then (Keep, c1, [], [], [])
             else
               let outs = (if cn_ws c1 = None then [] else [Out_msg msg])
               in (case flush_ws (ce_flush env) c1 of (r, c2, ops) \<Rightarrow> (r, c2, [], outs, ops)))"

definition on_done ::
  "externals \<Rightarrow> conn_env \<Rightarrow> config \<Rightarrow> u64 \<Rightarrow> infer_result \<Rightarrow> conn \<Rightarrow> handled" where
  "on_done x env config tag result c =
     (case cn_pending c of
        Some p \<Rightarrow> if batch_tag (pe_batch p) = tag then deliver x env config result c
                  else (Keep, c, [], [], [])
      | None \<Rightarrow> (Keep, c, [], [], []))"

definition conn_deregister :: "conn \<Rightarrow> reg_op list" where
  "conn_deregister c =
     (case cn_pre c of Some fd \<Rightarrow> [Deregister fd] | None \<Rightarrow> []) @
     (case cn_ws c of Some fd \<Rightarrow> [Deregister fd] | None \<Rightarrow> [])"

end
