(* ===== verification/Sync_Conn.thy ===== *)
theory Sync_Conn
  imports Sync_Session
begin

text \<open>
  Correctness of one rust-sync connection: the invariant relates the connection's buffers to
  the history of the frames it accepted, and every handler keeps it. \<open>reported\<close> counts the frames
  already answered; only \<open>deliver\<close> advances it, by exactly the batch it reports.
\<close>

subsection \<open>The invariant\<close>

definition batch_inv :: "nat \<Rightarrow> batch \<Rightarrow> bool" where
  "batch_inv e b \<longleftrightarrow>
     (let k = unat (ba_frames b)
      in 0 < k \<and> k \<le> e \<and> ba_oldest_seq b = of_nat (e - k) + 1 \<and> ba_newest_seq b = of_nat e \<and>
         ba_audio_bytes b = of_nat (640 * k))"

fun pending_inv :: "nat \<Rightarrow> pending option \<Rightarrow> bool" where
  "pending_inv e None = True"
| "pending_inv e (Some p) = batch_inv e (pe_batch p)"

text \<open>\<open>unbuffered hist c\<close> is the number of accepted frames before the ones still in the buffer.\<close>

definition unbuffered :: "bytes list \<Rightarrow> conn \<Rightarrow> nat" where
  "unbuffered hist c = length hist - length (cn_meta c)"

definition conn_inv :: "bytes list \<Rightarrow> conn \<Rightarrow> bool" where
  "conn_inv hist c \<longleftrightarrow>
     list_all (\<lambda>f. length f = 640) hist \<and> length hist < 2 ^ 64 \<and> cn_seq c = of_nat (length hist) \<and>
     length (cn_meta c) \<le> length hist \<and> cn_pcm c = concat (drop (unbuffered hist c) hist) \<and>
     map fm_seq (cn_meta c) = seq_from (of_nat (unbuffered hist c) + 1) (length (cn_meta c)) \<and>
     (cn_pre c = None \<longleftrightarrow> cn_ws c \<noteq> None) \<and> (hist \<noteq> [] \<longrightarrow> cn_started c \<and> cn_ws c \<noteq> None) \<and>
     pending_inv (unbuffered hist c) (cn_pending c)"

fun pending_frames :: "pending option \<Rightarrow> nat" where
  "pending_frames None = 0"
| "pending_frames (Some p) = unat (ba_frames (pe_batch p))"

definition reported :: "bytes list \<Rightarrow> conn \<Rightarrow> nat" where
  "reported hist c = unbuffered hist c - pending_frames (cn_pending c)"

text \<open>The frames the read loop accepts from a script of messages.\<close>

fun accepted_frames :: "(string \<Rightarrow> bool) \<Rightarrow> bool \<Rightarrow> (ws_read \<times> instant) list \<Rightarrow> bytes list" where
  "accepted_frames start_ok started [] = []"
| "accepted_frames start_ok started ((m, now) # rest) =
     (case m of
        Ws_text t \<Rightarrow> if \<not> started \<and> start_ok t then accepted_frames start_ok True rest else []
      | Ws_binary p \<Rightarrow>
          if started \<and> length p = SYNC_FRAME_BYTES then p # accepted_frames start_ok started rest else []
      | Ws_control \<Rightarrow> accepted_frames start_ok started rest
      | _ \<Rightarrow> [])"

lemma conn_new_inv [conn_inv_intros]: "conn_inv [] (conn_new i st cf j now)"
  by (simp add: conn_inv_def conn_new_def unbuffered_def Let_def)

lemma conn_inv_started: "conn_inv hist c \<Longrightarrow> conn_inv hist (c\<lparr>cn_started := True\<rparr>)"
  by (auto simp: conn_inv_def unbuffered_def)

lemma conn_inv_writable: "conn_inv hist c \<Longrightarrow> conn_inv hist (c\<lparr>cn_ws_writable := b\<rparr>)"
  by (auto simp: conn_inv_def unbuffered_def)

lemma conn_inv_next_flush: "conn_inv hist c \<Longrightarrow> conn_inv hist (c\<lparr>cn_next_flush := t\<rparr>)"
  by (auto simp: conn_inv_def unbuffered_def)

lemma push_frame_inv:
  assumes inv: "conn_inv hist c" and "cn_started c" and "cn_ws c \<noteq> None" and "length p = 640"
    and "length hist + 1 < 2 ^ 64"
  shows "conn_inv (hist @ [p]) (push_frame p now c)"
    and "unbuffered (hist @ [p]) (push_frame p now c) = unbuffered hist c"
proof -
  have len: "length (cn_meta c) \<le> length hist" using inv by (simp add: conn_inv_def)
  show u: "unbuffered (hist @ [p]) (push_frame p now c) = unbuffered hist c"
    using len by (simp add: unbuffered_def push_frame_def)
  have sum: "unbuffered hist c + length (cn_meta c) = length hist" using len by (simp add: unbuffered_def)
  have "(of_nat (unbuffered hist c) + 1 + of_nat (length (cn_meta c)) :: u64) = of_nat (length hist) + 1"
    unfolding sum [symmetric] by simp
  moreover have "unbuffered hist c \<le> length hist" by (simp add: unbuffered_def)
  ultimately show "conn_inv (hist @ [p]) (push_frame p now c)"
    using inv assms(2-5) unfolding conn_inv_def u
    by (auto simp: push_frame_def seq_from_Suc split: option.splits)
qed

lemma read_loop_inv:
  assumes "conn_inv hist c" and "cn_ws c \<noteq> None"
    and "length hist + length (accepted_frames ok (cn_started c) xs) < 2 ^ 64"
    and "read_loop ok xs c = (r, c', outs)"
  shows "conn_inv (hist @ accepted_frames ok (cn_started c) xs) c' \<and>
         unbuffered (hist @ accepted_frames ok (cn_started c) xs) c' = unbuffered hist c \<and>
         cn_pending c' = cn_pending c \<and> cn_ws c' = cn_ws c \<and> cn_id c' = cn_id c \<and>
         cn_next_flush c' = cn_next_flush c \<and> (\<forall>m. Out_msg m \<notin> set outs)"
  using assms
proof (induction ok xs c arbitrary: hist rule: read_loop.induct)
  case (4 ok t now rest c)
  show ?case
  proof (cases "\<not> cn_started c \<and> ok t")
    case True
    then show ?thesis
      using 4(1) [of hist] 4(2-5) conn_inv_started [OF 4(2)] by (auto simp: unbuffered_def)
  next
    case False
    then show ?thesis using 4(2-5) by (auto simp: close_ws_def unbuffered_def split: if_splits)
  qed
next
  case (5 ok p now rest c)
  show ?case
  proof (cases "cn_started c \<and> length p = SYNC_FRAME_BYTES")
    case True
    then have p: "length p = 640" by (simp add: SYNC_FRAME_BYTES_def)
    have lt: "length hist + 1 < 2 ^ 64" using 5(4) True by simp
    note pf = push_frame_inv [OF 5(2) conjunct1 [OF True] 5(3) p lt, of now]
    have st: "cn_started (push_frame p now c) = True" "cn_ws (push_frame p now c) = cn_ws c"
      "cn_pending (push_frame p now c) = cn_pending c" "cn_id (push_frame p now c) = cn_id c"
      "cn_next_flush (push_frame p now c) = cn_next_flush c"
      using True by (simp_all add: push_frame_def)
    from 5(1) [OF True pf(1)] 5(3-5) True show ?thesis by (simp add: st pf(2))
  next
    case False
    then show ?thesis using 5(2-5) by (auto simp: close_ws_def unbuffered_def split: if_splits)
  qed
qed (auto simp: unbuffered_def)

subsection \<open>The handlers\<close>

lemma flush_ws_cases:
  assumes "flush_ws fl c = (r, c', ops)"
  obtains b where "c' = c\<lparr>cn_ws_writable := b\<rparr>"
proof (rule that [of "cn_ws_writable c'"])
  show "c' = c\<lparr>cn_ws_writable := cn_ws_writable c'\<rparr>"
    using assms by (auto simp: flush_ws_def split: option.splits flush_result.splits if_splits)
qed

definition new_frames :: "externals \<Rightarrow> conn_env \<Rightarrow> bool \<Rightarrow> conn \<Rightarrow> bytes list" where
  "new_frames x env readable c =
     (if readable \<and> cn_ws c \<noteq> None then accepted_frames (xt_start_ok x) (cn_started c) (ce_msgs env) else [])"

text \<open>What the handlers other than \<open>deliver\<close> leave alone.\<close>

definition same_batches :: "bytes list \<Rightarrow> conn \<Rightarrow> bytes list \<Rightarrow> conn \<Rightarrow> bool" where
  "same_batches hist c hist' c' \<longleftrightarrow>
     unbuffered hist' c' = unbuffered hist c \<and> cn_pending c' = cn_pending c \<and> cn_id c' = cn_id c \<and>
     cn_next_flush c' = cn_next_flush c"

lemma same_batches_reported: "same_batches hist c hist' c' \<Longrightarrow> reported hist' c' = reported hist c"
  by (simp add: same_batches_def reported_def)

lemma handshake_inv:
  assumes inv: "conn_inv hist c" and ws: "cn_ws c = None"
    and "handshake x env c = Ret (r, c', written, ops)"
  shows "conn_inv hist c' \<and> same_batches hist c hist c'"
proof -
  have "\<exists>buf st. c' = c\<lparr>cn_hs_buf := buf\<rparr> \<or> c' = c\<lparr>cn_hs_buf := buf, cn_pre := None, cn_ws := Some st\<rparr>"
    using assms(3)
    by (auto simp: handshake_def Let_def split: option.splits prod.splits sum.splits route.splits)
  moreover have "hist = []" using inv ws by (auto simp: conn_inv_def)
  ultimately show ?thesis
    using inv by (auto simp: conn_inv_def same_batches_def unbuffered_def)
qed

lemma on_readable_inv:
  assumes inv: "conn_inv hist c" and lt: "length hist + length (new_frames x env True c) < 2 ^ 64"
    and eq: "on_readable x env c = Ret (r, c', written, outs, ops)"
  shows "conn_inv (hist @ new_frames x env True c) c' \<and>
         same_batches hist c (hist @ new_frames x env True c) c' \<and> (\<forall>m. Out_msg m \<notin> set outs)"
proof (cases "cn_ws c = None")
  case True
  then obtain ops' where "handshake x env c = Ret (r, c', written, ops')" and "outs = []"
    using eq by (auto simp: on_readable_def split: rust.splits)
  then show ?thesis using handshake_inv [OF inv True] True by (simp add: new_frames_def)
next
  case False
  define fs where "fs = accepted_frames (xt_start_ok x) (cn_started c) (ce_msgs env)"
  have nf: "new_frames x env True c = fs" using False by (simp add: new_frames_def fs_def)
  obtain ro c1 where rl: "read_loop (xt_start_ok x) (ce_msgs env) c = (ro, c1, outs)"
    and c': "c' = c1 \<or> (\<exists>ops. flush_ws (ce_flush env) c1 = (r, c', ops))"
    using eq False by (auto simp: on_readable_def split: prod.splits option.splits)
  note post = read_loop_inv [OF inv False _ rl, folded fs_def]
  from c' obtain b where "c' = c1 \<or> c' = c1\<lparr>cn_ws_writable := b\<rparr>" by (auto elim: flush_ws_cases)
  then show ?thesis
    using post lt conn_inv_writable [of "hist @ fs" c1 b]
    by (auto simp: nf same_batches_def unbuffered_def)
qed

lemma on_ready_inv [conn_inv_intros]:
  assumes inv: "conn_inv hist c" and lt: "length hist + length (new_frames x env readable c) < 2 ^ 64"
    and eq: "on_ready x env readable writable c = Ret (r, c', written, outs, ops)"
  shows "conn_inv (hist @ new_frames x env readable c) c' \<and>
         same_batches hist c (hist @ new_frames x env readable c) c' \<and> (\<forall>m. Out_msg m \<notin> set outs)"
proof (cases readable)
  case True
  then show ?thesis using on_readable_inv [OF inv] lt eq by (simp add: on_ready_def)
next
  case False
  then have nf: "new_frames x env readable c = []" by (simp add: new_frames_def)
  from False eq obtain b where "(c' = c \<or> c' = c\<lparr>cn_ws_writable := b\<rparr>) \<and> outs = []"
    by (auto simp: on_ready_def on_writable_def split: if_splits prod.splits elim: flush_ws_cases)
  then show ?thesis
    using inv conn_inv_writable [OF inv, of b] by (auto simp: nf same_batches_def unbuffered_def)
qed

lemma on_ready_no_panic: "conn_inv hist c \<Longrightarrow> on_ready x env readable writable c \<noteq> Panic"
  by (auto simp: on_ready_def on_readable_def handshake_def Let_def conn_inv_def
      split: option.splits prod.splits sum.splits route.splits)

lemma on_timer_keep:
  assumes "conn_inv hist c" and "on_timer cf now c = (t, c')"
  shows "conn_inv hist c' \<and> reported hist c' = reported hist c \<and> cn_pending c' = cn_pending c \<and>
         cn_meta c' = cn_meta c \<and> cn_pcm c' = cn_pcm c"
proof -
  have "c' = c \<or> (\<exists>t. c' = c\<lparr>cn_next_flush := t\<rparr>)"
    using assms(2) by (auto simp: on_timer_def Let_def split: option.splits if_splits)
  then show ?thesis
    using assms(1) by (auto simp: reported_def unbuffered_def conn_inv_next_flush)
qed

lemma length_concat_frames:
  "list_all (\<lambda>f. length f = 640) fs \<Longrightarrow> length (concat fs) = 640 * length fs"
  by (induction fs) auto

lemma list_all_drop: "list_all P xs \<Longrightarrow> list_all P (drop n xs)"
  by (auto simp: list_all_iff dest: in_set_dropD)

lemma list_all_take: "list_all P xs \<Longrightarrow> list_all P (take n xs)"
  by (auto simp: list_all_iff dest: in_set_takeD)

text \<open>A flushed batch is exactly the buffered frames, and begins where the reports ended.\<close>

lemma on_timer_flush:
  assumes inv: "conn_inv hist c" and eq: "on_timer cf now c = (Tick_flush b, c1)"
  shows "cn_pending c = None" and "cn_pending c1 = None" and "unat (ba_frames b) = length (cn_meta c)"
    and "batch_inv (length hist) b" and "cn_pcm c1 = concat (drop (reported hist c) hist)"
    and "reported hist c + unat (ba_frames b) = length hist"
proof -
  show p: "cn_pending c = None" and p1: "cn_pending c1 = None"
    using eq by (auto simp: on_timer_def Let_def split: option.splits if_splits)
  have ne: "cn_meta c \<noteq> []" and b: "ba_oldest_seq b = fm_seq (hd (cn_meta c))"
    "ba_newest_seq b = fm_seq (last (cn_meta c))" "ba_frames b = of_nat (length (cn_meta c))"
    "ba_audio_bytes b = of_nat (length (cn_pcm c))" and c1: "cn_pcm c1 = cn_pcm c"
    using eq p by (auto simp: on_timer_def Let_def split: option.splits if_splits)
  define k where "k = length (cn_meta c)"
  define e where "e = unbuffered hist c"
  have ek: "e + k = length hist" "length hist < 2 ^ 64" "0 < k"
    using inv ne by (auto simp: conn_inv_def e_def k_def unbuffered_def)
  have fk: "unat (ba_frames b) = k" using ek by (simp add: b k_def [symmetric] unat_of_nat)
  then show "unat (ba_frames b) = length (cn_meta c)" by (simp add: k_def)
  have rep: "reported hist c = e" by (simp add: reported_def p e_def)
  have seqs: "map fm_seq (cn_meta c) = seq_from (of_nat e + 1) k"
    using inv by (simp add: conn_inv_def e_def k_def)
  have old: "ba_oldest_seq b = of_nat e + 1"
    using hd_seq_from [OF ek(3), of "of_nat e + 1 :: u64"] ne by (simp add: b seqs [symmetric] hd_map)
  have "ba_newest_seq b = of_nat e + of_nat k"
    using last_seq_from [OF ek(3), of "of_nat e + 1 :: u64"] ne by (simp add: b seqs [symmetric] last_map)
  then have new: "ba_newest_seq b = of_nat (length hist)" by (simp add: ek(1) [symmetric])
  have pcm: "cn_pcm c = concat (drop e hist)" using inv by (simp add: conn_inv_def e_def)
  have "list_all (\<lambda>f. length f = 640) hist" using inv by (simp add: conn_inv_def)
  from length_concat_frames [OF list_all_drop [OF this, of e]] have "length (cn_pcm c) = 640 * k"
    by (simp add: pcm flip: ek(1))
  moreover have "length hist - k = e" "k \<le> length hist" using ek(1) by simp_all
  ultimately show "batch_inv (length hist) b"
    unfolding batch_inv_def Let_def fk using old new ek(3) by (simp only: b(4) simp_thms)
  show "cn_pcm c1 = concat (drop (reported hist c) hist)" by (simp add: c1 pcm rep)
  show "reported hist c + unat (ba_frames b) = length hist" by (simp add: rep fk ek)
qed

lemma begin_pending_inv [conn_inv_intros]:
  assumes inv: "conn_inv hist c" and eq: "on_timer cf now c = (Tick_flush b, c1)"
  shows "conn_inv hist (begin_pending b now' c1) \<and> reported hist (begin_pending b now' c1) = reported hist c"
proof -
  note f = on_timer_flush [OF inv eq]
  have c1: "conn_inv hist c1" using on_timer_keep [OF inv eq] by simp
  then show ?thesis
    using f by (auto simp: conn_inv_def begin_pending_def unbuffered_def reported_def)
qed

fun msg_range :: "gateway_msg \<Rightarrow> u64 \<times> u64" where
  "msg_range (Msg_partial m) = (sp_oldest_frame_seq m, sp_newest_frame_seq m)"
| "msg_range (Msg_error m) = (se_oldest_frame_seq m, se_newest_frame_seq m)"

text \<open>\<open>deliver\<close> with a batch pending reports exactly that batch.\<close>

lemma deliver_inv [conn_inv_intros]:
  assumes inv: "conn_inv hist c" and p: "cn_pending c = Some p" and ser: "\<forall>m. xt_ser_ok x m"
    and eq: "deliver x env cf res c = (r, c', written, outs, ops)"
  shows "conn_inv hist c' \<and> cn_pending c' = None \<and> cn_meta c' = cn_meta c \<and>
    reported hist c' = reported hist c + unat (ba_frames (pe_batch p)) \<and>
    outs = [Out_msg (case res of Ok i \<Rightarrow> Msg_partial (partial_of cf (pe_batch p) i)
                     | Err e \<Rightarrow> Msg_error (error_of (ce_now env) (pe_batch p) e))]"
proof -
  have b: "batch_inv (unbuffered hist c) (pe_batch p)" using inv p by (simp add: conn_inv_def)
  then have "hist \<noteq> []" by (auto simp: batch_inv_def Let_def unbuffered_def)
  then have ws: "cn_ws c \<noteq> None" using inv by (simp add: conn_inv_def)
  define c1 where "c1 = c\<lparr>cn_pending := None\<rparr>"
  have fl: "flush_ws (ce_flush env) c1 = (r, c', ops)" and outs: "outs = [Out_msg (case res of
      Ok i \<Rightarrow> Msg_partial (partial_of cf (pe_batch p) i)
    | Err e \<Rightarrow> Msg_error (error_of (ce_now env) (pe_batch p) e))]"
    using eq p ws ser by (auto simp: deliver_def Let_def c1_def split: prod.splits)
  obtain bw where c': "c' = c1\<lparr>cn_ws_writable := bw\<rparr>" using fl by (rule flush_ws_cases)
  have "conn_inv hist c1" using inv by (simp add: conn_inv_def c1_def unbuffered_def)
  then have "conn_inv hist c'" unfolding c' by (rule conn_inv_writable)
  moreover have "unat (ba_frames (pe_batch p)) \<le> unbuffered hist c" using b by (simp add: batch_inv_def Let_def)
  ultimately show ?thesis using p outs by (simp add: c' c1_def reported_def unbuffered_def)
qed

end
