(* ===== verification/Sync_Main.thy ===== *)
theory Sync_Main
  imports Sync_Session "HOL-Library.Product_Lexorder" "HOL-Library.Multiset"
begin

text \<open>
  Thread A of the rust-sync gateway, \<open>services/rust-sync/src/main.rs\<close>: the connection table, the
  timer heap, the accept loop and the iteration of the event loop. The two channels to thread B are
  lists, oldest first. \<open>gw_log\<close> records the WebSocket messages written, in order. The clock and the
  results of the operating system come with the events; the environment of a delivery caused by
  the timers is indexed by connection, which delivers at most once per iteration.
\<close>

definition LISTENER :: nat where
  "LISTENER = 0"

definition RESULT :: nat where
  "RESULT = 1"

definition FIRST_CONN_ID :: conn_id where
  "FIRST_CONN_ID = 2"

definition IDLE_CAP :: duration where
  "IDLE_CAP = from_secs 1"

datatype source = Listener | Result | Ws conn_id

definition decode :: "nat \<Rightarrow> source" where
  "decode token = (if token = LISTENER then Listener else if token = RESULT then Result else Ws token)"

subsection \<open>The hasher of the connection table\<close>

definition id_hash_write_usize :: "usize \<Rightarrow> u64 \<Rightarrow> u64" where
  "id_hash_write_usize i h = i"

definition id_hash_write :: "bytes \<Rightarrow> u64 \<Rightarrow> u64" where
  "id_hash_write bs h = fold (\<lambda>b h. word_rotl 8 h XOR ucast b) bs h"

subsection \<open>The timer heap\<close>

text \<open>
  \<open>BinaryHeap<Reverse<(Instant, usize)>>\<close>: \<open>peek\<close> and \<open>pop\<close> give the least pair. The contract the
  loop relies on is the locale; the heap is a sorted list here.
\<close>

locale timer_heap =
  fixes entries :: "'q \<Rightarrow> ('a::linorder) multiset"
    and push :: "'a \<Rightarrow> 'q \<Rightarrow> 'q"
    and peek :: "'q \<Rightarrow> 'a option"
    and pop :: "'q \<Rightarrow> 'q"
    and valid :: "'q \<Rightarrow> bool"
  assumes entries_push: "entries (push x q) = add_mset x (entries q)"
    and peek_None: "valid q \<Longrightarrow> peek q = None \<longleftrightarrow> entries q = {#}"
    and peek_least: "valid q \<Longrightarrow> peek q = Some x \<Longrightarrow> x \<in># entries q \<and> (\<forall>y \<in># entries q. x \<le> y)"
    and entries_pop: "valid q \<Longrightarrow> peek q = Some x \<Longrightarrow> entries q = add_mset x (entries (pop q))"
    and valid_push: "valid q \<Longrightarrow> valid (push x q)"
    and valid_pop: "valid q \<Longrightarrow> valid (pop q)"
begin

text \<open>Nothing is due once the least entry is not.\<close>

lemma none_due:
  assumes "valid q" and "\<And>x. peek q = Some x \<Longrightarrow> P x" and "\<And>x y. x \<le> y \<Longrightarrow> P x \<Longrightarrow> P y"
  shows "\<forall>y \<in># entries q. P y"
proof (cases "peek q")
  case None
  then show ?thesis using peek_None [OF assms(1)] by simp
next
  case (Some x)
  then show ?thesis using peek_least [OF assms(1) Some] assms(2,3) by blast
qed

text \<open>Every entry but the popped one stays, and pushing adds one.\<close>

lemma entry_kept:
  assumes "valid q" and "peek q = Some x" and "y \<in># entries q" and "y \<noteq> x"
  shows "y \<in># entries (push z (pop q)) \<and> y \<in># entries (pop q)"
  using entries_pop [OF assms(1,2)] assms(3,4) by (simp add: entries_push)

end

type_synonym timers = "(instant \<times> conn_id) list"

definition timer_push :: "instant \<times> conn_id \<Rightarrow> timers \<Rightarrow> timers" where
  "timer_push x q = insort x q"

definition timer_peek :: "timers \<Rightarrow> (instant \<times> conn_id) option" where
  "timer_peek q = (case q of [] \<Rightarrow> None | x # _ \<Rightarrow> Some x)"

definition timer_pop :: "timers \<Rightarrow> timers" where
  "timer_pop q = tl q"

interpretation th: timer_heap mset timer_push timer_peek timer_pop sorted
proof (unfold_locales, goal_cases)
  case (1 x q) show ?case by (simp add: timer_push_def)
next
  case (2 q) then show ?case by (simp add: timer_peek_def split: list.splits)
next
  case (3 q x) then show ?case by (auto simp: timer_peek_def split: list.splits)
next
  case (4 q x) then show ?case by (auto simp: timer_peek_def timer_pop_def split: list.splits)
next
  case (5 q x) then show ?case by (simp add: timer_push_def sorted_insort)
next
  case (6 q) then show ?case by (cases q) (simp_all add: timer_pop_def)
qed

subsection \<open>The state and the handlers of one iteration\<close>

record gateway =
  gw_conns :: "conn_id \<Rightarrow> conn option"
  gw_timers :: timers
  gw_next_id :: conn_id
  gw_cmds :: "cmd list"
  gw_dones :: "done_msg list"
  gw_log :: "(conn_id \<times> ws_out) list"
  gw_written :: "(conn_id \<times> bytes) list"
  gw_ops :: "reg_op list"

definition gateway_init :: gateway where
  "gateway_init = \<lparr>gw_conns = (\<lambda>_. None), gw_timers = [], gw_next_id = FIRST_CONN_ID, gw_cmds = [],
     gw_dones = [], gw_log = [], gw_written = [], gw_ops = []\<rparr>"

definition poll_timeout :: "instant \<Rightarrow> gateway \<Rightarrow> duration" where
  "poll_timeout now g =
     (case timer_peek (gw_timers g) of Some (t, _) \<Rightarrow> min (t - now) IDLE_CAP | None \<Rightarrow> IDLE_CAP)"

text \<open>\<open>InferHandle::submit\<close> and \<open>abort\<close>: one command on the channel.\<close>

definition send_cmd :: "cmd \<Rightarrow> gateway \<Rightarrow> gateway" where
  "send_cmd c g = g\<lparr>gw_cmds := gw_cmds g @ [c]\<rparr>"

definition set_conn :: "conn_id \<Rightarrow> conn \<Rightarrow> gateway \<Rightarrow> gateway" where
  "set_conn i c g = g\<lparr>gw_conns := (gw_conns g)(i \<mapsto> c)\<rparr>"

text \<open>What a handler wrote before the upgrade and to the WebSocket, and its registry calls.\<close>

definition log_outs :: "conn_id \<Rightarrow> bytes list \<Rightarrow> ws_out list \<Rightarrow> reg_op list \<Rightarrow> gateway \<Rightarrow> gateway" where
  "log_outs i written outs ops g =
     g\<lparr>gw_log := gw_log g @ map (Pair i) outs, gw_written := gw_written g @ map (Pair i) written,
       gw_ops := gw_ops g @ ops\<rparr>"

datatype accept_result = Accepted nat | Accept_err io_error

record accept_ev =
  ac_result :: accept_result
  ac_register_ok :: bool
  ac_jitter :: nat
  ac_now :: instant

definition accept_one :: "config \<Rightarrow> nat \<Rightarrow> bool \<Rightarrow> nat \<Rightarrow> instant \<Rightarrow> gateway \<Rightarrow> gateway" where
  "accept_one cf fd register_ok jitter now g =
     (let i = gw_next_id g; g1 = g\<lparr>gw_next_id := i + 1\<rparr>
      in if \<not> register_ok then g1
         else let c = conn_new i fd cf jitter now
              in (set_conn i c g1)\<lparr>gw_timers := timer_push (deadline c, i) (gw_timers g1),
                   gw_ops := gw_ops g1 @ [Register fd (ws_token i) Readable]\<rparr>)"

fun accept_loop :: "config \<Rightarrow> accept_ev list \<Rightarrow> gateway \<Rightarrow> gateway" where
  "accept_loop cf [] g = g"
| "accept_loop cf (e # es) g =
     (case ac_result e of
        Accepted fd \<Rightarrow>
          accept_loop cf es (accept_one cf fd (ac_register_ok e) (ac_jitter e) (ac_now e) g)
      | Accept_err er \<Rightarrow> if er = Interrupted then accept_loop cf es g else g)"

record a_event =
  ev_token :: nat
  ev_readable :: bool
  ev_read_closed :: bool
  ev_error :: bool
  ev_writable :: bool
  ev_env :: conn_env
  ev_accepts :: "accept_ev list"
  ev_done_envs :: "nat \<Rightarrow> conn_env"

text \<open>A readiness event of a connection: the gateway and whether the connection is to be closed.\<close>

definition a_ready ::
  "externals \<Rightarrow> conn_env \<Rightarrow> bool \<Rightarrow> bool \<Rightarrow> conn_id \<Rightarrow> gateway \<Rightarrow> (bool \<times> gateway) rust" where
  "a_ready x env readable writable i g =
     (case gw_conns g i of
        None \<Rightarrow> Ret (False, g)
      | Some c \<Rightarrow>
          (case on_ready x env readable writable c of
             Panic \<Rightarrow> Panic
           | Ret (r, c', written, outs, ops) \<Rightarrow>
               Ret (r = Close, log_outs i written outs ops (set_conn i c' g))))"

text \<open>One completion taken from the channel.\<close>

definition a_done :: "externals \<Rightarrow> config \<Rightarrow> conn_env \<Rightarrow> done_msg \<Rightarrow> gateway \<Rightarrow> bool \<times> gateway" where
  "a_done x cf env d g =
     (case d of (owner, tag, result) \<Rightarrow>
       case gw_conns g owner of
         None \<Rightarrow> (False, g)
       | Some c \<Rightarrow>
           (case on_done x env cf tag result c of
              (r, c', written, outs, ops) \<Rightarrow>
                (r = Close, log_outs owner written outs ops (set_conn owner c' g))))"

fun a_drain ::
  "externals \<Rightarrow> config \<Rightarrow> (nat \<Rightarrow> conn_env) \<Rightarrow> nat \<Rightarrow> done_msg list \<Rightarrow> gateway \<Rightarrow> conn_id list \<times> gateway" where
  "a_drain x cf envs k [] g = ([], g\<lparr>gw_dones := []\<rparr>)"
| "a_drain x cf envs k (d # ds) g =
     (case a_done x cf (envs k) d (g\<lparr>gw_dones := ds\<rparr>) of
        (cl, g') \<Rightarrow>
          (case a_drain x cf envs (k + 1) ds g' of
             (closing, g'') \<Rightarrow> (if cl then fst d # closing else closing, g'')))"

definition a_dispatch ::
  "externals \<Rightarrow> config \<Rightarrow> a_event \<Rightarrow> gateway \<Rightarrow> (conn_id list \<times> gateway) rust" where
  "a_dispatch x cf e g =
     (case decode (ev_token e) of
        Listener \<Rightarrow> Ret ([], accept_loop cf (ev_accepts e) g)
      | Result \<Rightarrow> Ret (a_drain x cf (ev_done_envs e) 0 (gw_dones g) g)
      | Ws i \<Rightarrow>
          (case a_ready x (ev_env e) (ev_readable e \<or> ev_read_closed e \<or> ev_error e) (ev_writable e) i g of
             Panic \<Rightarrow> Panic
           | Ret (cl, g') \<Rightarrow> Ret (if cl then [i] else [], g')))"

fun a_events ::
  "externals \<Rightarrow> config \<Rightarrow> a_event list \<Rightarrow> gateway \<Rightarrow> (conn_id list \<times> gateway) rust" where
  "a_events x cf [] g = Ret ([], g)"
| "a_events x cf (e # es) g =
     (case a_dispatch x cf e g of
        Panic \<Rightarrow> Panic
      | Ret (cl, g') \<Rightarrow>
          (case a_events x cf es g' of
             Panic \<Rightarrow> Panic
           | Ret (cls, g'') \<Rightarrow> Ret (cl @ cls, g'')))"

text \<open>The tick of one connection whose timer was popped.\<close>

definition a_tick ::
  "externals \<Rightarrow> config \<Rightarrow> conn_env \<Rightarrow> instant \<Rightarrow> conn_id \<Rightarrow> conn \<Rightarrow> gateway \<Rightarrow> bool \<times> gateway" where
  "a_tick x cf env now i c g =
     (case on_timer cf now c of
        (Tick_keep, c1) \<Rightarrow>
          (False, (set_conn i c1 g)\<lparr>gw_timers := timer_push (deadline c1, i) (gw_timers g)\<rparr>)
      | (Tick_flush b, c1) \<Rightarrow>
          let c2 = begin_pending b now c1
          in (False, (send_cmd (Submit i (batch_tag b) (cn_pcm c1) (cf_cpu_passes cf)) (set_conn i c2 g))
                \<lparr>gw_timers := timer_push (deadline c2, i) (gw_timers g)\<rparr>)
      | (Tick_timeout elapsed, c1) \<Rightarrow>
          (case deliver x env cf (Err (timeout_error elapsed)) c1 of
             (r, c2, written, outs, ops) \<Rightarrow>
               let g1 = send_cmd (Abort i) (log_outs i written outs ops (set_conn i c2 g))
               in if r = Close then (True, g1)
                  else (False, g1\<lparr>gw_timers := timer_push (deadline c2, i) (gw_timers g)\<rparr>)))"

text \<open>
  One pass of the timer loop: the least timer is popped when it is due, and its connection ticked;
  \<open>None\<close> when nothing is due.
\<close>

definition timer_step ::
  "externals \<Rightarrow> config \<Rightarrow> (conn_id \<Rightarrow> conn_env) \<Rightarrow> instant \<Rightarrow> gateway \<Rightarrow> (conn_id list \<times> gateway) option" where
  "timer_step x cf envs now g =
     (case timer_peek (gw_timers g) of
        None \<Rightarrow> None
      | Some (t, i) \<Rightarrow>
          if now < t then None
          else
            let g1 = g\<lparr>gw_timers := timer_pop (gw_timers g)\<rparr>
            in (case gw_conns g1 i of
                  None \<Rightarrow> Some ([], g1)
                | Some c \<Rightarrow>
                    (case a_tick x cf (envs i) now i c g1 of
                       (cl, g2) \<Rightarrow> Some (if cl then [i] else [], g2))))"

text \<open>The timer loop; \<open>None\<close> when the fuel is used up.\<close>

fun timer_loop ::
  "nat \<Rightarrow> externals \<Rightarrow> config \<Rightarrow> (conn_id \<Rightarrow> conn_env) \<Rightarrow> instant \<Rightarrow> gateway \<Rightarrow> (conn_id list \<times> gateway) option" where
  "timer_loop 0 x cf envs now g = None"
| "timer_loop (Suc n) x cf envs now g =
     (case timer_step x cf envs now g of
        None \<Rightarrow> Some ([], g)
      | Some (cls, g1) \<Rightarrow> map_option (\<lambda>(cls', g2). (cls @ cls', g2)) (timer_loop n x cf envs now g1))"

definition a_close :: "conn_id \<Rightarrow> gateway \<Rightarrow> gateway" where
  "a_close i g =
     (case gw_conns g i of
        None \<Rightarrow> g
      | Some c \<Rightarrow>
          let g1 = g\<lparr>gw_conns := (gw_conns g)(i := None)\<rparr>;
              g2 = (if has_pending c then send_cmd (Abort i) g1 else g1)
          in g2\<lparr>gw_ops := gw_ops g2 @ conn_deregister c\<rparr>)"

text \<open>One iteration of the loop after \<open>poll\<close>, with the clock read after it.\<close>

definition a_iteration ::
  "nat \<Rightarrow> externals \<Rightarrow> config \<Rightarrow> a_event list \<Rightarrow> (conn_id \<Rightarrow> conn_env) \<Rightarrow> instant \<Rightarrow> gateway \<Rightarrow> gateway rust option" where
  "a_iteration fuel x cf es envs now g =
     (case a_events x cf es g of
        Panic \<Rightarrow> Some Panic
      | Ret (cl1, g1) \<Rightarrow>
          (case timer_loop fuel x cf envs now g1 of
             None \<Rightarrow> None
           | Some (cl2, g2) \<Rightarrow> Some (Ret (fold a_close (cl1 @ cl2) g2))))"

subsection \<open>The timer loop ends\<close>

text \<open>
  A connection can keep the loop busy only while its flush deadline lies in the past or a
  request has timed out; every tick moves the deadline forward by the flush interval or takes the
  timed-out request.
\<close>

fun conn_weight :: "instant \<Rightarrow> conn option \<Rightarrow> nat" where
  "conn_weight now None = 0"
| "conn_weight now (Some c) =
     2 * (now + 1 - cn_next_flush c) +
     (case cn_pending c of Some p \<Rightarrow> if pe_started p + INFERENCE_TIMEOUT \<le> now then 1 else 0 | None \<Rightarrow> 0)"

definition entry_weight :: "instant \<Rightarrow> (conn_id \<Rightarrow> conn option) \<Rightarrow> instant \<times> conn_id \<Rightarrow> nat" where
  "entry_weight now conns e = (if now < fst e then 0 else 1 + conn_weight now (conns (snd e)))"

definition timer_weight :: "instant \<Rightarrow> gateway \<Rightarrow> nat" where
  "timer_weight now g = (\<Sum>e \<in># mset (gw_timers g). entry_weight now (gw_conns g) e)"

lemma flush_ws_keeps:
  assumes "flush_ws fl c = (r, c', ops)"
  shows "cn_next_flush c' = cn_next_flush c \<and> cn_pending c' = cn_pending c"
  using assms by (auto simp: flush_ws_def split: option.splits flush_result.splits if_splits)

lemma deliver_keeps:
  assumes "deliver x env cf res c = (r, c', w, outs, ops)"
  shows "cn_next_flush c' = cn_next_flush c \<and> cn_pending c' = None"
  using assms flush_ws_keeps [of "ce_flush env" "c\<lparr>cn_pending := None\<rparr>"]
  by (auto simp: deliver_def Let_def split: option.splits if_splits prod.splits)

lemma INFERENCE_TIMEOUT_pos: "0 < INFERENCE_TIMEOUT"
  by (simp add: INFERENCE_TIMEOUT_def from_secs_def)

lemma a_tick_weight:
  assumes pos: "0 < cf_flush_interval cf" and c: "gw_conns g i = Some c"
    and t: "a_tick x cf env now i c g = (cl, g2)"
  obtains c2 where "gw_conns g2 = (gw_conns g)(i \<mapsto> c2)"
    "gw_timers g2 = gw_timers g \<or> gw_timers g2 = timer_push (deadline c2, i) (gw_timers g)"
    "conn_weight now (Some c2) \<le> conn_weight now (Some c)"
    "deadline c2 \<le> now \<Longrightarrow> conn_weight now (Some c2) < conn_weight now (Some c)"
proof -
  note goal = that
  obtain tk c1 where tm: "on_timer cf now c = (tk, c1)" by (cases "on_timer cf now c")
  show thesis
  proof (cases tk)
    case Tick_keep
    then show thesis using t tm c pos
      by (intro goal [of c1])
        (auto simp: a_tick_def set_conn_def on_timer_def deadline_def Let_def
          split: option.splits if_splits)
  next
    case (Tick_flush b)
    then show thesis using t tm c pos INFERENCE_TIMEOUT_pos
      by (intro goal [of "begin_pending b now c1"])
        (auto simp: a_tick_def set_conn_def send_cmd_def begin_pending_def on_timer_def deadline_def Let_def
          split: option.splits if_splits)
  next
    case (Tick_timeout e)
    obtain r c2 w outs ops where d: "deliver x env cf (Err (timeout_error e)) c1 = (r, c2, w, outs, ops)"
      by (metis prod_cases5)
    have "c1 = c" and "\<exists>p. cn_pending c = Some p \<and> pe_started p + INFERENCE_TIMEOUT \<le> now"
      using tm Tick_timeout by (auto simp: on_timer_def Let_def split: option.splits if_splits)
    then show thesis using t tm Tick_timeout c deliver_keeps [OF d] d
      by (intro goal [of c2])
        (auto simp: a_tick_def set_conn_def send_cmd_def log_outs_def Let_def split: if_splits)
  qed
qed

lemma a_tick_timers:
  assumes "a_tick x cf env now i c g = (cl, g2)"
  shows "\<exists>c2. gw_conns g2 = (gw_conns g)(i \<mapsto> c2) \<and>
    gw_timers g2 = (if cl then gw_timers g else timer_push (deadline c2, i) (gw_timers g))"
proof (cases "on_timer cf now c")
  case (Pair tk c1)
  show ?thesis
  proof (cases tk)
    case Tick_keep
    then show ?thesis using assms Pair by (intro exI [of _ c1]) (auto simp: a_tick_def set_conn_def)
  next
    case (Tick_flush b)
    then show ?thesis
      using assms Pair
      by (intro exI [of _ "begin_pending b now c1"]) (auto simp: a_tick_def set_conn_def send_cmd_def Let_def)
  next
    case (Tick_timeout e)
    obtain r c2 w outs ops where d: "deliver x env cf (Err (timeout_error e)) c1 = (r, c2, w, outs, ops)"
      by (metis prod_cases5)
    then show ?thesis
      using assms Pair Tick_timeout
      by (intro exI [of _ c2]) (auto simp: a_tick_def set_conn_def send_cmd_def log_outs_def Let_def split: if_splits)
  qed
qed

lemma sum_mset_mono_le:
  fixes f :: "'a \<Rightarrow> nat"
  assumes "\<And>e. f e \<le> h e"
  shows "(\<Sum>e \<in># M. f e) \<le> (\<Sum>e \<in># M. h e)"
  by (induction M) (auto intro: add_mono assms)

lemma timer_step_cases:
  assumes "timer_step x cf envs now g = Some (cls, g2)"
  obtains (skip) t i where "timer_peek (gw_timers g) = Some (t, i)" "t \<le> now" "gw_conns g i = None"
      "cls = []" "g2 = g\<lparr>gw_timers := timer_pop (gw_timers g)\<rparr>"
  | (tick) t i c cl where "timer_peek (gw_timers g) = Some (t, i)" "t \<le> now" "gw_conns g i = Some c"
      "a_tick x cf (envs i) now i c (g\<lparr>gw_timers := timer_pop (gw_timers g)\<rparr>) = (cl, g2)"
      "cls = (if cl then [i] else [])"
proof -
  obtain t i where p: "timer_peek (gw_timers g) = Some (t, i)" "\<not> now < t"
    using assms by (auto simp: timer_step_def split: option.splits if_splits)
  show thesis
  proof (cases "gw_conns g i")
    case None
    then show thesis using skip [OF p(1)] assms p by (simp add: timer_step_def)
  next
    case (Some c)
    then show thesis using tick [OF p(1) _ Some] assms p by (auto simp: timer_step_def split: prod.splits)
  qed
qed

lemma timer_step_sorted:
  assumes "timer_step x cf envs now g = Some (cls, g2)" and "sorted (gw_timers g)"
  shows "sorted (gw_timers g2)"
  using assms(1)
proof (cases rule: timer_step_cases)
  case skip
  then show ?thesis using th.valid_pop [OF assms(2)] by simp
next
  case (tick t i c cl)
  show ?thesis
    using a_tick_timers [OF tick(4)] th.valid_pop [OF assms(2)] th.valid_push by (auto split: if_splits)
qed

lemma timer_step_weight:
  assumes pos: "0 < cf_flush_interval cf" and srt: "sorted (gw_timers g)"
    and st: "timer_step x cf envs now g = Some (cls, g2)"
  shows "timer_weight now g2 < timer_weight now g"
proof -
  define g1 where "g1 = g\<lparr>gw_timers := timer_pop (gw_timers g)\<rparr>"
  have w: "timer_weight now g = 1 + conn_weight now (gw_conns g i) + timer_weight now g1"
    if "timer_peek (gw_timers g) = Some (t, i)" "t \<le> now" for t i
  proof -
    have entries: "mset (gw_timers g) = add_mset (t, i) (mset (gw_timers g1))"
      using th.entries_pop [OF srt that(1)] by (simp add: g1_def)
    show ?thesis unfolding timer_weight_def entries using that(2) by (simp add: g1_def entry_weight_def)
  qed
  show ?thesis
    using st
  proof (cases rule: timer_step_cases)
    case (skip t i)
    then show ?thesis using w [of t i] by (simp add: g1_def)
  next
    case (tick t i c cl)
    then have cg: "gw_conns g1 i = Some c" and tk: "a_tick x cf (envs i) now i c g1 = (cl, g2)"
      by (simp_all add: g1_def)
    obtain c2 where c2: "gw_conns g2 = (gw_conns g1)(i \<mapsto> c2)"
      "gw_timers g2 = gw_timers g1 \<or> gw_timers g2 = timer_push (deadline c2, i) (gw_timers g1)"
      "conn_weight now (Some c2) \<le> conn_weight now (Some c)"
      "deadline c2 \<le> now \<Longrightarrow> conn_weight now (Some c2) < conn_weight now (Some c)"
      using a_tick_weight [OF pos cg tk] by blast
    have sum: "(\<Sum>e \<in># mset (gw_timers g1). entry_weight now (gw_conns g2) e) \<le> timer_weight now g1"
      unfolding timer_weight_def
      by (rule sum_mset_mono_le) (use c2(1,3) cg in \<open>auto simp: entry_weight_def\<close>)
    have new: "entry_weight now (gw_conns g2) (deadline c2, i) \<le> conn_weight now (Some c)"
      using c2(4) by (auto simp: entry_weight_def c2(1) not_less Suc_le_eq simp del: conn_weight.simps(2))
    have "timer_weight now g2 \<le> timer_weight now g1 + conn_weight now (Some c)"
      using c2(2)
    proof
      assume "gw_timers g2 = gw_timers g1"
      then show ?thesis using sum by (simp only: timer_weight_def trans_le_add1)
    next
      assume "gw_timers g2 = timer_push (deadline c2, i) (gw_timers g1)"
      then have "timer_weight now g2 =
          entry_weight now (gw_conns g2) (deadline c2, i) + (\<Sum>e \<in># mset (gw_timers g1). entry_weight now (gw_conns g2) e)"
        by (simp only: timer_weight_def th.entries_push image_mset_add_mset sum_mset.add_mset)
      then show ?thesis using sum new by linarith
    qed
    then show ?thesis using w [OF tick(1,2)] tick(3) by (simp del: conn_weight.simps)
  qed
qed

lemma timer_loop_enough:
  assumes "0 < cf_flush_interval cf" and "sorted (gw_timers g)" and "timer_weight now g < n"
  shows "timer_loop n x cf envs now g \<noteq> None"
  using assms(2,3)
proof (induction n arbitrary: g)
  case (Suc n)
  show ?case
  proof (cases "timer_step x cf envs now g")
    case (Some r)
    obtain cls g2 where r: "r = (cls, g2)" by (cases r)
    have "timer_loop n x cf envs now g2 \<noteq> None"
      using timer_step_weight [OF assms(1) Suc.prems(1), of x envs now cls g2] Suc.prems(2) Some r
        timer_step_sorted [OF _ Suc.prems(1), of x cf envs now cls g2]
      by (intro Suc.IH) auto
    then show ?thesis by (auto simp: Some r)
  qed simp
qed simp

lemma timer_loop_mono:
  "timer_loop n x cf envs now g = Some r \<Longrightarrow> n \<le> m \<Longrightarrow> timer_loop m x cf envs now g = Some r"
proof (induction n arbitrary: g r m)
  case (Suc n)
  then obtain k where k: "m = Suc k" "n \<le> k" by (cases m) auto
  show ?case
  proof (cases "timer_step x cf envs now g")
    case None
    then show ?thesis using Suc.prems(1) by (simp add: k)
  next
    case (Some q)
    obtain cls g1 where q: "q = (cls, g1)" by (cases q)
    obtain r1 where "timer_loop n x cf envs now g1 = Some r1"
      using Suc.prems(1) by (auto simp: Some q)
    then show ?thesis using Suc.prems(1) Suc.IH [OF _ k(2)] by (simp add: Some q k)
  qed
qed simp

text \<open>What every pass keeps holds at the end, when nothing is due any more.\<close>

lemma timer_loop_inv:
  assumes "\<And>S g cls g2. P S g \<Longrightarrow> timer_step x cf envs now g = Some (cls, g2) \<Longrightarrow> P (S \<union> set cls) g2"
    and "P S g" and "timer_loop n x cf envs now g = Some (cls, g')"
  shows "P (S \<union> set cls) g' \<and> timer_step x cf envs now g' = None"
  using assms(2,3)
proof (induction n arbitrary: g S cls)
  case (Suc n)
  then show ?case
    using assms(1) by (fastforce split: option.splits simp: sup_assoc [symmetric] simp del: sup_assoc)
qed simp

lemma timer_step_None:
  assumes "timer_step x cf envs now g = None" and "sorted (gw_timers g)" and "(t, i) \<in> set (gw_timers g)"
  shows "now < t"
proof -
  have "\<forall>e \<in># mset (gw_timers g). now < fst e"
    using assms(1)
    by (intro th.none_due [OF assms(2)])
      (auto simp: timer_step_def less_eq_prod_def Let_def split: option.splits if_splits prod.splits)
  with assms(3) show ?thesis by auto
qed

lemma poll_timeout_le:
  assumes "(t, i) \<in> set (gw_timers g)" and "sorted (gw_timers g)"
  shows "poll_timeout now g \<le> t - now"
proof (cases "timer_peek (gw_timers g)")
  case None
  then show ?thesis using th.peek_None [OF assms(2)] assms(1) by simp
next
  case (Some e)
  then have "e \<le> (t, i)" using th.peek_least [OF assms(2) Some] assms(1) by simp
  then show ?thesis using Some by (cases e) (auto simp: poll_timeout_def less_eq_prod_def min_def)
qed

subsection \<open>No connection is forgotten\<close>

text \<open>Every connection, except those about to be closed, has a timer no later than its deadline.\<close>

definition scheduled :: "conn_id set \<Rightarrow> gateway \<Rightarrow> bool" where
  "scheduled S g \<longleftrightarrow>
     sorted (gw_timers g) \<and>
     (\<forall>i c. gw_conns g i = Some c \<longrightarrow> i \<notin> S \<longrightarrow> (\<exists>t. (t, i) \<in> set (gw_timers g) \<and> t \<le> deadline c))"

lemma read_loop_keeps:
  "read_loop ok xs c = (r, c', outs) \<Longrightarrow> cn_next_flush c' = cn_next_flush c \<and> cn_pending c' = cn_pending c"
  by (induction ok xs c rule: read_loop.induct)
    (auto simp: close_ws_def push_frame_def split: if_splits)

lemma on_ready_keeps:
  assumes "on_ready x env rd wr c = Ret (r, c', w, outs, ops)"
  shows "cn_next_flush c' = cn_next_flush c \<and> cn_pending c' = cn_pending c"
proof -
  have fl: "flush_ws f a = (r', b, o') \<Longrightarrow> read_loop ok xs c = (q, a, u) \<Longrightarrow>
      cn_next_flush b = cn_next_flush c \<and> cn_pending b = cn_pending c" for f a b r' o' ok xs q u
    using flush_ws_keeps read_loop_keeps by metis
  show ?thesis
    using assms
    by (auto simp: on_ready_def on_readable_def on_writable_def handshake_def Let_def
        split: if_splits option.splits prod.splits rust.splits sum.splits route.splits
        dest: flush_ws_keeps read_loop_keeps fl)
qed

lemma deadline_mono:
  "cn_next_flush c' = cn_next_flush c \<Longrightarrow> cn_pending c' = None \<or> cn_pending c' = cn_pending c \<Longrightarrow> deadline c \<le> deadline c'"
  by (auto simp: deadline_def split: option.splits)

lemma scheduled_set_conn:
  assumes "scheduled S g" and "gw_conns g i = Some c" and "deadline c \<le> deadline c'"
    and "gw_conns g' = (gw_conns g)(i \<mapsto> c')" and "gw_timers g' = gw_timers g"
  shows "scheduled S g'"
  using assms unfolding scheduled_def by (metis (no_types) fun_upd_apply le_trans option.inject)

lemma on_done_keeps:
  assumes "on_done x env cf tag res c = (r, c', w, outs, ops)"
  shows "deadline c \<le> deadline c'"
proof -
  have "c' = c \<or> (cn_next_flush c' = cn_next_flush c \<and> cn_pending c' = None)"
    using assms deliver_keeps by (auto simp: on_done_def split: option.splits if_splits)
  then show ?thesis by (auto intro: deadline_mono)
qed

lemma a_ready_scheduled:
  assumes "scheduled S g" and "a_ready x env rd wr i g = Ret (cl, g')"
  shows "scheduled S g'"
proof (cases "gw_conns g i")
  case None
  then show ?thesis using assms by (simp add: a_ready_def)
next
  case (Some c)
  then obtain r c' w outs ops where o: "on_ready x env rd wr c = Ret (r, c', w, outs, ops)"
    and g': "g' = log_outs i w outs ops (set_conn i c' g)"
    using assms(2) by (auto simp: a_ready_def split: rust.splits)
  have "deadline c \<le> deadline c'" using on_ready_keeps [OF o] by (auto intro: deadline_mono)
  then show ?thesis
    by (intro scheduled_set_conn [OF assms(1) Some]) (simp_all add: g' log_outs_def set_conn_def)
qed

lemma a_done_scheduled:
  assumes "scheduled S g" and "a_done x cf env d g = (cl, g')"
  shows "scheduled S g'"
proof -
  obtain owner tag res where d: "d = (owner, tag, res)" by (cases d)
  show ?thesis
  proof (cases "gw_conns g owner")
    case None
    then show ?thesis using assms by (simp add: a_done_def d)
  next
    case (Some c)
    then obtain r c' w outs ops where o: "on_done x env cf tag res c = (r, c', w, outs, ops)"
      and g': "g' = log_outs owner w outs ops (set_conn owner c' g)"
      using assms(2) by (auto simp: a_done_def d split: prod.splits)
    show ?thesis
      using on_done_keeps [OF o]
      by (intro scheduled_set_conn [OF assms(1) Some]) (simp_all add: g' log_outs_def set_conn_def)
  qed
qed

lemma a_drain_scheduled:
  "scheduled S g \<Longrightarrow> a_drain x cf envs k ds g = (cls, g') \<Longrightarrow> scheduled S g'"
proof (induction ds arbitrary: k g cls)
  case (Cons d ds)
  have "scheduled S (g\<lparr>gw_dones := ds\<rparr>)" using Cons.prems(1) by (simp add: scheduled_def)
  with Cons show ?case by (auto split: prod.splits dest: a_done_scheduled)
qed (auto simp: scheduled_def)

lemma accept_one_scheduled: "scheduled S g \<Longrightarrow> scheduled S (accept_one cf fd ok j now g)"
  by (auto simp: scheduled_def accept_one_def set_conn_def Let_def timer_push_def set_insort_key sorted_insort)

lemma accept_loop_scheduled: "scheduled S g \<Longrightarrow> scheduled S (accept_loop cf es g)"
  by (induction cf es g rule: accept_loop.induct)
    (auto split: accept_result.splits simp: accept_one_scheduled)

lemma a_events_scheduled:
  "scheduled S g \<Longrightarrow> a_events x cf es g = Ret (cls, g') \<Longrightarrow> scheduled S g'"
proof (induction es arbitrary: g cls)
  case (Cons e es)
  then obtain cl g1 cls' where 1: "a_dispatch x cf e g = Ret (cl, g1)" and 2: "a_events x cf es g1 = Ret (cls', g')"
    by (auto split: rust.splits prod.splits)
  have "scheduled S g1"
    using 1 Cons.prems(1) a_drain_scheduled [OF Cons.prems(1)] accept_loop_scheduled [OF Cons.prems(1)]
      a_ready_scheduled [OF Cons.prems(1)]
    by (auto simp: a_dispatch_def split: source.splits rust.splits)
  then show ?case using Cons.IH 2 by blast
qed simp

lemma timer_step_scheduled:
  assumes "scheduled S g" and "timer_step x cf envs now g = Some (cls, g2)"
  shows "scheduled (S \<union> set cls) g2"
  using assms(2)
proof (cases rule: timer_step_cases)
  case (skip t i)
  have "sorted (gw_timers g)" using assms(1) by (simp add: scheduled_def)
  note kept = th.entry_kept [OF this skip(1)]
  show ?thesis
    unfolding scheduled_def
  proof (intro conjI allI impI)
    show "sorted (gw_timers g2)" using timer_step_sorted [OF assms(2)] assms(1) by (simp add: scheduled_def)
  next
    fix j c assume j: "gw_conns g2 j = Some c" "j \<notin> S \<union> set cls"
    then have "gw_conns g j = Some c" "j \<notin> S" "j \<noteq> i" using skip(3,5) by auto
    then obtain u where "(u, j) \<in> set (gw_timers g)" "u \<le> deadline c" "j \<noteq> i"
      using assms(1) unfolding scheduled_def by blast
    then show "\<exists>u. (u, j) \<in> set (gw_timers g2) \<and> u \<le> deadline c"
      using kept [of "(u, j)"] skip(5) by auto
  qed
next
  case (tick t i c cl)
  have "sorted (gw_timers g)" using assms(1) by (simp add: scheduled_def)
  note kept = th.entry_kept [OF this tick(1)]
  obtain c2 where c2: "gw_conns g2 = (gw_conns g)(i \<mapsto> c2)"
    "gw_timers g2 = (if cl then timer_pop (gw_timers g) else timer_push (deadline c2, i) (timer_pop (gw_timers g)))"
    using a_tick_timers [OF tick(4)] by auto
  show ?thesis
    unfolding scheduled_def
  proof (intro conjI allI impI)
    show "sorted (gw_timers g2)" using timer_step_sorted [OF assms(2)] assms(1) by (simp add: scheduled_def)
  next
    fix j c' assume j: "gw_conns g2 j = Some c'" "j \<notin> S \<union> set cls"
    show "\<exists>u. (u, j) \<in> set (gw_timers g2) \<and> u \<le> deadline c'"
    proof (cases "j = i")
      case True
      then show ?thesis using j tick(5) c2 by (auto simp: timer_push_def set_insort_key)
    next
      case False
      then have "gw_conns g j = Some c'" "j \<notin> S" using j c2(1) by auto
      then obtain u where "(u, j) \<in> set (gw_timers g)" "u \<le> deadline c'"
        using assms(1) unfolding scheduled_def by blast
      then show ?thesis using kept [of "(u, j)"] False c2(2) by auto
    qed
  qed
qed

lemma a_close_conns: "gw_conns (a_close i g) = (gw_conns g)(i := None) \<and> gw_timers (a_close i g) = gw_timers g"
  by (auto simp: a_close_def send_cmd_def Let_def split: option.splits)

lemma fold_a_close_conns:
  "gw_conns (fold a_close is g) j = (if j \<in> set is then None else gw_conns g j) \<and>
   gw_timers (fold a_close is g) = gw_timers g"
  by (induction "is" arbitrary: g) (auto simp: a_close_conns)

lemma a_iteration_scheduled:
  assumes "scheduled {} g" and "a_iteration n x cf es envs now g = Some (Ret g')"
  shows "scheduled {} g' \<and> (\<forall>(t, i) \<in> set (gw_timers g'). now < t)"
proof -
  obtain cl1 g1 cl2 g2 where 1: "a_events x cf es g = Ret (cl1, g1)"
    and 2: "timer_loop n x cf envs now g1 = Some (cl2, g2)"
    and g': "g' = fold a_close (cl1 @ cl2) g2"
    using assms(2) by (auto simp: a_iteration_def split: rust.splits option.splits)
  have "scheduled {} g1" using a_events_scheduled [OF assms(1) 1] .
  from timer_loop_inv [where P = scheduled, OF timer_step_scheduled this 2]
  have s: "scheduled (set cl2) g2" and n: "timer_step x cf envs now g2 = None" by simp_all
  have t: "gw_timers g' = gw_timers g2" by (simp only: g' fold_a_close_conns)
  have "scheduled {} g'"
    using s by (auto simp: scheduled_def t) (auto simp: g' fold_a_close_conns split: if_splits)
  moreover have "\<forall>(t, i) \<in> set (gw_timers g2). now < t"
    using timer_step_None [OF n] s by (auto simp: scheduled_def)
  ultimately show ?thesis by (simp add: t)
qed

lemma scheduled_init: "scheduled {} gateway_init"
  by (simp add: scheduled_def gateway_init_def)

lemma a_iteration_ends:
  assumes "0 < cf_flush_interval cf" and "scheduled {} g"
  shows "\<exists>n r. \<forall>m \<ge> n. a_iteration m x cf es envs now g = Some r"
proof (cases "a_events x cf es g")
  case Panic
  then show ?thesis by (simp add: a_iteration_def)
next
  case (Ret q)
  obtain cl g1 where q: "q = (cl, g1)" by (cases q)
  have "sorted (gw_timers g1)" using a_events_scheduled [OF assms(2)] Ret q by (simp add: scheduled_def)
  then obtain r where "timer_loop (Suc (timer_weight now g1)) x cf envs now g1 = Some r"
    using timer_loop_enough [OF assms(1)] by blast
  from timer_loop_mono [OF this] show ?thesis
    by (intro exI [of _ "Suc (timer_weight now g1)"] exI [of _ "Ret (fold a_close (cl @ fst r) (snd r))"])
      (auto simp: a_iteration_def Ret q split: prod.splits)
qed

text \<open>
  C9. No deadline is missed. One iteration of the event loop ends, whatever events it handles and
  however many timers are due; and afterwards every connection still open has its next deadline in
  the future and a timer that fires no later than that deadline, so that the sleep until the next
  timer never outlasts a flush or a request's time limit.
\<close>

theorem a_iteration_deadlines:
  assumes "0 < cf_flush_interval cf" and "scheduled {} g"
  shows "\<exists>n r. (\<forall>m \<ge> n. a_iteration m x cf es envs now g = Some r) \<and>
    (\<forall>g'. r = Ret g' \<longrightarrow> scheduled {} g' \<and>
       (\<forall>i c. gw_conns g' i = Some c \<longrightarrow> now < deadline c \<and> poll_timeout now g' \<le> deadline c - now))"
proof -
  obtain n r where ends: "\<forall>m \<ge> n. a_iteration m x cf es envs now g = Some r"
    using a_iteration_ends [OF assms] by blast
  have "scheduled {} g' \<and>
      (\<forall>i c. gw_conns g' i = Some c \<longrightarrow> now < deadline c \<and> poll_timeout now g' \<le> deadline c - now)"
    if r: "r = Ret g'" for g'
  proof -
    have post: "scheduled {} g'" "\<forall>(t, i) \<in> set (gw_timers g'). now < t"
      using a_iteration_scheduled [OF assms(2), of n x cf es envs now g'] ends r by auto
    have "now < deadline c \<and> poll_timeout now g' \<le> deadline c - now" if c: "gw_conns g' i = Some c" for i c
    proof -
      obtain t where t: "(t, i) \<in> set (gw_timers g')" "t \<le> deadline c"
        using post(1) c by (auto simp: scheduled_def)
      then show ?thesis using post(2) poll_timeout_le [OF t(1), of now] post(1) by (auto simp: scheduled_def)
    qed
    with post(1) show ?thesis by blast
  qed
  with ends show ?thesis by blast
qed

theorem a_iteration_deadlines_witness:
  "\<exists>n r. \<forall>m \<ge> n. a_iteration m
     \<lparr>xt_accept_key = (\<lambda>_. []), xt_start_ok = (\<lambda>_. True), xt_ser_ok = (\<lambda>_. True)\<rparr> (from_env (\<lambda>_. None)) []
     (\<lambda>_. \<lparr>ce_reads = [], ce_write = Ok (), ce_msgs = [], ce_flush = Flush_ok, ce_now = 0\<rparr>) (from_secs 60)
     (accept_one (from_env (\<lambda>_. None)) 7 True 0 0 gateway_init) = Some r"
proof -
  have "0 < cf_flush_interval (from_env (\<lambda>_. None))"
    using from_env_config_ok [of "\<lambda>_. None"] by (simp add: config_ok_def from_millis_def)
  from a_iteration_deadlines [OF this accept_one_scheduled [OF scheduled_init]] show ?thesis by blast
qed

end
