(* ===== verification/Sync_System.thy ===== *)
theory Sync_System
  imports Gateway Sync_Pool Sync_Conn Sync_Main
begin

text \<open>
  The rust-sync gateway as a whole: the WebSocket loop (thread A, \<open>main.rs\<close>) and the inference loop
  (thread B, \<open>inference.rs\<close>), which share nothing but the two channels \<open>Cmd\<close> and \<open>Done\<close>. A step
  is one handler call of either thread, so a run is any interleaving of the two. The state carries
  two ghost fields no step reads: the frames each connection accepted so far, and the audio
  submitted under each owner and tag.

  The environment of thread B is the inference server: \<open>wire req\<close> is the text of its HTTP response to
  the request \<open>req\<close>, and what a slot with an owner has received of it is a prefix of that text.
\<close>

type_synonym from_slice = "bytes \<Rightarrow> (infer_response, string) result"

record system =
  sy_gw :: gateway
  sy_pool :: pool
  sy_hist :: "conn_id \<Rightarrow> bytes list"
  sy_subs :: "conn_id \<times> u64 \<Rightarrow> bytes option"

definition system_init :: "config \<Rightarrow> instant \<Rightarrow> system" where
  "system_init cf now =
     \<lparr>sy_gw = gateway_init, sy_pool = pool_new now (unat (cf_inference_clients cf)),
      sy_hist = (\<lambda>_. []), sy_subs = (\<lambda>_. None)\<rparr>"

text \<open>The bytes of the request for a batch, as \<open>Slot::build\<close> writes them.\<close>

definition request :: "config \<Rightarrow> bytes \<Rightarrow> bytes" where
  "request cf body = sl_req (build 0 cf body (cf_cpu_passes cf) (slot_new 0))"

lemma build_request: "sl_req (build now cf body (cf_cpu_passes cf) s) = request cf body"
  by (simp add: request_def build_def)

definition receives :: "(bytes \<Rightarrow> bytes) \<Rightarrow> sock_env \<Rightarrow> slot \<Rightarrow> bool" where
  "receives wire env s \<longleftrightarrow>
     (\<forall>resp. sl_owner s \<noteq> None \<longrightarrow> recv_loop (en_reads env) (sl_resp s) = (None, resp) \<longrightarrow>
        prefix resp (wire (sl_req s)))"

definition ready_frames :: "externals \<Rightarrow> conn_env \<Rightarrow> bool \<Rightarrow> conn_id \<Rightarrow> gateway \<Rightarrow> bytes list" where
  "ready_frames x env readable i g =
     (case gw_conns g i of None \<Rightarrow> [] | Some c \<Rightarrow> new_frames x env readable c)"

fun add_sub :: "cmd \<Rightarrow> (conn_id \<times> u64 \<Rightarrow> bytes option) \<Rightarrow> conn_id \<times> u64 \<Rightarrow> bytes option" where
  "add_sub (Submit i t body n) m = m((i, t) \<mapsto> body)"
| "add_sub (Abort i) m = m"

definition new_cmds :: "gateway \<Rightarrow> gateway \<Rightarrow> cmd list" where
  "new_cmds g g' = drop (length (gw_cmds g)) (gw_cmds g')"

definition push_dones :: "done_msg list \<Rightarrow> gateway \<Rightarrow> gateway" where
  "push_dones ds g = g\<lparr>gw_dones := gw_dones g @ ds\<rparr>"

inductive sys_step ::
  "externals \<Rightarrow> config \<Rightarrow> from_slice \<Rightarrow> (bytes \<Rightarrow> bytes) \<Rightarrow> system \<Rightarrow> system \<Rightarrow> bool"
  for x cf fs wire where
  accept: "sys_step x cf fs wire s (s\<lparr>sy_gw := accept_one cf fd ok j now (sy_gw s)\<rparr>)"
| ready: "sys_step x cf fs wire s
      (s\<lparr>sy_gw := g', sy_hist := (sy_hist s)(i := sy_hist s i @ ready_frames x env rd i (sy_gw s))\<rparr>)"
  if "a_ready x env rd wr i (sy_gw s) = Ret (cl, g')"
    and "length (sy_hist s i) + length (ready_frames x env rd i (sy_gw s)) < 2 ^ 64"
| result: "sys_step x cf fs wire s (s\<lparr>sy_gw := g'\<rparr>)"
  if "gw_dones (sy_gw s) = d # ds" and "a_done x cf env d ((sy_gw s)\<lparr>gw_dones := ds\<rparr>) = (cl, g')"
| timer: "sys_step x cf fs wire s
      (s\<lparr>sy_gw := g', sy_subs := fold add_sub (new_cmds (sy_gw s) g') (sy_subs s)\<rparr>)"
  if "timer_step x cf envs now (sy_gw s) = Some (cls, g')"
| close: "sys_step x cf fs wire s (s\<lparr>sy_gw := a_close i (sy_gw s)\<rparr>)"
| socket: "sys_step x cf fs wire s (s\<lparr>sy_pool := p', sy_gw := push_dones (done_list d) (sy_gw s)\<rparr>)"
  if "on_event fs env idx w (sy_pool s) = Ret (d, p', ops)"
    and "receives wire env (pl_slots (sy_pool s) ! idx)"
| command: "sys_step x cf fs wire s
      (s\<lparr>sy_pool := p', sy_gw := push_dones (done_list d) ((sy_gw s)\<lparr>gw_cmds := cs\<rparr>)\<rparr>)"
  if "gw_cmds (sy_gw s) = c # cs" and "b_cmd env cf c (sy_pool s) = (d, p')"

subsection \<open>What the handlers change\<close>

text \<open>A longer buffer with a complete response at its front parses to the same response.\<close>

lemma parse_response_mono:
  assumes "parse_response fs a = Ret (Some r)" and "prefix a b"
  shows "parse_response fs b = Ret (Some r)"
proof -
  obtain z where b: "b = a @ z" using assms(2) by (auto elim: prefixE)
  obtain pos where pos: "find_sub CRLFCRLF a = Some pos"
    using assms(1) by (auto simp: parse_response_def split: option.splits)
  have pb: "find_sub CRLFCRLF b = Some pos" unfolding b by (rule find_sub_append [OF pos])
  have le: "pos + 4 \<le> length a" using find_sub_SomeD [OF pos] by (simp add: CRLFCRLF_def)
  then have hd: "take (pos + 4) b = take (pos + 4) a" by (simp add: b)
  obtain head where head: "from_utf8 (take (pos + 4) a) = Some head"
    using assms(1) pos by (auto simp: parse_response_def Let_def split: option.splits)
  define stop where "stop = (of_nat (pos + 4) + content_len_of (tl (split_str CRLF head)) :: u64)"
  have ok: "\<not> length a < unat stop" "\<not> unat stop < pos + 4"
    using assms(1) unfolding parse_response_def pos head option.case Let_def stop_def [symmetric]
    by (auto split: if_splits)
  have bd: "take (unat stop - (pos + 4)) (drop (pos + 4) b) = take (unat stop - (pos + 4)) (drop (pos + 4) a)"
    using ok le by (simp add: b)
  have nb: "\<not> length b < unat stop" using ok by (simp add: b)
  show ?thesis
    using assms(1) ok(1)
    unfolding parse_response_def pos pb head hd option.case Let_def stop_def [symmetric] bd
    by (simp only: ok nb if_False)
qed

lemma run_receiving_Ok:
  assumes "run_receiving fs env s = Ret (Ok (Done (Ok r)), s')"
  shows "\<exists>resp. recv_loop (en_reads env) (sl_resp s) = (None, resp) \<and> parse_response fs resp = Ret (Some (Ok r))"
  using assms
  by (auto simp: run_receiving_def Let_def split: if_splits prod.splits option.splits rust.splits sum.splits)

lemma run_sending_Ok:
  assumes "run_sending fs env off s = Ret (Ok (Done (Ok r)), s')"
  shows "\<exists>resp. recv_loop (en_reads env) (sl_resp s) = (None, resp) \<and> parse_response fs resp = Ret (Some (Ok r))"
  using assms run_receiving_Ok [of fs env "s\<lparr>sl_state := Receiving\<rparr>" r s']
  by (auto simp: run_sending_def split: if_splits send_result.splits)

lemma drive_Ok:
  assumes "drive fs env w s = Ret (Done (Ok r), s')"
  shows "\<exists>resp. recv_loop (en_reads env) (sl_resp s) = (None, resp) \<and> parse_response fs resp = Ret (Some (Ok r))"
proof -
  have run: "slot_run fs env w s = Ret (Ok (Done (Ok r)), s')"
    using assms by (auto simp: drive_def retry_or_fail_def split: rust.splits prod.splits sum.splits if_splits)
  show ?thesis
  proof (cases "sl_state s")
    case Connecting
    then have "run_sending fs env 0 (s\<lparr>sl_state := Sending 0\<rparr>) = Ret (Ok (Done (Ok r)), s')"
      using run by (auto simp: slot_run_def split: if_splits sum.splits option.splits)
    from run_sending_Ok [OF this] show ?thesis by simp
  next
    case (Sending off)
    then show ?thesis using run run_sending_Ok [of fs env off s] by (simp add: slot_run_def)
  next
    case Receiving
    then show ?thesis using run run_receiving_Ok [of fs env s] by (simp add: slot_run_def)
  qed (use run in \<open>auto simp: slot_run_def split: if_splits list.splits io_read.splits\<close>)
qed

text \<open>
  An event changes one slot, which keeps its request while it keeps its owner; a successful
  completion is the parsed response of that slot's owner and tag.
\<close>

lemma on_event_effect:
  assumes inv: "pool_inv p" and ev: "on_event fs env idx w p = Ret (d, p', ops)"
  defines "s \<equiv> pl_slots p ! idx"
  shows "idx < length (pl_slots p) \<and>
    (\<exists>s'. pl_slots p' = (pl_slots p)[idx := s'] \<and>
       (sl_owner s' = None \<or> sl_owner s' = sl_owner s \<and> sl_tag s' = sl_tag s \<and> sl_req s' = sl_req s)) \<and>
    (\<forall>o' t r. d = Some (o', t, Ok r) \<longrightarrow> sl_owner s = Some o' \<and> sl_tag s = t \<and>
       (\<exists>resp. recv_loop (en_reads env) (sl_resp s) = (None, resp) \<and> parse_response fs resp = Ret (Some (Ok r))))"
proof -
  have idx: "idx < length (pl_slots p)" using ev by (auto simp: on_event_def split: if_splits)
  have ok: "slot_ok s" using pool_inv_nth [OF inv idx] by (simp add: s_def)
  obtain st s' where dr: "drive fs env w s = Ret (st, s')"
    using ev idx by (auto simp: on_event_def s_def split: rust.splits)
  have own: "sl_owner s' = sl_owner s" "sl_tag s' = sl_tag s" "sl_req s' = sl_req s"
    using drive_ok [OF ok dr] by (auto simp: drive_post_def)
  note od = ev [unfolded on_event_def, folded s_def, unfolded dr]
  note rc = recycle_set_slot [OF idx, of s']
  show ?thesis
  proof (cases st)
    case (Pending b)
    then have "p' = set_slot idx (fst (ensure_registered (pool_token idx) (if b then Writable else Readable) s')) p"
      and "d = None" using od idx by (auto split: prod.splits)
    then show ?thesis using idx own by auto
  next
    case (Done r)
    then have "p' = (set_slot idx (recycled idx s') p)\<lparr>pl_free := pl_free p @ [idx]\<rparr>"
      and d: "d = map_option (\<lambda>owner. (owner, sl_tag s', r)) (sl_owner s')"
      using od idx rc by (auto split: prod.splits)
    then show ?thesis using idx own drive_Ok [of fs env w s] dr Done by auto
  next
    case Redial
    show ?thesis
    proof (cases "dial (en_connect env) s'")
      case (Inl e)
      then have "p' = (set_slot idx (recycled idx s') p)\<lparr>pl_free := pl_free p @ [idx]\<rparr>"
        and "d = map_option (\<lambda>owner. (owner, sl_tag s', Err reset_error)) (sl_owner s')"
        using od idx rc Redial by (auto split: prod.splits)
      then show ?thesis using idx own by auto
    next
      case (Inr s1)
      then have "p' = set_slot idx (fst (ensure_registered (pool_token idx) Writable s1)) p" and "d = None"
        using od idx Redial by (auto split: prod.splits)
      moreover have "sl_owner s1 = sl_owner s'" "sl_tag s1 = sl_tag s'" "sl_req s1 = sl_req s'"
        using Inr by (auto simp: dial_def split: sum.splits)
      ultimately show ?thesis using idx own by auto
    qed
  qed
qed

lemma b_cmd_effect:
  assumes inv: "pool_inv p" and c: "b_cmd env cf c p = (d, p')"
  shows "(\<forall>s' \<in> set (pl_slots p'). \<forall>i. sl_owner s' = Some i \<longrightarrow>
      (\<exists>s \<in> set (pl_slots p). sl_owner s = Some i \<and> sl_tag s = sl_tag s' \<and> sl_req s = sl_req s') \<or>
      (\<exists>body n now s. c = Submit i (sl_tag s') body n \<and> sl_req s' = sl_req (build now cf body n s))) \<and>
    (\<forall>i t r. d \<noteq> Some (i, t, Ok r))"
proof (cases c)
  case (Submit owner tag body n)
  then have sb: "(d, p') = (let (d, p', _) = submit env cf owner tag body n p in (d, p'))"
    using c by (simp add: b_cmd_def split: prod.splits)
  show ?thesis
  proof (cases rule: submit_cases [of p env cf owner tag body n])
    case exhausted
    then show ?thesis using sb by auto
  next
    case (undialed idx e s)
    then show ?thesis using sb by (auto dest!: set_update_subset_insert [THEN subsetD])
  next
    case (accepted idx s ops')
    have "sl_req s = sl_req (build (en_now env) cf body n ((pl_slots p ! idx)\<lparr>sl_owner := Some owner, sl_tag := tag\<rparr>))"
      by (simp add: accepted(2,3) accepted_slot_def Let_def split: option.splits sum.splits)
    then show ?thesis
      using sb accepted(6,7,8) Submit by (fastforce dest!: set_update_subset_insert [THEN subsetD])
  qed
next
  case (Abort owner)
  have d: "d = None" and p': "p' = fst (abort_owner owner p)" using c Abort by (simp_all add: b_cmd_def)
  show ?thesis
  proof (cases "position (\<lambda>s. sl_owner s = Some owner) (pl_slots p)")
    case None
    then show ?thesis using d p' by (auto simp: abort_owner_def)
  next
    case (Some idx)
    then show ?thesis
      using d abort_owner_found [OF Some] unfolding p'
      by (auto dest!: set_update_subset_insert [THEN subsetD])
  qed
qed

subsection \<open>The invariant\<close>

text \<open>The messages sent to a connection, in order.\<close>

fun msg_to :: "conn_id \<Rightarrow> conn_id \<times> ws_out \<Rightarrow> gateway_msg list" where
  "msg_to i (j, Out_msg m) = (if j = i then [m] else [])"
| "msg_to i (j, Out_close r) = []"

definition msgs_of :: "conn_id \<Rightarrow> gateway \<Rightarrow> gateway_msg list" where
  "msgs_of i g = concat (map (msg_to i) (gw_log g))"

text \<open>\<open>r\<close> is the server's answer to the request for this audio.\<close>

definition answered :: "config \<Rightarrow> from_slice \<Rightarrow> (bytes \<Rightarrow> bytes) \<Rightarrow> bytes \<Rightarrow> infer_response \<Rightarrow> bool" where
  "answered cf fs wire body r \<longleftrightarrow> parse_response fs (wire (request cf body)) = Ret (Some (Ok r))"

text \<open>A partial that answers for exactly the frames it names.\<close>

definition genuine ::
  "config \<Rightarrow> from_slice \<Rightarrow> (bytes \<Rightarrow> bytes) \<Rightarrow> bytes list \<Rightarrow> sync_partial \<Rightarrow> bool" where
  "genuine cf fs wire hist m \<longleftrightarrow>
     (\<exists>b r. m = partial_of cf b r \<and> 0 < unat (ba_oldest_seq b) \<and> ba_oldest_seq b \<le> ba_newest_seq b \<and>
        unat (ba_newest_seq b) \<le> length hist \<and> ba_frames b = ba_newest_seq b - ba_oldest_seq b + 1 \<and>
        answered cf fs wire (concat (frames_of hist (ba_oldest_seq b) (ba_newest_seq b))) r)"

fun pending_sub ::
  "(conn_id \<times> u64 \<Rightarrow> bytes option) \<Rightarrow> conn_id \<Rightarrow> bytes list \<Rightarrow> pending option \<Rightarrow> bool" where
  "pending_sub subs i hist None = True"
| "pending_sub subs i hist (Some p) =
     (subs (i, batch_tag (pe_batch p)) =
        Some (concat (frames_of hist (ba_oldest_seq (pe_batch p)) (ba_newest_seq (pe_batch p)))))"

definition conn_sys :: "system \<Rightarrow> conn_id \<Rightarrow> conn \<Rightarrow> bool" where
  "conn_sys s i c \<longleftrightarrow>
     conn_inv (sy_hist s i) c \<and>
     tiles (map msg_range (msgs_of i (sy_gw s))) 0 (reported (sy_hist s i) c) \<and>
     (\<forall>t. sy_subs s (i, t) \<noteq> None \<longrightarrow> unat t \<le> unbuffered (sy_hist s i) c) \<and>
     pending_sub (sy_subs s) i (sy_hist s i) (cn_pending c)"

definition conns_inv :: "system \<Rightarrow> bool" where
  "conns_inv s \<longleftrightarrow>
     (\<forall>i c. gw_conns (sy_gw s) i = Some c \<longrightarrow> i < gw_next_id (sy_gw s) \<and> conn_sys s i c) \<and>
     (\<forall>i \<ge> gw_next_id (sy_gw s). sy_hist s i = [] \<and> msgs_of i (sy_gw s) = [] \<and> (\<forall>t. sy_subs s (i, t) = None))"

definition log_inv :: "config \<Rightarrow> from_slice \<Rightarrow> (bytes \<Rightarrow> bytes) \<Rightarrow> system \<Rightarrow> bool" where
  "log_inv cf fs wire s \<longleftrightarrow>
     (\<forall>i. (\<exists>n \<le> length (sy_hist s i). tiles (map msg_range (msgs_of i (sy_gw s))) 0 n) \<and>
          (\<forall>m. Msg_partial m \<in> set (msgs_of i (sy_gw s)) \<longrightarrow> genuine cf fs wire (sy_hist s i) m))"

text \<open>The audio under way in thread B's channel, in its slots and in the completions.\<close>

definition work_inv :: "config \<Rightarrow> from_slice \<Rightarrow> (bytes \<Rightarrow> bytes) \<Rightarrow> system \<Rightarrow> bool" where
  "work_inv cf fs wire s \<longleftrightarrow>
     pool_inv (sy_pool s) \<and>
     (\<forall>i t body n. Submit i t body n \<in> set (gw_cmds (sy_gw s)) \<longrightarrow>
        n = cf_cpu_passes cf \<and> sy_subs s (i, t) = Some body) \<and>
     (\<forall>sl \<in> set (pl_slots (sy_pool s)). \<forall>i. sl_owner sl = Some i \<longrightarrow>
        (\<exists>body. sy_subs s (i, sl_tag sl) = Some body \<and> sl_req sl = request cf body)) \<and>
     (\<forall>i t r. (i, t, Ok r) \<in> set (gw_dones (sy_gw s)) \<longrightarrow>
        (\<exists>body. sy_subs s (i, t) = Some body \<and> answered cf fs wire body r))"

definition sys_inv :: "config \<Rightarrow> from_slice \<Rightarrow> (bytes \<Rightarrow> bytes) \<Rightarrow> system \<Rightarrow> bool" where
  "sys_inv cf fs wire s \<longleftrightarrow> conns_inv s \<and> log_inv cf fs wire s \<and> work_inv cf fs wire s"

subsection \<open>Ranges and messages\<close>

lemma genuine_append: "genuine cf fs wire hist m \<Longrightarrow> genuine cf fs wire (hist @ zs) m"
  by (fastforce simp: genuine_def frames_of_append)

lemma msgs_of_simps [simp]:
  "msgs_of i (set_conn j c g) = msgs_of i g" "msgs_of i (send_cmd x g) = msgs_of i g"
  "msgs_of i (gw_timers_update f g) = msgs_of i g" "msgs_of i (gw_conns_update h g) = msgs_of i g"
  "msgs_of i (gw_dones_update k g) = msgs_of i g" "msgs_of i (gw_cmds_update l g) = msgs_of i g"
  "msgs_of i (gw_ops_update m g) = msgs_of i g" "msgs_of i (gw_next_id_update n g) = msgs_of i g"
  "msgs_of i (push_dones ds g) = msgs_of i g"
  by (simp_all add: msgs_of_def set_conn_def send_cmd_def push_dones_def)

lemma msg_to_close: "\<forall>m. Out_msg m \<notin> set outs \<Longrightarrow> concat (map (msg_to i) (map (Pair j) outs)) = []"
proof (induction outs)
  case (Cons a outs)
  then show ?case by (cases a) auto
qed simp

lemma msgs_of_log_none: "\<forall>m. Out_msg m \<notin> set outs \<Longrightarrow> msgs_of i (log_outs j w outs ops g) = msgs_of i g"
  using msg_to_close [of outs i j] by (simp add: msgs_of_def log_outs_def)

lemma msgs_of_log_msg:
  "msgs_of i (log_outs j w [Out_msg m] ops g) = (if i = j then msgs_of i g @ [m] else msgs_of i g)"
  by (simp add: msgs_of_def log_outs_def)

lemma msgs_of_a_close [simp]: "msgs_of i (a_close j g) = msgs_of i g"
  by (simp add: a_close_def Let_def split: option.splits)

lemma gw_fields [simp]:
  "gw_conns (log_outs i w outs ops g) = gw_conns g" "gw_conns (set_conn i c g) = (gw_conns g)(i \<mapsto> c)"
  "gw_conns (send_cmd k g) = gw_conns g" "gw_conns (push_dones ds g) = gw_conns g"
  "gw_next_id (log_outs i w outs ops g) = gw_next_id g" "gw_next_id (set_conn i c g) = gw_next_id g"
  "gw_next_id (send_cmd k g) = gw_next_id g" "gw_next_id (push_dones ds g) = gw_next_id g"
  "gw_cmds (log_outs i w outs ops g) = gw_cmds g" "gw_cmds (set_conn i c g) = gw_cmds g"
  "gw_cmds (send_cmd k g) = gw_cmds g @ [k]" "gw_cmds (push_dones ds g) = gw_cmds g"
  "gw_dones (log_outs i w outs ops g) = gw_dones g" "gw_dones (set_conn i c g) = gw_dones g"
  "gw_dones (send_cmd k g) = gw_dones g" "gw_dones (push_dones ds g) = gw_dones g @ ds"
  by (simp_all add: log_outs_def set_conn_def send_cmd_def push_dones_def)

text \<open>The batch of a pending request, as numbers.\<close>

lemma batch_inv_nat:
  assumes "batch_inv e b" and "e < 2 ^ 64"
  shows "unat (ba_newest_seq b) = e" "unat (ba_oldest_seq b) = e - unat (ba_frames b) + 1"
    "0 < unat (ba_frames b)" "unat (ba_frames b) \<le> e" "ba_oldest_seq b \<le> ba_newest_seq b"
    "ba_frames b = ba_newest_seq b - ba_oldest_seq b + 1"
proof -
  define k where "k = unat (ba_frames b)"
  have k: "0 < k" "k \<le> e" "ba_oldest_seq b = of_nat (e - k) + 1" "ba_newest_seq b = of_nat e"
    using assms(1) by (simp_all add: batch_inv_def Let_def k_def)
  then show "0 < unat (ba_frames b)" "unat (ba_frames b) \<le> e" by (simp_all add: k_def)
  show n: "unat (ba_newest_seq b) = e" using assms(2) k(4) by (simp add: unat_of_nat)
  have "ba_oldest_seq b = of_nat (e - k + 1)" by (simp add: k(3))
  then have o: "unat (ba_oldest_seq b) = e - k + 1"
    using assms(2) k by (simp only: unat_of_nat) simp
  then show "unat (ba_oldest_seq b) = e - unat (ba_frames b) + 1" by (simp add: k_def)
  show "ba_oldest_seq b \<le> ba_newest_seq b" using o n k by (simp add: word_le_nat_alt)
  have "of_nat e = of_nat (e - k) + (of_nat k :: u64)" using k(2) by (simp flip: of_nat_add)
  then have "ba_newest_seq b - ba_oldest_seq b + 1 = of_nat k" by (simp add: k(3,4))
  then show "ba_frames b = ba_newest_seq b - ba_oldest_seq b + 1" by (simp add: k_def)
qed

lemma conn_inv_lt: "conn_inv hist c \<Longrightarrow> unbuffered hist c \<le> length hist \<and> length hist < 2 ^ 64"
  by (simp add: conn_inv_def unbuffered_def)

lemma reported_le: "conn_inv hist c \<Longrightarrow> reported hist c \<le> length hist"
  using conn_inv_lt [of hist c] unfolding reported_def by linarith

subsection \<open>Every step keeps the invariant\<close>

text \<open>A step that changes one connection only.\<close>

lemma sys_inv_conn:
  assumes "conns_inv s" and "log_inv cf fs wire s" and "gw_conns (sy_gw s) i \<noteq> None"
    and "gw_conns (sy_gw s') = (gw_conns (sy_gw s))(i \<mapsto> c')" and "gw_next_id (sy_gw s') = gw_next_id (sy_gw s)"
    and other: "\<And>j. j \<noteq> i \<Longrightarrow> sy_hist s' j = sy_hist s j \<and> msgs_of j (sy_gw s') = msgs_of j (sy_gw s) \<and>
      (\<forall>t. sy_subs s' (j, t) = sy_subs s (j, t))"
    and "conn_sys s' i c'"
    and "\<And>m. Msg_partial m \<in> set (msgs_of i (sy_gw s')) \<Longrightarrow> genuine cf fs wire (sy_hist s' i) m"
  shows "conns_inv s' \<and> log_inv cf fs wire s'"
proof
  have lt: "i < gw_next_id (sy_gw s)" using assms(1,3) by (auto simp: conns_inv_def)
  have keep: "conn_sys s j c \<Longrightarrow> conn_sys s' j c" if "j \<noteq> i" for j c
  proof -
    have "pending_sub (sy_subs s') j h q = pending_sub (sy_subs s) j h q" for h q
      using other [OF that] by (cases q) auto
    then show "conn_sys s j c \<Longrightarrow> conn_sys s' j c" using other [OF that] by (simp add: conn_sys_def)
  qed
  show "conns_inv s'"
    using assms(1,7) keep other lt unfolding conns_inv_def assms(4,5)
    by (metis fun_upd_apply leD option.inject)
  have "tiles (map msg_range (msgs_of i (sy_gw s'))) 0 (reported (sy_hist s' i) c')"
    and "reported (sy_hist s' i) c' \<le> length (sy_hist s' i)"
    using assms(7) reported_le by (auto simp: conn_sys_def)
  then show "log_inv cf fs wire s'"
    using assms(2,8) other unfolding log_inv_def by metis
qed

text \<open>A step of thread A that sends nothing to thread B and takes at most completions.\<close>

lemma work_inv_less:
  assumes "work_inv cf fs wire s" and "sy_pool s' = sy_pool s" and "sy_subs s \<subseteq>\<^sub>m sy_subs s'"
    and "\<And>i t body n. Submit i t body n \<in> set (gw_cmds (sy_gw s')) \<Longrightarrow>
      Submit i t body n \<in> set (gw_cmds (sy_gw s)) \<or> n = cf_cpu_passes cf \<and> sy_subs s' (i, t) = Some body"
    and "set (gw_dones (sy_gw s')) \<subseteq> set (gw_dones (sy_gw s))"
  shows "work_inv cf fs wire s'"
proof -
  have mono: "sy_subs s k = Some v \<Longrightarrow> sy_subs s' k = Some v" for k v
    using assms(3) by (metis domI map_le_def)
  show ?thesis
    using assms(1,4,5) mono unfolding work_inv_def assms(2) by (meson subsetD)
qed

lemma pending_nat:
  assumes "conn_inv hist c" and "cn_pending c = Some p"
  defines "b \<equiv> pe_batch p"
  shows "unat (ba_newest_seq b) = unbuffered hist c" "unat (ba_oldest_seq b) = reported hist c + 1"
    "ba_oldest_seq b \<le> ba_newest_seq b" "ba_frames b = ba_newest_seq b - ba_oldest_seq b + 1"
    "reported hist c + unat (ba_frames b) = unbuffered hist c" "unat (ba_newest_seq b) \<le> length hist"
proof -
  have "batch_inv (unbuffered hist c) b" using assms(1,2) by (simp add: conn_inv_def b_def)
  note n = batch_inv_nat [OF this] and lt = conn_inv_lt [OF assms(1)]
  show "unat (ba_newest_seq b) = unbuffered hist c" "unat (ba_oldest_seq b) = reported hist c + 1"
    "ba_oldest_seq b \<le> ba_newest_seq b" "ba_frames b = ba_newest_seq b - ba_oldest_seq b + 1"
    "reported hist c + unat (ba_frames b) = unbuffered hist c" "unat (ba_newest_seq b) \<le> length hist"
    using n lt by (simp_all add: reported_def assms(2) b_def)
qed

text \<open>Delivering the answer to the pending request, from thread B or on a timeout.\<close>

lemma deliver_sys:
  assumes inv: "conn_sys s i c" and p: "cn_pending c = Some p" and ser: "\<forall>m. xt_ser_ok x m"
    and d: "deliver x env cf res c = (r, c', w, outs, ops)"
    and res: "\<And>a. res = Ok a \<Longrightarrow> \<exists>body. sy_subs s (i, batch_tag (pe_batch p)) = Some body \<and> answered cf fs wire body a"
    and gen: "\<And>m. Msg_partial m \<in> set (msgs_of i (sy_gw s)) \<Longrightarrow> genuine cf fs wire (sy_hist s i) m"
    and s': "sy_hist s' i = sy_hist s i" "\<forall>t. sy_subs s' (i, t) = sy_subs s (i, t)"
      "msgs_of i (sy_gw s') = msgs_of i (sy_gw s) @ [m]" and outs: "outs = [Out_msg m]"
  shows "conn_sys s' i c'" and "\<And>m. Msg_partial m \<in> set (msgs_of i (sy_gw s')) \<Longrightarrow> genuine cf fs wire (sy_hist s' i) m"
proof -
  define h where "h = sy_hist s i"
  define b where "b = pe_batch p"
  have ci: "conn_inv h c" using inv by (simp add: conn_sys_def h_def)
  note di = deliver_inv [OF ci p ser d, folded b_def] and pn = pending_nat [OF ci p, folded b_def]
  have m: "m = (case res of Ok a \<Rightarrow> Msg_partial (partial_of cf b a) | Err e \<Rightarrow> Msg_error (error_of (ce_now env) b e))"
    using di outs by simp
  have rg: "msg_range m = (ba_oldest_seq b, ba_newest_seq b)"
    by (cases res) (simp_all add: m partial_of_def error_of_def)
  have un: "unbuffered h c' = unbuffered h c" using di by (simp add: unbuffered_def)
  have "tiles (map msg_range (msgs_of i (sy_gw s'))) 0 (reported h c')"
    using inv di pn by (simp add: conn_sys_def s'(3) rg tiles_append h_def [symmetric])
  then show "conn_sys s' i c'"
    using inv di by (simp add: conn_sys_def s'(1,2) h_def [symmetric] un)
  have "genuine cf fs wire h q" if "m = Msg_partial q" for q
  proof -
    obtain a where a: "res = Ok a" "q = partial_of cf b a" using m \<open>m = Msg_partial q\<close> by (cases res) auto
    have "sy_subs s (i, batch_tag b) = Some (concat (frames_of h (ba_oldest_seq b) (ba_newest_seq b)))"
      using inv p by (simp add: conn_sys_def h_def b_def)
    then have "answered cf fs wire (concat (frames_of h (ba_oldest_seq b) (ba_newest_seq b))) a"
      using res [OF a(1)] by (simp add: b_def)
    then show ?thesis
      unfolding genuine_def using a(2) pn by (intro exI [of _ b] exI [of _ a]) simp
  qed
  then show "\<And>m. Msg_partial m \<in> set (msgs_of i (sy_gw s')) \<Longrightarrow> genuine cf fs wire (sy_hist s' i) m"
    using gen by (auto simp: s' h_def)
qed

lemma accept_sys:
  assumes "sys_inv cf fs wire s"
  shows "sys_inv cf fs wire (s\<lparr>sy_gw := accept_one cf fd ok j now (sy_gw s)\<rparr>)"
proof -
  define g where "g = accept_one cf fd ok j now (sy_gw s)"
  define n where "n = gw_next_id (sy_gw s)"
  define c where "c = conn_new n fd cf j now"
  have g: "gw_next_id g = n + 1" "gw_conns g = (if ok then (gw_conns (sy_gw s))(n \<mapsto> c) else gw_conns (sy_gw s))"
    "\<And>i. msgs_of i g = msgs_of i (sy_gw s)" "gw_cmds g = gw_cmds (sy_gw s)" "gw_dones g = gw_dones (sy_gw s)"
    by (simp_all add: g_def n_def c_def accept_one_def Let_def)
  have new: "sy_hist s n = [] \<and> msgs_of n (sy_gw s) = [] \<and> (\<forall>t. sy_subs s (n, t) = None)"
    using assms by (simp add: sys_inv_def conns_inv_def n_def)
  have "conn_sys (s\<lparr>sy_gw := g\<rparr>) n c"
    using new conn_new_inv [of n fd cf j now]
    by (simp add: conn_sys_def c_def g(3)) (simp add: conn_new_def reported_def unbuffered_def Let_def)
  moreover have "conn_sys (s\<lparr>sy_gw := g\<rparr>) i a" if "conn_sys s i a" for i a
    using that by (simp add: conn_sys_def g(3))
  ultimately have "conns_inv (s\<lparr>sy_gw := g\<rparr>)"
    using assms by (auto simp: sys_inv_def conns_inv_def g n_def [symmetric] less_Suc_eq split: if_splits)
  moreover have "log_inv cf fs wire (s\<lparr>sy_gw := g\<rparr>)" using assms by (simp add: sys_inv_def log_inv_def g)
  moreover have "work_inv cf fs wire (s\<lparr>sy_gw := g\<rparr>)" using assms by (simp add: sys_inv_def work_inv_def g)
  ultimately show ?thesis by (simp add: sys_inv_def g_def)
qed

lemma sys_inv_parts:
  "sys_inv cf fs wire s \<Longrightarrow> conns_inv s" "sys_inv cf fs wire s \<Longrightarrow> log_inv cf fs wire s"
  "sys_inv cf fs wire s \<Longrightarrow> work_inv cf fs wire s"
  by (simp_all add: sys_inv_def)

lemma conns_inv_sys: "conns_inv s \<Longrightarrow> gw_conns (sy_gw s) i = Some c \<Longrightarrow> conn_sys s i c"
  by (simp add: conns_inv_def)

lemma log_inv_genuine:
  "log_inv cf fs wire s \<Longrightarrow> Msg_partial m \<in> set (msgs_of i (sy_gw s)) \<Longrightarrow> genuine cf fs wire (sy_hist s i) m"
  by (simp add: log_inv_def)

lemma ready_sys:
  assumes inv: "sys_inv cf fs wire s" and ev: "a_ready x env rd wr i (sy_gw s) = Ret (cl, g')"
    and lt: "length (sy_hist s i) + length (ready_frames x env rd i (sy_gw s)) < 2 ^ 64"
  shows "sys_inv cf fs wire
    (s\<lparr>sy_gw := g', sy_hist := (sy_hist s)(i := sy_hist s i @ ready_frames x env rd i (sy_gw s))\<rparr>)"
proof (cases "gw_conns (sy_gw s) i")
  case None
  then have "g' = sy_gw s" using ev by (simp add: a_ready_def)
  with None inv show ?thesis by (simp add: ready_frames_def)
next
  case (Some c)
  then obtain r c' w outs ops where o: "on_ready x env rd wr c = Ret (r, c', w, outs, ops)"
    and g': "g' = log_outs i w outs ops (set_conn i c' (sy_gw s))"
    using ev by (auto simp: a_ready_def split: rust.splits)
  define zs where "zs = new_frames x env rd c"
  define h where "h = sy_hist s i"
  have fr: "ready_frames x env rd i (sy_gw s) = zs" by (simp add: ready_frames_def Some zs_def)
  define s' where "s' = s\<lparr>sy_gw := g', sy_hist := (sy_hist s)(i := h @ zs)\<rparr>"
  have cs: "conn_sys s i c" using conns_inv_sys [OF sys_inv_parts(1) [OF inv] Some] .
  then have ci: "conn_inv h c" by (simp add: conn_sys_def h_def)
  have post: "conn_inv (h @ zs) c'" "same_batches h c (h @ zs) c'" "\<forall>m. Out_msg m \<notin> set outs"
    using on_ready_inv [OF ci _ o] lt by (simp_all add: fr zs_def h_def)
  have msgs: "msgs_of j g' = msgs_of j (sy_gw s)" for j using post(3) by (simp add: g' msgs_of_log_none)
  have pend: "pending_sub (sy_subs s) i (h @ zs) (cn_pending c)"
  proof (cases "cn_pending c")
    case (Some p)
    with cs pending_nat [OF ci Some] show ?thesis
      by (simp add: conn_sys_def h_def [symmetric] frames_of_append)
  qed simp
  have "conn_sys s' i c'"
    using cs post same_batches_reported [OF post(2)] pend
    by (simp add: conn_sys_def s'_def msgs h_def [symmetric] same_batches_def)
  moreover have "genuine cf fs wire (sy_hist s' i) m" if "Msg_partial m \<in> set (msgs_of i (sy_gw s'))" for m
    using log_inv_genuine [OF sys_inv_parts(2) [OF inv], of m i] that
    by (simp add: s'_def msgs h_def genuine_append)
  ultimately have "conns_inv s' \<and> log_inv cf fs wire s'"
    using Some by (intro sys_inv_conn [OF sys_inv_parts(1,2) [OF inv], where i = i and c' = c'])
      (simp_all add: s'_def g' msgs [unfolded g'])
  moreover have "work_inv cf fs wire s'"
    by (rule work_inv_less [OF sys_inv_parts(3) [OF inv]]) (auto simp: s'_def g' map_le_def)
  ultimately show ?thesis by (simp add: sys_inv_def s'_def fr h_def)
qed

lemma result_sys:
  assumes inv: "sys_inv cf fs wire s" and ser: "\<forall>m. xt_ser_ok x m" and ds: "gw_dones (sy_gw s) = d # ds"
    and ev: "a_done x cf env d ((sy_gw s)\<lparr>gw_dones := ds\<rparr>) = (cl, g')"
  shows "sys_inv cf fs wire (s\<lparr>sy_gw := g'\<rparr>)"
proof -
  obtain i tag res where d: "d = (i, tag, res)" by (cases d)
  have less: "sys_inv cf fs wire (s\<lparr>sy_gw := (sy_gw s)\<lparr>gw_dones := ds\<rparr>\<rparr>)"
    using inv ds by (auto simp: sys_inv_def conns_inv_def log_inv_def work_inv_def conn_sys_def)
  show ?thesis
  proof (cases "\<exists>c p. gw_conns (sy_gw s) i = Some c \<and> cn_pending c = Some p \<and> batch_tag (pe_batch p) = tag")
    case False
    have "g' = (sy_gw s)\<lparr>gw_dones := ds\<rparr> \<or> (\<exists>c. gw_conns (sy_gw s) i = Some c \<and>
        g' = log_outs i [] [] [] (set_conn i c ((sy_gw s)\<lparr>gw_dones := ds\<rparr>)))"
      using ev False by (auto simp: a_done_def d on_done_def split: option.splits)
    then have "g' = (sy_gw s)\<lparr>gw_dones := ds\<rparr>" by (auto simp: log_outs_def set_conn_def fun_upd_idem)
    then show ?thesis using less by simp
  next
    case True
    then obtain c p where c: "gw_conns (sy_gw s) i = Some c" and p: "cn_pending c = Some p"
      and t: "batch_tag (pe_batch p) = tag" by blast
    obtain r c' w outs ops where dl: "deliver x env cf res c = (r, c', w, outs, ops)" by (metis prod_cases5)
    have g': "g' = log_outs i w outs ops (set_conn i c' ((sy_gw s)\<lparr>gw_dones := ds\<rparr>))"
      using ev c p t dl by (auto simp: a_done_def d on_done_def)
    have cs: "conn_sys s i c" using conns_inv_sys [OF sys_inv_parts(1) [OF inv] c] .
    then obtain m where outs: "outs = [Out_msg m]"
      using deliver_inv [OF _ p ser dl] by (auto simp: conn_sys_def)
    have msgs: "msgs_of j g' = (if j = i then msgs_of j (sy_gw s) @ [m] else msgs_of j (sy_gw s))" for j
      by (simp add: g' outs msgs_of_log_msg)
    define s' where "s' = s\<lparr>sy_gw := g'\<rparr>"
    have "\<exists>body. sy_subs s (i, batch_tag (pe_batch p)) = Some body \<and> answered cf fs wire body a" if "res = Ok a" for a
      using inv ds that t by (simp add: sys_inv_def work_inv_def d)
    note del = deliver_sys [OF cs p ser dl this log_inv_genuine [OF sys_inv_parts(2) [OF inv]] _ _ _ outs, of s']
    have "conns_inv s' \<and> log_inv cf fs wire s'"
      by (rule sys_inv_conn [OF sys_inv_parts(1,2) [OF inv], where i = i and c' = c'])
        (use del c msgs in \<open>auto simp: s'_def, auto simp: g'\<close>)
    moreover have "work_inv cf fs wire s'"
      by (rule work_inv_less [OF sys_inv_parts(3) [OF inv]]) (auto simp: s'_def g' ds)
    ultimately show ?thesis by (simp add: sys_inv_def s'_def)
  qed
qed

lemma flush_audio:
  assumes "conn_inv h c" and "on_timer cf now c = (Tick_flush b, c1)"
  shows "cn_pcm c1 = concat (frames_of h (ba_oldest_seq b) (ba_newest_seq b))"
    and "unat (batch_tag b) = reported h c + 1" and "reported h c < length h"
    and "reported h c = unbuffered h c"
proof -
  note f = on_timer_flush [OF assms] and lt = conn_inv_lt [OF assms(1)]
  note n = batch_inv_nat [OF f(4)]
  have o: "unat (ba_oldest_seq b) = reported h c + 1" using n(2) lt f(6) by simp
  moreover have "unat (ba_newest_seq b) = length h" using n(1) lt by simp
  ultimately show "cn_pcm c1 = concat (frames_of h (ba_oldest_seq b) (ba_newest_seq b))"
    using f(5,6) by (simp add: frames_of_def)
  show "unat (batch_tag b) = reported h c + 1" using o by (simp add: batch_tag_def)
  show "reported h c < length h" using f(6) n(3) lt by simp
  show "reported h c = unbuffered h c" by (simp add: reported_def f(1))
qed

lemma flush_sys:
  assumes inv: "sys_inv cf fs wire s" and c: "gw_conns (sy_gw s) i = Some c"
    and ot: "on_timer cf now c = (Tick_flush b, c1)"
    and g': "g' = gw_timers_update f (send_cmd (Submit i (batch_tag b) (cn_pcm c1) (cf_cpu_passes cf))
      (set_conn i (begin_pending b now c1) (gw_timers_update f' (sy_gw s))))"
  shows "sys_inv cf fs wire (s\<lparr>sy_gw := g', sy_subs := (sy_subs s)((i, batch_tag b) \<mapsto> cn_pcm c1)\<rparr>)"
proof -
  define h where "h = sy_hist s i"
  define c2 where "c2 = begin_pending b now c1"
  define s' where "s' = s\<lparr>sy_gw := g', sy_subs := (sy_subs s)((i, batch_tag b) \<mapsto> cn_pcm c1)\<rparr>"
  have cs: "conn_sys s i c" using conns_inv_sys [OF sys_inv_parts(1) [OF inv] c] .
  then have ci: "conn_inv h c" by (simp add: conn_sys_def h_def)
  note fa = flush_audio [OF ci ot] and bp = begin_pending_inv [OF ci ot, of now, folded c2_def]
  have msgs: "msgs_of j g' = msgs_of j (sy_gw s)" for j by (simp add: g')
  have un: "unbuffered h c2 = length h" by (simp add: unbuffered_def c2_def begin_pending_def)
  have tag: "unat t \<le> reported h c" if "sy_subs s (i, t) \<noteq> None" for t
    using cs that fa(4) by (simp add: conn_sys_def h_def)
  then have fresh: "sy_subs s (i, batch_tag b) = None" using fa(2) by force
  have "unat t \<le> length h" if "sy_subs s' (i, t) \<noteq> None" for t
    using that tag [of t] fa(2,3) by (auto simp: s'_def split: if_splits)
  moreover have "pending_sub (sy_subs s') i h (cn_pending c2)"
    by (simp add: s'_def c2_def begin_pending_def fa(1))
  ultimately have "conn_sys s' i c2"
    using cs bp un by (simp add: conn_sys_def s'_def msgs h_def [symmetric])
  moreover have "genuine cf fs wire (sy_hist s' i) m" if "Msg_partial m \<in> set (msgs_of i (sy_gw s'))" for m
    using log_inv_genuine [OF sys_inv_parts(2) [OF inv], of m i] that by (simp add: s'_def msgs)
  ultimately have "conns_inv s' \<and> log_inv cf fs wire s'"
    using c by (intro sys_inv_conn [OF sys_inv_parts(1,2) [OF inv], where i = i and c' = c2])
      (simp_all add: s'_def g' c2_def)
  moreover have "work_inv cf fs wire s'"
  proof (rule work_inv_less [OF sys_inv_parts(3) [OF inv]])
    show "sy_subs s \<subseteq>\<^sub>m sy_subs s'" using fresh by (auto simp: s'_def map_le_def)
  qed (auto simp: s'_def g')
  ultimately show ?thesis by (simp add: sys_inv_def s'_def)
qed

lemma timeout_sys:
  assumes inv: "sys_inv cf fs wire s" and ser: "\<forall>m. xt_ser_ok x m" and c: "gw_conns (sy_gw s) i = Some c"
    and p: "cn_pending c = Some p" and dl: "deliver x env cf (Err e) c = (r, c', w, outs, ops)"
    and g': "g' = gw_timers_update f (send_cmd (Abort i)
      (log_outs i w outs ops (set_conn i c' (gw_timers_update f' (sy_gw s)))))"
  shows "sys_inv cf fs wire (s\<lparr>sy_gw := g'\<rparr>)"
proof -
  define s' where "s' = s\<lparr>sy_gw := g'\<rparr>"
  have cs: "conn_sys s i c" using conns_inv_sys [OF sys_inv_parts(1) [OF inv] c] .
  then obtain m where outs: "outs = [Out_msg m]"
    using deliver_inv [OF _ p ser dl] by (auto simp: conn_sys_def)
  have msgs: "msgs_of j g' = (if j = i then msgs_of j (sy_gw s) @ [m] else msgs_of j (sy_gw s))" for j
    by (simp add: g' outs msgs_of_log_msg)
  note del = deliver_sys [OF cs p ser dl _ log_inv_genuine [OF sys_inv_parts(2) [OF inv]] _ _ _ outs, of s']
  have "conns_inv s' \<and> log_inv cf fs wire s'"
    by (rule sys_inv_conn [OF sys_inv_parts(1,2) [OF inv], where i = i and c' = c'])
      (use del c msgs in \<open>auto simp: s'_def, auto simp: g'\<close>)
  moreover have "work_inv cf fs wire s'"
    by (rule work_inv_less [OF sys_inv_parts(3) [OF inv]]) (auto simp: s'_def g')
  ultimately show ?thesis by (simp add: sys_inv_def s'_def)
qed

lemma keep_sys:
  assumes inv: "sys_inv cf fs wire s" and c: "gw_conns (sy_gw s) i = Some c"
    and ot: "on_timer cf now c = (Tick_keep, c1)"
    and g': "g' = gw_timers_update f (set_conn i c1 (gw_timers_update f' (sy_gw s)))"
  shows "sys_inv cf fs wire (s\<lparr>sy_gw := g'\<rparr>)"
proof -
  define s' where "s' = s\<lparr>sy_gw := g'\<rparr>"
  define h where "h = sy_hist s i"
  have cs: "conn_sys s i c" using conns_inv_sys [OF sys_inv_parts(1) [OF inv] c] .
  then have ci: "conn_inv h c" by (simp add: conn_sys_def h_def)
  note k = on_timer_keep [OF ci ot]
  have "conn_sys s' i c1" using cs k by (simp add: conn_sys_def s'_def g' h_def [symmetric] unbuffered_def)
  then have "conns_inv s' \<and> log_inv cf fs wire s'"
    using c log_inv_genuine [OF sys_inv_parts(2) [OF inv]]
    by (intro sys_inv_conn [OF sys_inv_parts(1,2) [OF inv], where i = i and c' = c1]) (auto simp: s'_def g')
  moreover have "work_inv cf fs wire s'"
    by (rule work_inv_less [OF sys_inv_parts(3) [OF inv]]) (auto simp: s'_def g')
  ultimately show ?thesis by (simp add: sys_inv_def s'_def)
qed

lemma timer_sys:
  assumes inv: "sys_inv cf fs wire s" and ser: "\<forall>m. xt_ser_ok x m"
    and ev: "timer_step x cf envs now (sy_gw s) = Some (cls, g')"
  shows "sys_inv cf fs wire (s\<lparr>sy_gw := g', sy_subs := fold add_sub (new_cmds (sy_gw s) g') (sy_subs s)\<rparr>)"
  using ev
proof (cases rule: timer_step_cases)
  case (skip t i)
  then show ?thesis
    using inv by (auto simp: new_cmds_def sys_inv_def conns_inv_def log_inv_def work_inv_def conn_sys_def)
next
  case (tick t i c cl)
  define g1 where "g1 = (sy_gw s)\<lparr>gw_timers := timer_pop (gw_timers (sy_gw s))\<rparr>"
  obtain tk c1 where ot: "on_timer cf now c = (tk, c1)" by (cases "on_timer cf now c")
  note at = tick(4) [folded g1_def, unfolded a_tick_def ot]
  show ?thesis
  proof (cases tk)
    case Tick_keep
    then have g': "g' = (set_conn i c1 g1)\<lparr>gw_timers := timer_push (deadline c1, i) (gw_timers g1)\<rparr>"
      using at by simp
    then have "new_cmds (sy_gw s) g' = []" by (simp add: new_cmds_def g1_def)
    then show ?thesis
      using keep_sys [OF inv tick(3) ot [unfolded Tick_keep] g' [unfolded g1_def]] by simp
  next
    case (Tick_flush b)
    define c2 where "c2 = begin_pending b now c1"
    have g': "g' = (send_cmd (Submit i (batch_tag b) (cn_pcm c1) (cf_cpu_passes cf)) (set_conn i c2 g1))
        \<lparr>gw_timers := timer_push (deadline c2, i) (gw_timers g1)\<rparr>"
      using at Tick_flush by (simp add: Let_def c2_def)
    then have "new_cmds (sy_gw s) g' = [Submit i (batch_tag b) (cn_pcm c1) (cf_cpu_passes cf)]"
      by (simp add: new_cmds_def g1_def)
    then show ?thesis
      using flush_sys [OF inv tick(3) ot [unfolded Tick_flush] g' [unfolded g1_def c2_def]] by simp
  next
    case (Tick_timeout e)
    obtain r c2 w outs ops where dl: "deliver x (envs i) cf (Err (timeout_error e)) c1 = (r, c2, w, outs, ops)"
      by (metis prod_cases5)
    obtain f where g': "g' = gw_timers_update f (send_cmd (Abort i) (log_outs i w outs ops (set_conn i c2 g1)))"
    proof (cases "r = Close")
      case True
      then show ?thesis using that [of id] at Tick_timeout dl by simp
    next
      case False
      then show ?thesis using that [of "\<lambda>_. timer_push (deadline c2, i) (gw_timers g1)"] at Tick_timeout dl
        by (simp add: Let_def)
    qed
    then have "new_cmds (sy_gw s) g' = [Abort i]" by (simp add: new_cmds_def g1_def)
    moreover have "c1 = c" "\<exists>p. cn_pending c = Some p"
      using ot Tick_timeout by (auto simp: on_timer_def Let_def split: option.splits if_splits)
    ultimately show ?thesis
      using timeout_sys [OF inv ser tick(3) _ _ g' [unfolded g1_def]] dl by auto
  qed
qed

lemma a_close_fields [simp]:
  "gw_next_id (a_close i g) = gw_next_id g" "gw_dones (a_close i g) = gw_dones g"
  "Submit j t body n \<in> set (gw_cmds (a_close i g)) \<longleftrightarrow> Submit j t body n \<in> set (gw_cmds g)"
  by (auto simp: a_close_def Let_def split: option.splits)

lemma close_sys:
  assumes inv: "sys_inv cf fs wire s"
  shows "sys_inv cf fs wire (s\<lparr>sy_gw := a_close i (sy_gw s)\<rparr>)"
proof -
  define s' where "s' = s\<lparr>sy_gw := a_close i (sy_gw s)\<rparr>"
  have "conns_inv s'" "log_inv cf fs wire s'"
    using inv a_close_conns [of i "sy_gw s"]
    by (auto simp: s'_def sys_inv_def conns_inv_def log_inv_def conn_sys_def split: if_splits)
  moreover have "work_inv cf fs wire s'"
    by (rule work_inv_less [OF sys_inv_parts(3) [OF inv]]) (auto simp: s'_def)
  ultimately show ?thesis by (simp add: sys_inv_def s'_def)
qed

text \<open>Steps of thread B leave the connections and the log alone.\<close>

lemma work_sys:
  assumes inv: "sys_inv cf fs wire s" and "gw_conns g' = gw_conns (sy_gw s)"
    and "gw_next_id g' = gw_next_id (sy_gw s)" and "\<And>i. msgs_of i g' = msgs_of i (sy_gw s)"
    and "work_inv cf fs wire (s\<lparr>sy_pool := p', sy_gw := g'\<rparr>)"
  shows "sys_inv cf fs wire (s\<lparr>sy_pool := p', sy_gw := g'\<rparr>)"
  using assms by (auto simp: sys_inv_def conns_inv_def log_inv_def conn_sys_def)

lemma socket_sys:
  assumes inv: "sys_inv cf fs wire s" and ev: "on_event fs env idx w (sy_pool s) = Ret (d, p', ops)"
    and rc: "receives wire env (pl_slots (sy_pool s) ! idx)"
  shows "sys_inv cf fs wire (s\<lparr>sy_pool := p', sy_gw := push_dones (done_list d) (sy_gw s)\<rparr>)"
proof (rule work_sys [OF inv])
  define sl where "sl = pl_slots (sy_pool s) ! idx"
  have w: "work_inv cf fs wire s" and p: "pool_inv (sy_pool s)" using inv by (simp_all add: sys_inv_def work_inv_def)
  note ef = on_event_effect [OF p ev, folded sl_def]
  have req: "\<exists>body. sy_subs s (i, sl_tag sl) = Some body \<and> sl_req sl = request cf body" if "sl_owner sl = Some i" for i
    using w ef that by (auto simp: work_inv_def sl_def)
  obtain s' where s': "pl_slots p' = (pl_slots (sy_pool s))[idx := s']"
    "sl_owner s' = None \<or> sl_owner s' = sl_owner sl \<and> sl_tag s' = sl_tag sl \<and> sl_req s' = sl_req sl"
    using ef by blast
  have slots: "\<exists>body. sy_subs s (i, sl_tag q) = Some body \<and> sl_req q = request cf body"
    if q: "q \<in> set (pl_slots p')" "sl_owner q = Some i" for q i
  proof -
    from q(1) consider "q = s'" | "q \<in> set (pl_slots (sy_pool s))"
      unfolding s'(1) using set_update_subset_insert by fastforce
    then show ?thesis using s'(2) q(2) req w by cases (auto simp: work_inv_def)
  qed
  have "\<exists>body. sy_subs s (i, t) = Some body \<and> answered cf fs wire body r" if d: "d = Some (i, t, Ok r)" for i t r
  proof -
    obtain resp where o: "sl_owner sl = Some i" "sl_tag sl = t"
      "recv_loop (en_reads env) (sl_resp sl) = (None, resp)" "parse_response fs resp = Ret (Some (Ok r))"
      using ef d by blast
    then have "prefix resp (wire (sl_req sl))" using rc by (simp add: receives_def sl_def)
    from parse_response_mono [OF o(4) this] req [OF o(1)] o(2) show ?thesis by (auto simp: answered_def)
  qed
  then show "work_inv cf fs wire (s\<lparr>sy_pool := p', sy_gw := push_dones (done_list d) (sy_gw s)\<rparr>)"
    using w on_event_inv [OF p ev] slots by (cases d) (auto simp: work_inv_def)
qed simp_all

lemma command_sys:
  assumes inv: "sys_inv cf fs wire s" and cs: "gw_cmds (sy_gw s) = c # cs"
    and ev: "b_cmd env cf c (sy_pool s) = (d, p')"
  shows "sys_inv cf fs wire
    (s\<lparr>sy_pool := p', sy_gw := push_dones (done_list d) ((sy_gw s)\<lparr>gw_cmds := cs\<rparr>)\<rparr>)"
proof (rule work_sys [OF inv])
  have w: "work_inv cf fs wire s" and p: "pool_inv (sy_pool s)" using inv by (simp_all add: sys_inv_def work_inv_def)
  note ef = b_cmd_effect [OF p ev]
  have slots: "\<exists>body. sy_subs s (i, sl_tag q) = Some body \<and> sl_req q = request cf body"
    if q: "q \<in> set (pl_slots p')" "sl_owner q = Some i" for q i
  proof -
    consider sl where "sl \<in> set (pl_slots (sy_pool s))" "sl_owner sl = Some i" "sl_tag sl = sl_tag q" "sl_req sl = sl_req q"
      | body n now sl where "c = Submit i (sl_tag q) body n" "sl_req q = sl_req (build now cf body n sl)"
      using ef q by blast
    then show ?thesis
    proof cases
      case 1
      then show ?thesis using w by (auto simp: work_inv_def)
    next
      case 2
      then have "n = cf_cpu_passes cf" "sy_subs s (i, sl_tag q) = Some body"
        using w by (simp_all add: work_inv_def cs)
      then show ?thesis using 2(2) by (simp add: build_request)
    qed
  qed
  have "pool_inv p'" using b_cmd_inv [OF p, of env cf c] ev by simp
  then show "work_inv cf fs wire
      (s\<lparr>sy_pool := p', sy_gw := push_dones (done_list d) ((sy_gw s)\<lparr>gw_cmds := cs\<rparr>)\<rparr>)"
    using w slots ef by (cases d) (auto simp: work_inv_def cs)
qed simp_all

lemma sys_init_inv: "sys_inv cf fs wire (system_init cf now)"
  using pool_new_inv [of now "unat (cf_inference_clients cf)"]
  by (auto simp: sys_inv_def conns_inv_def log_inv_def work_inv_def system_init_def gateway_init_def msgs_of_def
      pool_new_def slot_new_def)

lemma sys_step_inv:
  assumes "sys_step x cf fs wire s s'" and "\<forall>m. xt_ser_ok x m" and "sys_inv cf fs wire s"
  shows "sys_inv cf fs wire s'"
  using assms
  by (induction rule: sys_step.induct)
    (blast intro: accept_sys ready_sys result_sys timer_sys close_sys socket_sys command_sys)+

lemma reachable_inv:
  assumes "(sys_step x cf fs wire)\<^sup>*\<^sup>* (system_init cf now) s" and "\<forall>m. xt_ser_ok x m"
  shows "sys_inv cf fs wire s"
  using assms(1) by (induction rule: rtranclp_induct) (auto intro: sys_init_inv sys_step_inv [OF _ assms(2)])

subsection \<open>The loops are sequences of steps\<close>

lemma accept_loop_steps:
  "(sys_step x cf fs wire)\<^sup>*\<^sup>* s (s\<lparr>sy_gw := accept_loop cf es (sy_gw s)\<rparr>)"
proof (induction cf es "sy_gw s" arbitrary: s rule: accept_loop.induct)
  case (2 cf e es)
  show ?case
  proof (cases "ac_result e")
    case (Accepted fd)
    define s1 where "s1 = s\<lparr>sy_gw := accept_one cf fd (ac_register_ok e) (ac_jitter e) (ac_now e) (sy_gw s)\<rparr>"
    have "sys_step x cf fs wire s s1" unfolding s1_def by (rule sys_step.accept)
    moreover have "(sys_step x cf fs wire)\<^sup>*\<^sup>* s1 (s1\<lparr>sy_gw := accept_loop cf es (sy_gw s1)\<rparr>)"
      using 2(1) [OF Accepted, of s1] by (simp add: s1_def)
    ultimately show ?thesis
      using Accepted by (simp add: s1_def converse_rtranclp_into_rtranclp)
  next
    case (Accept_err er)
    then show ?thesis using 2(2) [OF Accept_err] by simp
  qed
qed simp

lemma a_drain_steps:
  assumes "gw_dones (sy_gw s) = ds" and "a_drain x cf envs k ds (sy_gw s) = (cls, g')"
  shows "(sys_step x cf fs wire)\<^sup>*\<^sup>* s (s\<lparr>sy_gw := g'\<rparr>)"
  using assms
proof (induction ds arbitrary: s k cls)
  case Nil
  then have "s\<lparr>sy_gw := g'\<rparr> = s" by auto
  then show ?case by simp
next
  case (Cons d ds)
  obtain cl g1 where d: "a_done x cf (envs k) d ((sy_gw s)\<lparr>gw_dones := ds\<rparr>) = (cl, g1)" by (metis prod.exhaust)
  have step: "sys_step x cf fs wire s (s\<lparr>sy_gw := g1\<rparr>)" by (rule sys_step.result [OF Cons.prems(1) d])
  have "gw_dones g1 = ds"
    using d by (auto simp: a_done_def split: prod.splits option.splits)
  moreover obtain cls' where "a_drain x cf envs (k + 1) ds g1 = (cls', g')"
    using Cons.prems(2) d by (auto split: prod.splits)
  ultimately have "(sys_step x cf fs wire)\<^sup>*\<^sup>* (s\<lparr>sy_gw := g1\<rparr>) (s\<lparr>sy_gw := g1, sy_gw := g'\<rparr>)"
    by (intro Cons.IH [where k = "k + 1"]) simp_all
  with step show ?case by (simp add: converse_rtranclp_into_rtranclp)
qed

lemma length_accepted_frames: "length (accepted_frames ok st xs) \<le> length xs"
  by (induction ok st xs rule: accepted_frames.induct) (auto split: ws_read.splits)

lemma length_ready_frames: "length (ready_frames x env rd i g) \<le> length (ce_msgs env)"
  by (simp add: ready_frames_def new_frames_def length_accepted_frames split: option.splits)

text \<open>The messages a list of events can deliver; no connection receives more frames than that.\<close>

definition msgs_in :: "a_event list \<Rightarrow> nat" where
  "msgs_in es = sum_list (map (\<lambda>e. length (ce_msgs (ev_env e))) es)"

lemma a_dispatch_steps:
  assumes ev: "a_dispatch x cf e (sy_gw s) = Ret (cls, g')"
    and lt: "\<forall>i. length (sy_hist s i) + length (ce_msgs (ev_env e)) < 2 ^ 64"
  shows "\<exists>s'. (sys_step x cf fs wire)\<^sup>*\<^sup>* s s' \<and> sy_gw s' = g' \<and> sy_pool s' = sy_pool s \<and>
    (\<forall>i. length (sy_hist s' i) \<le> length (sy_hist s i) + length (ce_msgs (ev_env e)))"
proof (cases "decode (ev_token e)")
  case Listener
  then show ?thesis
    using ev accept_loop_steps [of x cf fs wire s "ev_accepts e"]
    by (intro exI [of _ "s\<lparr>sy_gw := g'\<rparr>"]) (auto simp: a_dispatch_def)
next
  case Result
  then show ?thesis
    using ev a_drain_steps [OF refl, of x cf "ev_done_envs e" 0 s cls g' fs wire]
    by (intro exI [of _ "s\<lparr>sy_gw := g'\<rparr>"]) (auto simp: a_dispatch_def)
next
  case (Ws i)
  define rd where "rd = (ev_readable e \<or> ev_read_closed e \<or> ev_error e)"
  obtain cl where r: "a_ready x (ev_env e) rd (ev_writable e) i (sy_gw s) = Ret (cl, g')"
    using ev Ws by (auto simp: a_dispatch_def rd_def split: rust.splits)
  define zs where "zs = ready_frames x (ev_env e) rd i (sy_gw s)"
  have len: "length zs \<le> length (ce_msgs (ev_env e))" by (simp add: zs_def length_ready_frames)
  have "length (sy_hist s i) + length zs < 2 ^ 64" using lt len by (meson add_left_mono le_less_trans)
  from sys_step.ready [OF r this [unfolded zs_def], folded zs_def] len show ?thesis
    by (intro exI [of _ "s\<lparr>sy_gw := g', sy_hist := (sy_hist s)(i := sy_hist s i @ zs)\<rparr>"]) auto
qed

lemma a_events_steps:
  assumes "a_events x cf es (sy_gw s) = Ret (cls, g')" and "\<forall>i. length (sy_hist s i) + msgs_in es < 2 ^ 64"
  shows "\<exists>s'. (sys_step x cf fs wire)\<^sup>*\<^sup>* s s' \<and> sy_gw s' = g' \<and> sy_pool s' = sy_pool s"
  using assms
proof (induction es arbitrary: s cls)
  case Nil
  then show ?case by auto
next
  case (Cons e es)
  then obtain cl g1 cls' where 1: "a_dispatch x cf e (sy_gw s) = Ret (cl, g1)"
    and 2: "a_events x cf es g1 = Ret (cls', g')" by (auto split: rust.splits prod.splits)
  have lt: "length (sy_hist s i) + (length (ce_msgs (ev_env e)) + msgs_in es) < 2 ^ 64" for i
    using Cons.prems(2) by (simp add: msgs_in_def)
  have "\<forall>i. length (sy_hist s i) + length (ce_msgs (ev_env e)) < 2 ^ 64"
    using lt by (metis add.assoc add_lessD1)
  from a_dispatch_steps [OF 1 this, of fs wire] obtain s1 where s1: "(sys_step x cf fs wire)\<^sup>*\<^sup>* s s1"
    "sy_gw s1 = g1" "sy_pool s1 = sy_pool s"
    "\<forall>i. length (sy_hist s1 i) \<le> length (sy_hist s i) + length (ce_msgs (ev_env e))" by blast
  have "\<forall>i. length (sy_hist s1 i) + msgs_in es < 2 ^ 64"
    using lt s1(4) by (metis (no_types, lifting) add.assoc add_le_mono1 le_less_trans)
  with Cons.IH [of s1] 2 s1(2) obtain s' where "(sys_step x cf fs wire)\<^sup>*\<^sup>* s1 s'" "sy_gw s' = g'"
    "sy_pool s' = sy_pool s1" by blast
  with s1 show ?case by (metis rtranclp_trans)
qed

lemma timer_loop_steps:
  assumes "timer_loop n x cf envs now (sy_gw s) = Some (cls, g')"
  shows "\<exists>s'. (sys_step x cf fs wire)\<^sup>*\<^sup>* s s' \<and> sy_gw s' = g' \<and> sy_pool s' = sy_pool s"
  using assms
proof (induction n arbitrary: s cls)
  case (Suc n)
  show ?case
  proof (cases "timer_step x cf envs now (sy_gw s)")
    case None
    then show ?thesis using Suc.prems by auto
  next
    case (Some r)
    obtain cl g1 where r: "r = (cl, g1)" by (cases r)
    define s1 where "s1 = s\<lparr>sy_gw := g1, sy_subs := fold add_sub (new_cmds (sy_gw s) g1) (sy_subs s)\<rparr>"
    have step: "sys_step x cf fs wire s s1"
      unfolding s1_def by (rule sys_step.timer [OF Some [unfolded r]])
    obtain cls' where "timer_loop n x cf envs now (sy_gw s1) = Some (cls', g')"
      using Suc.prems by (auto simp: Some r s1_def)
    from Suc.IH [OF this] obtain s' where "(sys_step x cf fs wire)\<^sup>*\<^sup>* s1 s'" "sy_gw s' = g'" "sy_pool s' = sy_pool s1"
      by blast
    then show ?thesis using step by (intro exI [of _ s']) (simp add: s1_def converse_rtranclp_into_rtranclp)
  qed
qed simp

lemma close_steps: "(sys_step x cf fs wire)\<^sup>*\<^sup>* s (s\<lparr>sy_gw := fold a_close is (sy_gw s)\<rparr>)"
proof (induction "is" arbitrary: s)
  case (Cons i "is")
  have "sys_step x cf fs wire s (s\<lparr>sy_gw := a_close i (sy_gw s)\<rparr>)" by (rule sys_step.close)
  with Cons [of "s\<lparr>sy_gw := a_close i (sy_gw s)\<rparr>"] show ?case by (simp add: converse_rtranclp_into_rtranclp)
qed simp

lemma a_iteration_steps:
  assumes "a_iteration n x cf es envs now (sy_gw s) = Some (Ret g')"
    and "\<forall>i. length (sy_hist s i) + msgs_in es < 2 ^ 64"
  shows "\<exists>s'. (sys_step x cf fs wire)\<^sup>*\<^sup>* s s' \<and> sy_gw s' = g' \<and> sy_pool s' = sy_pool s"
proof -
  obtain cl1 g1 cl2 g2 where 1: "a_events x cf es (sy_gw s) = Ret (cl1, g1)"
    and 2: "timer_loop n x cf envs now g1 = Some (cl2, g2)" and g': "g' = fold a_close (cl1 @ cl2) g2"
    using assms(1) by (auto simp: a_iteration_def split: rust.splits option.splits)
  from a_events_steps [OF 1 assms(2)] obtain s1 where s1: "(sys_step x cf fs wire)\<^sup>*\<^sup>* s s1" "sy_gw s1 = g1"
    "sy_pool s1 = sy_pool s" by blast
  from timer_loop_steps [of n x cf envs now s1 cl2 g2] 2 s1(2) obtain s2 where s2: "(sys_step x cf fs wire)\<^sup>*\<^sup>* s1 s2"
    "sy_gw s2 = g2" "sy_pool s2 = sy_pool s1" by blast
  show ?thesis
    using s1 s2 close_steps [of x cf fs wire s2 "cl1 @ cl2"]
    by (intro exI [of _ "s2\<lparr>sy_gw := g'\<rparr>"]) (auto simp: g' intro: rtranclp_trans)
qed

text \<open>What the sockets deliver during the events of one iteration of thread B.\<close>

fun all_receive :: "(bytes \<Rightarrow> bytes) \<Rightarrow> from_slice \<Rightarrow> b_event list \<Rightarrow> pool \<Rightarrow> bool" where
  "all_receive wire fs [] p = True"
| "all_receive wire fs (e # es) p =
     (if be_token e = B_WAKE then all_receive wire fs es p
      else receives wire (be_env e) (pl_slots p ! pool_slot (be_token e)) \<and>
        (case on_event fs (be_env e) (pool_slot (be_token e)) (be_writable e) p of
           Panic \<Rightarrow> True
         | Ret (d, p', _) \<Rightarrow> all_receive wire fs es p'))"

lemma push_dones_append: "push_dones ds' (push_dones ds g) = push_dones (ds @ ds') g"
  by (simp add: push_dones_def)

lemma push_dones_Nil [simp]: "push_dones [] g = g"
  by (simp add: push_dones_def)

lemma b_events_steps:
  assumes "b_events fs es (sy_pool s) = Ret (ds, p')" and "all_receive wire fs es (sy_pool s)"
  shows "(sys_step x cf fs wire)\<^sup>*\<^sup>* s (s\<lparr>sy_pool := p', sy_gw := push_dones ds (sy_gw s)\<rparr>)"
  using assms
proof (induction es arbitrary: s ds)
  case (Cons e es)
  show ?case
  proof (cases "be_token e = B_WAKE")
    case True
    then show ?thesis using Cons by simp
  next
    case False
    then obtain d p1 ops ds' where 1: "on_event fs (be_env e) (pool_slot (be_token e)) (be_writable e) (sy_pool s) = Ret (d, p1, ops)"
      and 2: "b_events fs es p1 = Ret (ds', p')" and ds: "ds = done_list d @ ds'"
      using Cons.prems(1) by (auto split: rust.splits prod.splits option.splits)
    define s1 where "s1 = s\<lparr>sy_pool := p1, sy_gw := push_dones (done_list d) (sy_gw s)\<rparr>"
    have rc: "receives wire (be_env e) (pl_slots (sy_pool s) ! pool_slot (be_token e))" "all_receive wire fs es p1"
      using Cons.prems(2) False 1 by simp_all
    have "sys_step x cf fs wire s s1" unfolding s1_def by (rule sys_step.socket [OF 1 rc(1)])
    moreover have "(sys_step x cf fs wire)\<^sup>*\<^sup>* s1 (s1\<lparr>sy_pool := p', sy_gw := push_dones ds' (sy_gw s1)\<rparr>)"
      using Cons.IH [of s1 ds'] 2 rc(2) by (simp add: s1_def)
    ultimately show ?thesis by (simp add: s1_def ds push_dones_append converse_rtranclp_into_rtranclp)
  qed
qed auto

lemma b_drain_steps:
  assumes "b_drain cf cs (sy_pool s) = (ds, p')" and "gw_cmds (sy_gw s) = map fst cs @ rest"
  shows "(sys_step x cf fs wire)\<^sup>*\<^sup>* s
    (s\<lparr>sy_pool := p', sy_gw := push_dones ds ((sy_gw s)\<lparr>gw_cmds := rest\<rparr>)\<rparr>)"
  using assms
proof (induction cs arbitrary: s ds)
  case Nil
  then have "s\<lparr>sy_pool := p', sy_gw := push_dones ds ((sy_gw s)\<lparr>gw_cmds := rest\<rparr>)\<rparr> = s" by auto
  then show ?case by simp
next
  case (Cons ce cs)
  obtain c env where ce: "ce = (c, env)" by (cases ce)
  obtain d p1 ds' where 1: "b_cmd env cf c (sy_pool s) = (d, p1)" and 2: "b_drain cf cs p1 = (ds', p')"
    and ds: "ds = done_list d @ ds'"
    using Cons.prems(1) by (auto simp: ce split: prod.splits option.splits)
  have cmds: "gw_cmds (sy_gw s) = c # (map fst cs @ rest)" using Cons.prems(2) by (simp add: ce)
  define s1 where "s1 = s\<lparr>sy_pool := p1, sy_gw := push_dones (done_list d) ((sy_gw s)\<lparr>gw_cmds := map fst cs @ rest\<rparr>)\<rparr>"
  have "sys_step x cf fs wire s s1" unfolding s1_def by (rule sys_step.command [OF cmds 1])
  moreover have "(sys_step x cf fs wire)\<^sup>*\<^sup>* s1 (s1\<lparr>sy_pool := p', sy_gw := push_dones ds' ((sy_gw s1)\<lparr>gw_cmds := rest\<rparr>)\<rparr>)"
    using Cons.IH [of s1 ds'] 2 by (simp add: s1_def)
  ultimately show ?case
    by (simp add: s1_def ds push_dones_def converse_rtranclp_into_rtranclp)
qed

lemma b_iteration_steps:
  assumes "b_iteration fs cf es cs (sy_pool s) = Ret (ds, woken, p')" and "all_receive wire fs es (sy_pool s)"
    and "gw_cmds (sy_gw s) = map fst cs @ rest"
  shows "(sys_step x cf fs wire)\<^sup>*\<^sup>* s
    (s\<lparr>sy_pool := p', sy_gw := push_dones ds ((sy_gw s)\<lparr>gw_cmds := rest\<rparr>)\<rparr>)"
proof -
  obtain ds1 p1 ds2 where 1: "b_events fs es (sy_pool s) = Ret (ds1, p1)" and 2: "b_drain cf cs p1 = (ds2, p')"
    and ds: "ds = ds1 @ ds2"
    using assms(1) by (auto simp: b_iteration_def split: rust.splits prod.splits)
  define s1 where "s1 = s\<lparr>sy_pool := p1, sy_gw := push_dones ds1 (sy_gw s)\<rparr>"
  have "(sys_step x cf fs wire)\<^sup>*\<^sup>* s s1" unfolding s1_def by (rule b_events_steps [OF 1 assms(2)])
  moreover have "(sys_step x cf fs wire)\<^sup>*\<^sup>* s1 (s1\<lparr>sy_pool := p', sy_gw := push_dones ds2 ((sy_gw s1)\<lparr>gw_cmds := rest\<rparr>)\<rparr>)"
    using b_drain_steps [of cf cs s1 ds2 p' rest] 2 assms(3) by (simp add: s1_def)
  ultimately show ?thesis by (simp add: s1_def ds push_dones_def)
qed

subsection \<open>A run with one frame\<close>

definition example_ext :: externals where
  "example_ext = \<lparr>xt_accept_key = (\<lambda>_. ''acc''), xt_start_ok = (\<lambda>_. True), xt_ser_ok = (\<lambda>_. True)\<rparr>"

definition example_env :: conn_env where
  "example_env = \<lparr>ce_reads = [Rd (as_bytes example_request)], ce_write = Ok (), ce_msgs = [],
     ce_flush = Flush_ok, ce_now = 0\<rparr>"

definition example_conn :: "config \<Rightarrow> conn" where
  "example_conn cf = \<lparr>cn_id = 2, cn_pre = None, cn_hs_buf = as_bytes example_request, cn_ws = Some 7,
     cn_started = False, cn_ws_writable = False, cn_pending = None, cn_pcm = [], cn_meta = [], cn_seq = 0,
     cn_next_flush = cf_flush_interval cf\<rparr>"

lemma example_feed: "feed d (Ok ()) [Rd (as_bytes example_request)] [] =
    (Ok Route_WebSocket, as_bytes example_request, [], [as_bytes (upgrade_response (d (as_bytes ''abc'')))])"
proof -
  define e where "e = as_bytes example_request"
  have len: "length e = 57" by (simp add: e_def example_request_def http_head_def CRLF_def)
  then have ne: "\<forall>c \<in> set [e]. c \<noteq> []" by auto
  have "feed_route d (Ok ()) e = (Ok Route_WebSocket, [as_bytes (upgrade_response (d (as_bytes ''abc'')))])"
    using feed_route_request [of "[''Host: x'', ''Sec-WebSocket-Key: abc'']" "''/ws/stt''" d "Ok ()"] example_header
    by (simp add: e_def example_request_def line_ok_def)
  then show ?thesis using feed_chunks [OF ne, of "[]" d "Ok ()"] len
    by (simp add: e_def [symmetric] MAX_HEADER_BYTES_def)
qed

lemma run_open:
  assumes "cf_flush_phase_jitter cf = 0"
  obtains s where "(sys_step example_ext cf fs wire)\<^sup>*\<^sup>* (system_init cf 0) s"
    "gw_conns (sy_gw s) 2 = Some (example_conn cf)" "gw_timers (sy_gw s) = [(cf_flush_interval cf, 2)]"
    "gw_cmds (sy_gw s) = []" "gw_dones (sy_gw s) = []" "msgs_of 2 (sy_gw s) = []"
    "sy_pool s = pool_new 0 (unat (cf_inference_clients cf))" "sy_hist s = (\<lambda>_. [])" "sy_subs s = (\<lambda>_. None)"
proof -
  define s1 where "s1 = (system_init cf 0)\<lparr>sy_gw := accept_one cf 7 True 0 0 (sy_gw (system_init cf 0))\<rparr>"
  have c1: "gw_conns (sy_gw s1) 2 = Some (conn_new 2 7 cf 0 0)"
    by (simp add: s1_def system_init_def accept_one_def gateway_init_def FIRST_CONN_ID_def Let_def)
  define g2 where "g2 = log_outs 2 [as_bytes (upgrade_response ''acc'')] [] [Reregister 7 2 Readable]
    (set_conn 2 (example_conn cf) (sy_gw s1))"
  have "on_ready example_ext example_env True False (conn_new 2 7 cf 0 0) =
      Ret (Keep, example_conn cf, [as_bytes (upgrade_response ''acc'')], [], [Reregister 7 2 Readable])"
    using assms
    by (simp add: on_ready_def on_readable_def handshake_def conn_new_def example_env_def example_ext_def
        example_feed example_conn_def ws_token_def as_millis_def Let_def)
  then have "a_ready example_ext example_env True False 2 (sy_gw s1) = Ret (False, g2)"
    by (simp add: a_ready_def c1 g2_def)
  moreover have fr: "ready_frames example_ext example_env True 2 (sy_gw s1) = []"
    by (simp add: ready_frames_def c1 new_frames_def example_env_def)
  ultimately have "sys_step example_ext cf fs wire s1 (s1\<lparr>sy_gw := g2\<rparr>)"
    using sys_step.ready [of example_ext example_env True False 2 s1 False g2 cf fs wire]
    by (simp add: s1_def system_init_def fun_upd_idem)
  moreover have "sys_step example_ext cf fs wire (system_init cf 0) s1" unfolding s1_def by (rule sys_step.accept)
  ultimately have "(sys_step example_ext cf fs wire)\<^sup>*\<^sup>* (system_init cf 0) (s1\<lparr>sy_gw := g2\<rparr>)" by auto
  then show thesis
    by (rule that)
      (use assms in \<open>simp_all add: g2_def s1_def system_init_def accept_one_def gateway_init_def FIRST_CONN_ID_def
        log_outs_def set_conn_def msgs_of_def timer_push_def deadline_def conn_new_def as_millis_def Let_def\<close>)
qed

text \<open>The start message and one frame, then the tick that flushes it.\<close>

definition example_batch :: "config \<Rightarrow> batch" where
  "example_batch cf = \<lparr>ba_oldest_seq = 1, ba_newest_seq = 1, ba_oldest_at = 0, ba_newest_at = 0, ba_frames = 1,
     ba_audio_bytes = 640, ba_flush_lateness_ms = as_ms_f64 0\<rparr>"

definition example_pending :: "config \<Rightarrow> conn" where
  "example_pending cf = (example_conn cf)\<lparr>cn_started := True, cn_seq := 1,
     cn_next_flush := cf_flush_interval cf + cf_flush_interval cf,
     cn_pending := Some \<lparr>pe_batch = example_batch cf, pe_started = cf_flush_interval cf\<rparr>\<rparr>"

lemma run_flush:
  assumes "cf_flush_phase_jitter cf = 0" and "length f = 640"
  obtains s where "(sys_step example_ext cf fs wire)\<^sup>*\<^sup>* (system_init cf 0) s"
    "gw_conns (sy_gw s) 2 = Some (example_pending cf)" "gw_cmds (sy_gw s) = [Submit 2 1 f (cf_cpu_passes cf)]"
    "gw_dones (sy_gw s) = []" "msgs_of 2 (sy_gw s) = []"
    "sy_pool s = pool_new 0 (unat (cf_inference_clients cf))" "sy_hist s 2 = [f]"
proof (rule run_open [OF assms(1), where fs = fs and wire = wire])
  fix s assume s: "(sys_step example_ext cf fs wire)\<^sup>*\<^sup>* (system_init cf 0) s"
    "gw_conns (sy_gw s) 2 = Some (example_conn cf)" "gw_timers (sy_gw s) = [(cf_flush_interval cf, 2)]"
    "gw_cmds (sy_gw s) = []" "gw_dones (sy_gw s) = []" "msgs_of 2 (sy_gw s) = []"
    "sy_pool s = pool_new 0 (unat (cf_inference_clients cf))" "sy_hist s = (\<lambda>_. [])" "sy_subs s = (\<lambda>_. None)"
  define env where "env = example_env\<lparr>ce_msgs := [(Ws_text [], 0), (Ws_binary f, 0)]\<rparr>"
  define c1 where "c1 = (example_conn cf)\<lparr>cn_started := True, cn_seq := 1, cn_pcm := f,
    cn_meta := [\<lparr>fm_seq = 1, fm_received_at = 0\<rparr>]\<rparr>"
  define g1 where "g1 = log_outs 2 [] [] [] (set_conn 2 c1 (sy_gw s))"
  have "on_ready example_ext env True False (example_conn cf) = Ret (Keep, c1, [], [], [])"
    using assms(2)
    by (simp add: on_ready_def on_readable_def env_def example_env_def example_ext_def example_conn_def c1_def
        push_frame_def SYNC_FRAME_BYTES_def flush_ws_def)
  then have "a_ready example_ext env True False 2 (sy_gw s) = Ret (False, g1)" by (simp add: a_ready_def s g1_def)
  moreover have "ready_frames example_ext env True 2 (sy_gw s) = [f]"
    using assms(2) by (simp add: ready_frames_def s new_frames_def env_def example_env_def example_ext_def
        example_conn_def SYNC_FRAME_BYTES_def)
  ultimately have 1: "sys_step example_ext cf fs wire s (s\<lparr>sy_gw := g1, sy_hist := (sy_hist s)(2 := [f])\<rparr>)"
    using sys_step.ready [of example_ext env True False 2 s False g1 cf fs wire] by (simp add: s(8))
  define s1 where "s1 = s\<lparr>sy_gw := g1, sy_hist := (sy_hist s)(2 := [f])\<rparr>"
  define now where "now = cf_flush_interval cf"
  define g0 where "g0 = g1\<lparr>gw_timers := []\<rparr>"
  define g2 where "g2 = (send_cmd (Submit 2 1 f (cf_cpu_passes cf)) (set_conn 2 (example_pending cf) g0))
    \<lparr>gw_timers := timer_push (deadline (example_pending cf), 2) []\<rparr>"
  have gt: "gw_timers g1 = [(now, 2)]" and gc: "gw_conns g1 2 = Some c1"
    using s(3) by (simp_all add: g1_def log_outs_def set_conn_def now_def)
  have "on_timer cf now c1 = (Tick_flush (example_batch cf), c1\<lparr>cn_next_flush := now + cf_flush_interval cf\<rparr>)"
    using assms(2) by (simp add: on_timer_def c1_def example_conn_def example_batch_def now_def)
  moreover have "begin_pending (example_batch cf) now (c1\<lparr>cn_next_flush := now + cf_flush_interval cf\<rparr>) = example_pending cf"
    by (simp add: begin_pending_def c1_def example_pending_def example_conn_def now_def)
  ultimately have "a_tick example_ext cf example_env now 2 c1 g0 = (False, g2)"
    by (simp add: a_tick_def g2_def batch_tag_def Let_def) (simp add: example_batch_def c1_def g0_def)
  then have "timer_step example_ext cf (\<lambda>_. example_env) now (sy_gw s1) = Some ([], g2)"
    by (simp add: s1_def timer_step_def gt gc timer_peek_def timer_pop_def g0_def)
  from sys_step.timer [OF this, of fs wire]
  have "sys_step example_ext cf fs wire s1 (s1\<lparr>sy_gw := g2, sy_subs := fold add_sub (new_cmds (sy_gw s1) g2) (sy_subs s1)\<rparr>)" .
  with s(1) 1 have run: "(sys_step example_ext cf fs wire)\<^sup>*\<^sup>* (system_init cf 0)
      (s1\<lparr>sy_gw := g2, sy_subs := fold add_sub (new_cmds (sy_gw s1) g2) (sy_subs s1)\<rparr>)"
    unfolding s1_def by auto
  show thesis
    by (rule that [OF run]) (use s in \<open>simp_all add: g2_def g0_def g1_def s1_def msgs_of_log_none\<close>)
qed

text \<open>The request is taken by a slot, sent, answered, and the answer delivered.\<close>

definition example_sock :: "nat \<Rightarrow> bytes \<Rightarrow> sock_env" where
  "example_sock n resp = \<lparr>en_now = 0, en_take_error = Ok None, en_peer_ok = True, en_writes = [Wr n],
     en_reads = [Rd resp], en_connect = Ok 9\<rparr>"

lemma parse_response_nonempty: "parse_response fs resp = Ret (Some r) \<Longrightarrow> resp \<noteq> []"
  by (auto simp: parse_response_def CRLFCRLF_def)

definition example_slot :: "config \<Rightarrow> bytes \<Rightarrow> slot" where
  "example_slot cf f = (build 0 cf f (cf_cpu_passes cf) ((slot_new 0)\<lparr>sl_owner := Some 2, sl_tag := 1\<rparr>))
     \<lparr>sl_sock := Some 9, sl_state := Connecting, sl_registered := True\<rparr>"

lemma example_submit:
  assumes "unat (cf_inference_clients cf) = Suc k"
  obtains p where "b_cmd (example_sock 0 []) cf (Submit 2 1 f (cf_cpu_passes cf))
      (pool_new 0 (unat (cf_inference_clients cf))) = (None, p)"
    "length (pl_slots p) = Suc k" "pl_slots p ! 0 = example_slot cf f"
proof -
  define q where "q = pool_new 0 (Suc k)"
  have q: "pl_free q \<noteq> []" "last (pl_free q) = 0" "pl_slots q ! 0 = slot_new 0" "length (pl_slots q) = Suc k"
    by (simp_all add: q_def pool_new_def last_map del: upt_Suc)
  have "ensure_registered (pool_token 0) Writable ((build 0 cf f (cf_cpu_passes cf)
        ((slot_new 0)\<lparr>sl_owner := Some 2, sl_tag := 1\<rparr>))\<lparr>sl_sock := Some 9, sl_state := Connecting, sl_dialed := True\<rparr>) =
      (example_slot cf f, [Register 9 (pool_token 0) Writable])"
    by (simp add: example_slot_def build_def slot_new_def ensure_registered_def Let_def)
  moreover have "sl_sock (build 0 cf f (cf_cpu_passes cf) ((slot_new 0)\<lparr>sl_owner := Some 2, sl_tag := 1\<rparr>)) = None"
    by (simp add: slot_new_def)
  ultimately have "b_cmd (example_sock 0 []) cf (Submit 2 1 f (cf_cpu_passes cf)) q =
      (None, set_slot 0 (example_slot cf f) (q\<lparr>pl_free := butlast (pl_free q)\<rparr>))"
    using q by (simp add: b_cmd_def submit_def example_sock_def dial_def Let_def)
  from that [OF this [unfolded q_def, folded assms]] show thesis
    using q by (simp add: assms q_def [symmetric] set_slot_def)
qed

lemma run_one_frame:
  assumes "cf_flush_phase_jitter cf = 0" and "length f = 640" and "0 < unat (cf_inference_clients cf)"
    and ans: "parse_response fs (wire (request cf f)) = Ret (Some (Ok r))"
  obtains s where "(sys_step example_ext cf fs wire)\<^sup>*\<^sup>* (system_init cf 0) s"
    "msgs_of 2 (sy_gw s) = [Msg_partial (partial_of cf (example_batch cf) r)]" "sy_hist s 2 = [f]"
proof (rule run_flush [OF assms(1,2), where fs = fs and wire = wire])
  fix s assume s: "(sys_step example_ext cf fs wire)\<^sup>*\<^sup>* (system_init cf 0) s"
    "gw_conns (sy_gw s) 2 = Some (example_pending cf)" "gw_cmds (sy_gw s) = [Submit 2 1 f (cf_cpu_passes cf)]"
    "gw_dones (sy_gw s) = []" "msgs_of 2 (sy_gw s) = []"
    "sy_pool s = pool_new 0 (unat (cf_inference_clients cf))" "sy_hist s 2 = [f]"
  obtain k where k: "unat (cf_inference_clients cf) = Suc k" using assms(3) gr0_implies_Suc by blast
  obtain p where p: "b_cmd (example_sock 0 []) cf (Submit 2 1 f (cf_cpu_passes cf)) (sy_pool s) = (None, p)"
    "length (pl_slots p) = Suc k" "pl_slots p ! 0 = example_slot cf f"
    using example_submit [OF k] s(6) by metis
  define s1 where "s1 = s\<lparr>sy_pool := p, sy_gw := push_dones (done_list None) ((sy_gw s)\<lparr>gw_cmds := []\<rparr>)\<rparr>"
  have 1: "sys_step example_ext cf fs wire s s1" unfolding s1_def by (rule sys_step.command [OF s(3) p(1)])
  define sl where "sl = example_slot cf f"
  have sl: "sl_req sl = request cf f" "sl_resp sl = []" "sl_owner sl = Some 2" "sl_tag sl = 1"
    "sl_sock sl = Some 9" "sl_state sl = Connecting"
    by (simp_all add: sl_def example_slot_def build_request) (simp add: build_def)
  define resp where "resp = wire (request cf f)"
  define env where "env = example_sock (length (request cf f)) resp"
  have ne: "resp \<noteq> []" using parse_response_nonempty ans by (simp add: resp_def)
  have send: "send_loop (length (request cf f)) 0 [Wr (length (request cf f))] = Sent"
    by (subst send_loop.simps) (simp add: send_loop.simps)
  have "slot_run fs env True sl = Ret (Ok (Done (Ok r)), sl\<lparr>sl_resp := resp, sl_state := Idle\<rparr>)"
    using ans ne by (simp add: slot_run_def sl run_sending_def env_def example_sock_def send run_receiving_def
        resp_def [symmetric])
  then have dr: "drive fs env True sl = Ret (Done (Ok r), sl\<lparr>sl_resp := resp, sl_state := Idle\<rparr>)"
    by (simp add: drive_def)
  obtain p2 ops where rec: "recycle 0 (set_slot 0 (sl\<lparr>sl_resp := resp, sl_state := Idle, sl_owner := None\<rparr>) p) = (p2, ops)"
    by (metis prod.exhaust)
  have ev: "on_event fs env 0 True (sy_pool s1) = Ret (Some (2, 1, Ok r), p2, ops)"
    using p(2,3) dr rec by (simp add: on_event_def s1_def sl_def [symmetric] sl)
  have rc: "receives wire env (pl_slots (sy_pool s1) ! 0)"
    using p(3) ne by (simp add: receives_def s1_def sl_def [symmetric] sl env_def example_sock_def resp_def)
  define s2 where "s2 = s1\<lparr>sy_pool := p2, sy_gw := push_dones (done_list (Some (2, 1, Ok r))) (sy_gw s1)\<rparr>"
  have 2: "sys_step example_ext cf fs wire s1 s2" unfolding s2_def by (rule sys_step.socket [OF ev rc])
  have dn: "gw_dones (sy_gw s2) = [(2, 1, Ok r)]" by (simp add: s2_def s1_def s(4))
  define c2 where "c2 = (example_pending cf)\<lparr>cn_pending := None\<rparr>"
  define m where "m = Msg_partial (partial_of cf (example_batch cf) r)"
  define g3 where "g3 = log_outs 2 [] [Out_msg m] [] (set_conn 2 c2 ((sy_gw s2)\<lparr>gw_dones := []\<rparr>))"
  have gc: "gw_conns (sy_gw s2) 2 = Some (example_pending cf)" by (simp add: s2_def s1_def s(2))
  have "on_done example_ext example_env cf 1 (Ok r) (example_pending cf) = (Keep, c2, [], [Out_msg m], [])"
    by (simp add: on_done_def deliver_def example_pending_def example_conn_def example_ext_def example_env_def
        flush_ws_def m_def c2_def batch_tag_def Let_def) (simp add: example_batch_def)
  then have "a_done example_ext cf example_env (2, 1, Ok r) ((sy_gw s2)\<lparr>gw_dones := []\<rparr>) = (False, g3)"
    by (simp add: a_done_def gc g3_def)
  from sys_step.result [OF dn this, of fs wire] have 3: "sys_step example_ext cf fs wire s2 (s2\<lparr>sy_gw := g3\<rparr>)" .
  have run: "(sys_step example_ext cf fs wire)\<^sup>*\<^sup>* (system_init cf 0) (s2\<lparr>sy_gw := g3\<rparr>)"
    using s(1) 1 2 3 by auto
  show thesis
    by (rule that [OF run]) (use s in \<open>simp_all add: g3_def s2_def s1_def m_def msgs_of_log_msg\<close>)
qed

definition example_reply :: bytes where
  "example_reply = as_bytes (http_head [''HTTP/1.1 200 OK'', ''content-length: 2'']) @ [123, 125]"

lemma example_parse: "fs [123, 125] = Ok r \<Longrightarrow> parse_response fs example_reply = Ret (Some (Ok r))"
  using parse_response_body [of "''HTTP/1.1 200 OK''" "[''content-length: 2'']" 2 "[123, 125]" fs]
  by (simp add: example_reply_def example_content_length example_status response_value_def,
      simp add: line_ok_def http_head_def CRLF_def)

lemma example_config_facts:
  "cf_flush_phase_jitter example_config = 0" "0 < unat (cf_inference_clients example_config)"
  "0 < cf_flush_interval example_config" "cf_cpu_passes example_config = 4" "cf_model_delay_ms example_config = 75"
  by (simp_all add: example_config_def from_env_def env_parsed_def DEFAULT_FLUSH_PHASE_JITTER_MS_def from_millis_def
      DEFAULT_INFERENCE_CLIENTS_def DEFAULT_FLUSH_INTERVAL_MS_def DEFAULT_CPU_PASSES_def DEFAULT_MODEL_DELAY_MS_def
      max_def split: prod.splits)

lemma example_run:
  obtains s where "(sys_step example_ext example_config (\<lambda>_. Ok example_infer) (\<lambda>_. example_reply))\<^sup>*\<^sup>*
      (system_init example_config 0) s"
    "msgs_of 2 (sy_gw s) = [Msg_partial (partial_of example_config (example_batch example_config) example_infer)]"
    "sy_hist s 2 = [replicate 640 1]"
  by (rule run_one_frame [of example_config "replicate 640 1" "\<lambda>_. Ok example_infer" "\<lambda>_. example_reply" example_infer])
    (simp_all add: example_config_facts example_parse that)

subsection \<open>The properties\<close>

lemma idle_reported: "conn_inv h c \<Longrightarrow> cn_pending c = None \<Longrightarrow> cn_meta c = [] \<Longrightarrow> reported h c = length h"
  by (simp add: reported_def unbuffered_def)

lemma sys_step_star_inv:
  assumes "(sys_step x cf fs wire)\<^sup>*\<^sup>* s s'" and "\<forall>m. xt_ser_ok x m" and "sys_inv cf fs wire s"
  shows "sys_inv cf fs wire s'"
  using assms(1,3) by (induction rule: rtranclp_induct) (auto intro: sys_step_inv [OF _ assms(2)])

lemma a_events_no_panic:
  assumes "\<forall>m. xt_ser_ok x m" and "sys_inv cf fs wire s" and "\<forall>i. length (sy_hist s i) + msgs_in es < 2 ^ 64"
  shows "a_events x cf es (sy_gw s) \<noteq> Panic"
  using assms(2,3)
proof (induction es arbitrary: s)
  case (Cons e es)
  have lt: "length (sy_hist s i) + (length (ce_msgs (ev_env e)) + msgs_in es) < 2 ^ 64" for i
    using Cons.prems(2) by (simp add: msgs_in_def)
  have "a_ready x env rd wr i (sy_gw s) \<noteq> Panic" for env rd wr i
    using conns_inv_sys [OF sys_inv_parts(1) [OF Cons.prems(1)], of i]
    by (auto simp: a_ready_def conn_sys_def split: option.splits rust.splits dest!: on_ready_no_panic)
  then obtain cl g1 where 1: "a_dispatch x cf e (sy_gw s) = Ret (cl, g1)"
    by (cases "a_dispatch x cf e (sy_gw s)") (auto simp: a_dispatch_def split: source.splits rust.splits)
  have "\<forall>i. length (sy_hist s i) + length (ce_msgs (ev_env e)) < 2 ^ 64"
    using lt by (metis add.assoc add_lessD1)
  from a_dispatch_steps [OF 1 this, of fs wire] obtain s1 where s1: "(sys_step x cf fs wire)\<^sup>*\<^sup>* s s1" "sy_gw s1 = g1"
    "\<forall>i. length (sy_hist s1 i) \<le> length (sy_hist s i) + length (ce_msgs (ev_env e))" by blast
  have "\<forall>i. length (sy_hist s1 i) + msgs_in es < 2 ^ 64"
    using lt s1(3) by (metis (no_types, lifting) add.assoc add_le_mono1 le_less_trans)
  then have "a_events x cf es g1 \<noteq> Panic"
    using Cons.IH [OF sys_step_star_inv [OF s1(1) assms(1) Cons.prems(1)]] s1(2) by simp
  then show ?case by (auto simp: 1 split: rust.splits prod.splits)
qed simp

lemma hist_bound:
  assumes "(sys_step x cf fs wire)\<^sup>*\<^sup>* (system_init cf now) s"
  shows "length (sy_hist s i) < 2 ^ 64"
  using assms
proof (induction arbitrary: i rule: rtranclp_induct)
  case base
  then show ?case by (simp add: system_init_def)
next
  case (step s s')
  from step.hyps(2) step.IH show ?case by cases auto
qed

text \<open>
  C11. Every accepted frame is reported at most once and in order. In every state the two threads can
  reach, the ranges of the messages sent to a connection, written one after another, list the frame
  numbers \<open>1, 2, \<dots>, n\<close>; on an open connection with no request under way and nothing buffered, \<open>n\<close> is
  the number of frames it accepted.
\<close>

theorem responses_tile:
  assumes "(sys_step x cf fs wire)\<^sup>*\<^sup>* (system_init cf now) s" and "\<forall>m. xt_ser_ok x m"
  shows "\<exists>n \<le> length (sy_hist s i). reported_seqs (map msg_range (msgs_of i (sy_gw s))) = [1..<n + 1] \<and>
    (\<forall>c. gw_conns (sy_gw s) i = Some c \<and> cn_pending c = None \<and> cn_meta c = [] \<longrightarrow> n = length (sy_hist s i))"
proof (cases "gw_conns (sy_gw s) i")
  case None
  obtain n where "n \<le> length (sy_hist s i)" "tiles (map msg_range (msgs_of i (sy_gw s))) 0 n"
    using reachable_inv [OF assms] by (auto simp: sys_inv_def log_inv_def)
  then show ?thesis using tiles_seqs [of "map msg_range (msgs_of i (sy_gw s))" 0 n] None by (intro exI [of _ n]) simp
next
  case (Some c)
  have cs: "conn_sys s i c" using conns_inv_sys [OF sys_inv_parts(1) [OF reachable_inv [OF assms]] Some] .
  then show ?thesis
    using tiles_seqs [of "map msg_range (msgs_of i (sy_gw s))" 0 "reported (sy_hist s i) c"]
      reported_le [of "sy_hist s i" c] idle_reported [of "sy_hist s i" c] Some
    by (intro exI [of _ "reported (sy_hist s i) c"]) (simp add: conn_sys_def)
qed

theorem responses_tile_witness:
  "\<exists>s :: system. sy_hist s 2 = [replicate 640 1] \<and> length (msgs_of 2 (sy_gw s)) = 1 \<and>
     (\<exists>n \<le> length (sy_hist s 2). reported_seqs (map msg_range (msgs_of 2 (sy_gw s))) = [1..<n + 1])"
proof (rule example_run)
  fix s assume s: "(sys_step example_ext example_config (\<lambda>_. Ok example_infer) (\<lambda>_. example_reply))\<^sup>*\<^sup>*
      (system_init example_config 0) s"
    "msgs_of 2 (sy_gw s) = [Msg_partial (partial_of example_config (example_batch example_config) example_infer)]"
    "sy_hist s 2 = [replicate 640 1]"
  have "\<forall>m. xt_ser_ok example_ext m" by (simp add: example_ext_def)
  from responses_tile [OF s(1) this, of 2]
  have "\<exists>n \<le> length (sy_hist s 2). reported_seqs (map msg_range (msgs_of 2 (sy_gw s))) = [1..<n + 1]" by blast
  with s(2,3) show ?thesis by (intro exI [of _ s]) (simp del: upt_Suc)
qed




definition example_accept :: a_event where
  "example_accept = \<lparr>ev_token = LISTENER, ev_readable = True, ev_read_closed = False, ev_error = False,
     ev_writable = False, ev_env = example_env,
     ev_accepts = [\<lparr>ac_result = Accepted 7, ac_register_ok = True, ac_jitter = 0, ac_now = 0\<rparr>],
     ev_done_envs = (\<lambda>_. example_env)\<rparr>"

lemma example_iteration:
  "a_iteration 1 example_ext example_config [example_accept] (\<lambda>_. example_env) 0 gateway_init =
     Some (Ret (accept_one example_config 7 True 0 0 gateway_init))"
proof -
  have "a_events example_ext example_config [example_accept] gateway_init =
      Ret ([], accept_one example_config 7 True 0 0 gateway_init)"
    by (simp add: a_dispatch_def example_accept_def decode_def)
  moreover have "timer_step example_ext example_config (\<lambda>_. example_env) 0
      (accept_one example_config 7 True 0 0 gateway_init) = None"
    using example_config_facts(3)
    by (simp add: timer_step_def accept_one_def gateway_init_def timer_push_def timer_peek_def deadline_def
        conn_new_def Let_def)
  ultimately show ?thesis by (simp add: a_iteration_def)
qed




end
