(* ===== verification/Inference_Server.thy ===== *)
theory Inference_Server
  imports Rust_F64 Stub "HOL-Library.Multiset"
begin

text \<open>
  The inference server, \<open>services/inference-server/src/main.rs\<close>: its configuration, the handler of
  \<open>POST /infer\<close>, the simulated latency, and the admission of concurrent requests by the semaphore.

  What the server takes from third parties is an argument: \<open>to_str\<close> is \<open>HeaderValue::to_str\<close>, the
  draws of the random generator are the fields of \<open>draws\<close> (\<open>LogNormal::new\<close> refuses its parameters
  when \<open>dr_lognormal\<close> is \<open>None\<close>), and a handler's awaits come with their outcome.
\<close>

definition SERVER_CPU_PASSES :: u32 where
  "SERVER_CPU_PASSES = 4"

definition SERVER_MODEL_DELAY_MS :: f64 where
  "SERVER_MODEL_DELAY_MS = f64_of_int 75"

definition DEFAULT_JITTER_SIGMA :: f64 where
  "DEFAULT_JITTER_SIGMA = round_ratio 15 100"

definition DEFAULT_LONGTAIL_PROB :: f64 where
  "DEFAULT_LONGTAIL_PROB = round_ratio 1 100"

definition DEFAULT_LONGTAIL_MULT :: f64 where
  "DEFAULT_LONGTAIL_MULT = f64_of_int 3"

definition DEFAULT_BATCH_WAIT_MAX_MS :: f64 where
  "DEFAULT_BATCH_WAIT_MAX_MS = f64_of_int 20"

definition DEFAULT_MAX_CONCURRENT :: usize where
  "DEFAULT_MAX_CONCURRENT = 64"

definition SERVER_CPU_PASSES_HEADER :: string where
  "SERVER_CPU_PASSES_HEADER = ''x-cpu-passes''"

text \<open>The semaphore of the state is the field \<open>sv_permits\<close> of the running server below.\<close>

record server_state =
  ss_default_cpu_passes :: u32
  ss_model_delay_ms :: f64
  ss_jitter_sigma :: f64
  ss_longtail_prob :: f64
  ss_longtail_mult :: f64
  ss_batch_wait_max_ms :: f64
  ss_max_concurrent :: usize

record infer_reply =
  re_rms :: f64
  re_zero_crossings :: u64
  re_checksum :: u32
  re_samples :: u64
  re_transcript :: string
  re_audio_bytes :: u64

definition server_env_parsed ::
  "(string \<Rightarrow> 'a option) \<Rightarrow> (string \<Rightarrow> string option) \<Rightarrow> string \<Rightarrow> 'a \<Rightarrow> 'a" where
  "server_env_parsed parse env name dflt =
     (case env name of
        None \<Rightarrow> dflt
      | Some value \<Rightarrow> (case parse value of None \<Rightarrow> dflt | Some v \<Rightarrow> v))"

definition server_worker_threads :: "(string \<Rightarrow> string option) \<Rightarrow> usize option \<Rightarrow> usize" where
  "server_worker_threads env available_parallelism =
     (let configured = server_env_parsed parse_u64 env ''WORKER_THREADS'' 0
      in if 0 < configured then configured
         else case available_parallelism of Some n \<Rightarrow> n | None \<Rightarrow> 1)"

definition server_init :: "(string \<Rightarrow> string option) \<Rightarrow> server_state" where
  "server_init env =
     \<lparr>ss_default_cpu_passes = server_env_parsed parse_u32 env ''CPU_PASSES'' SERVER_CPU_PASSES,
      ss_model_delay_ms = server_env_parsed parse_f64 env ''MODEL_DELAY_MS'' SERVER_MODEL_DELAY_MS,
      ss_jitter_sigma = server_env_parsed parse_f64 env ''MODEL_JITTER_SIGMA'' DEFAULT_JITTER_SIGMA,
      ss_longtail_prob = server_env_parsed parse_f64 env ''MODEL_LONGTAIL_PROB'' DEFAULT_LONGTAIL_PROB,
      ss_longtail_mult = server_env_parsed parse_f64 env ''MODEL_LONGTAIL_MULT'' DEFAULT_LONGTAIL_MULT,
      ss_batch_wait_max_ms = server_env_parsed parse_f64 env ''MODEL_BATCH_WAIT_MAX_MS'' DEFAULT_BATCH_WAIT_MAX_MS,
      ss_max_concurrent = max (server_env_parsed parse_u64 env ''MODEL_MAX_CONCURRENT'' DEFAULT_MAX_CONCURRENT) 1\<rparr>"

definition server_health :: string where
  "server_health = ''ok''"

subsection \<open>The latency model\<close>

record draws =
  dr_batch_wait :: f64
  dr_lognormal :: "f64 option"
  dr_longtail :: bool

definition sample_latency :: "server_state \<Rightarrow> draws \<Rightarrow> duration rust" where
  "sample_latency st dr =
     (let batch_wait = (if f64_lt f64_zero (ss_batch_wait_max_ms st) then dr_batch_wait dr else f64_zero);
          compute = (if f64_lt f64_zero (ss_jitter_sigma st) then dr_lognormal dr
                     else Some (ss_model_delay_ms st))
      in case compute of
           None \<Rightarrow> Panic
         | Some c \<Rightarrow>
             let c' = (if f64_lt f64_zero (ss_longtail_prob st) \<and> dr_longtail dr
                       then f64_mul c (ss_longtail_mult st) else c);
                 total_ms = f64_max (f64_add batch_wait c') f64_zero
             in from_secs_f64 (f64_div total_ms (f64_of_int 1000)))"

subsection \<open>The handler\<close>

datatype http_reply = Reply_json infer_reply | Reply_status nat string

definition requested_passes :: "server_state \<Rightarrow> (bytes \<Rightarrow> string option) \<Rightarrow> bytes option \<Rightarrow> u32" where
  "requested_passes st to_str hdr =
     (case hdr of
        None \<Rightarrow> ss_default_cpu_passes st
      | Some value \<Rightarrow>
          (case to_str value of
             None \<Rightarrow> ss_default_cpu_passes st
           | Some v \<Rightarrow> (case parse_u32 v of None \<Rightarrow> ss_default_cpu_passes st | Some n \<Rightarrow> n)))"

definition reply_of :: "stub_result \<Rightarrow> infer_reply" where
  "reply_of r =
     \<lparr>re_rms = st_rms r, re_zero_crossings = st_zero_crossings r, re_checksum = st_checksum r,
      re_samples = st_samples r, re_transcript = st_transcript r, re_audio_bytes = st_audio_bytes r\<rparr>"

text \<open>
  The handler from end to end: \<open>acquired\<close> is what \<open>acquire\<close> returns, \<open>joined\<close> what the blocking task
  returns; the reply comes with the time slept before it.
\<close>

definition infer ::
  "server_state \<Rightarrow> (bytes \<Rightarrow> string option) \<Rightarrow> bytes option \<Rightarrow> bytes \<Rightarrow> bool \<Rightarrow> bool \<Rightarrow> draws
     \<Rightarrow> (http_reply \<times> duration) rust" where
  "infer st to_str hdr body acquired joined dr =
     (if \<not> even (length body) then Ret (Reply_status 400 ''body length must be even (i16 PCM)'', 0)
      else
        let cpu_passes = requested_passes st to_str hdr
        in if \<not> acquired then Ret (Reply_status 503 ''concurrency sem closed'', 0)
           else if \<not> joined then Ret (Reply_status 500 ''compute failed'', 0)
           else
             let result = compute_stub body cpu_passes
             in case sample_latency st dr of
                  Panic \<Rightarrow> Panic
                | Ret d \<Rightarrow> Ret (Reply_json (reply_of result), d))"

subsection \<open>Concurrent requests\<close>

text \<open>
  The running server. A request waits for a permit in arrival order (the semaphore is fair), holds it
  while it computes and sleeps, and gives it back with its reply, or when its task panics or is
  dropped because the client went away.
\<close>

record job =
  jb_id :: nat
  jb_hdr :: "bytes option"
  jb_body :: bytes

record server =
  sv_permits :: nat
  sv_waiting :: "job list"
  sv_running :: "job list"
  sv_replies :: "(job \<times> http_reply) list"
  sv_dropped :: "job list"
  sv_arrived :: "job list"

definition server_start :: "server_state \<Rightarrow> server" where
  "server_start st =
     \<lparr>sv_permits = unat (ss_max_concurrent st), sv_waiting = [], sv_running = [], sv_replies = [], sv_dropped = [],
      sv_arrived = []\<rparr>"

definition arrive :: "server_state \<Rightarrow> (bytes \<Rightarrow> string option) \<Rightarrow> draws \<Rightarrow> job \<Rightarrow> server \<Rightarrow> server" where
  "arrive st to_str dr j v =
     (let v1 = v\<lparr>sv_arrived := sv_arrived v @ [j]\<rparr>
      in if even (length (jb_body j)) then v1\<lparr>sv_waiting := sv_waiting v @ [j]\<rparr>
         else case infer st to_str (jb_hdr j) (jb_body j) True True dr of
                Ret (r, _) \<Rightarrow> v1\<lparr>sv_replies := sv_replies v @ [(j, r)]\<rparr>
              | Panic \<Rightarrow> v1\<lparr>sv_dropped := sv_dropped v @ [j]\<rparr>)"

definition finish ::
  "server_state \<Rightarrow> (bytes \<Rightarrow> string option) \<Rightarrow> bool \<Rightarrow> draws \<Rightarrow> job \<Rightarrow> server \<Rightarrow> server" where
  "finish st to_str joined dr j v =
     (let v1 = v\<lparr>sv_running := remove1 j (sv_running v), sv_permits := sv_permits v + 1\<rparr>
      in case infer st to_str (jb_hdr j) (jb_body j) True joined dr of
           Ret (r, _) \<Rightarrow> v1\<lparr>sv_replies := sv_replies v1 @ [(j, r)]\<rparr>
         | Panic \<Rightarrow> v1\<lparr>sv_dropped := sv_dropped v1 @ [j]\<rparr>)"

inductive srv_step :: "server_state \<Rightarrow> (bytes \<Rightarrow> string option) \<Rightarrow> server \<Rightarrow> server \<Rightarrow> bool"
  for st to_str where
  arrive: "srv_step st to_str v (arrive st to_str dr j v)"
| admit: "srv_step st to_str v
      (v\<lparr>sv_permits := sv_permits v - 1, sv_waiting := js, sv_running := sv_running v @ [j]\<rparr>)"
  if "0 < sv_permits v" and "sv_waiting v = j # js"
| finish: "srv_step st to_str v (finish st to_str joined dr j v)" if "j \<in> set (sv_running v)"
| cancel: "srv_step st to_str v
      (v\<lparr>sv_running := remove1 j (sv_running v), sv_permits := sv_permits v + 1, sv_dropped := sv_dropped v @ [j]\<rparr>)"
  if "j \<in> set (sv_running v)"
| gone: "srv_step st to_str v
      (v\<lparr>sv_waiting := remove1 j (sv_waiting v), sv_dropped := sv_dropped v @ [j]\<rparr>)"
  if "j \<in> set (sv_waiting v)"

subsection \<open>What the server guarantees\<close>

definition reply_ok :: "server_state \<Rightarrow> (bytes \<Rightarrow> string option) \<Rightarrow> job \<times> http_reply \<Rightarrow> bool" where
  "reply_ok st to_str jr =
     (case jr of (j, r) \<Rightarrow>
        if even (length (jb_body j))
        then r = Reply_json (reply_of (compute_stub (jb_body j) (requested_passes st to_str (jb_hdr j)))) \<or>
             r = Reply_status 500 ''compute failed''
        else r = Reply_status 400 ''body length must be even (i16 PCM)'')"

definition server_inv :: "server_state \<Rightarrow> (bytes \<Rightarrow> string option) \<Rightarrow> server \<Rightarrow> bool" where
  "server_inv st to_str v \<longleftrightarrow>
     sv_permits v + length (sv_running v) = unat (ss_max_concurrent st) \<and>
     list_all (\<lambda>j. even (length (jb_body j))) (sv_waiting v @ sv_running v) \<and>
     list_all (reply_ok st to_str) (sv_replies v) \<and>
     mset (sv_arrived v) = mset (sv_waiting v @ sv_running v @ map fst (sv_replies v) @ sv_dropped v)"

lemma infer_reply:
  assumes "infer st to_str (jb_hdr j) (jb_body j) True joined dr = Ret (r, d)"
  shows "reply_ok st to_str (j, r)"
  using assms by (auto simp: infer_def reply_ok_def Let_def split: if_splits rust.splits)

lemma arrive_inv: "server_inv st to_str v \<Longrightarrow> server_inv st to_str (arrive st to_str dr j v)"
  using infer_reply [of st to_str j True dr]
  by (auto simp: server_inv_def arrive_def Let_def split: rust.splits)

lemma list_all_remove1: "list_all P xs \<Longrightarrow> list_all P (remove1 x xs)"
  by (auto simp: list_all_iff dest: notin_set_remove1)

lemma release_job:
  assumes "j \<in> set xs"
  obtains M where "mset xs = add_mset j M" "mset (remove1 j xs) = M" "length xs = Suc (length (remove1 j xs))"
proof
  show m: "mset xs = add_mset j (mset (remove1 j xs))" using assms by simp
  from arg_cong [OF m, of size] show "length xs = Suc (length (remove1 j xs))" by (simp del: mset_remove1)
qed simp

lemma finish_inv:
  assumes inv: "server_inv st to_str v" and "j \<in> set (sv_running v)"
  shows "server_inv st to_str (finish st to_str joined dr j v)"
proof (rule release_job [OF assms(2)])
  fix M assume M: "mset (sv_running v) = add_mset j M" "mset (remove1 j (sv_running v)) = M"
    "length (sv_running v) = Suc (length (remove1 j (sv_running v)))"
  show ?thesis
    using inv infer_reply [of st to_str j joined dr] M(3)
    by (auto simp: server_inv_def finish_def Let_def list_all_remove1 M(1,2) split: rust.splits simp del: mset_remove1)
qed

lemma srv_step_inv: "srv_step st to_str v v' \<Longrightarrow> server_inv st to_str v \<Longrightarrow> server_inv st to_str v'"
proof (induction rule: srv_step.induct)
  case (arrive v dr j)
  then show ?case by (intro arrive_inv)
next
  case (admit v j js)
  then show ?case by (auto simp: server_inv_def)
next
  case (finish j v joined dr)
  then show ?case by (intro finish_inv)
next
  case (cancel j v)
  show ?case
  proof (rule release_job [OF cancel(1)])
    fix M assume M: "mset (sv_running v) = add_mset j M" "mset (remove1 j (sv_running v)) = M"
      "length (sv_running v) = Suc (length (remove1 j (sv_running v)))"
    show ?thesis using cancel(2) M(3)
      by (auto simp: server_inv_def list_all_remove1 M(1,2) simp del: mset_remove1)
  qed
next
  case (gone j v)
  show ?case
  proof (rule release_job [OF gone(1)])
    fix M assume M: "mset (sv_waiting v) = add_mset j M" "mset (remove1 j (sv_waiting v)) = M"
    show ?thesis using gone(2)
      by (auto simp: server_inv_def list_all_remove1 M(1,2) simp del: mset_remove1)
  qed
qed

lemma server_reachable_inv:
  assumes "(srv_step st to_str)\<^sup>*\<^sup>* (server_start st) v"
  shows "server_inv st to_str v"
  using assms
proof (induction rule: rtranclp_induct)
  case base
  then show ?case by (simp add: server_start_def server_inv_def)
next
  case (step v v')
  then show ?case using srv_step_inv by blast
qed

lemma server_init_concurrent: "0 < unat (ss_max_concurrent (server_init env))"
proof -
  have "(1 :: usize) \<le> ss_max_concurrent (server_init env)" by (simp add: server_init_def)
  then show ?thesis by (simp add: word_le_nat_alt)
qed


definition example_job :: job where
  "example_job = \<lparr>jb_id = 1, jb_hdr = None, jb_body = [1, 2]\<rparr>"


lemma requested_passes_dec:
  assumes "to_str (as_bytes (dec (unat n))) = Some (dec (unat n))"
  shows "requested_passes st to_str (Some (as_bytes (dec (unat n)))) = n"
proof -
  have "unat n < 2 ^ 32" using unsigned_less [of n] by simp
  then have "parse_uint 0xFFFFFFFF (dec (unat n)) = Some (unat n)" by (intro parse_uint_dec) simp
  then show ?thesis by (simp add: requested_passes_def assms parse_u32_def)
qed



end
