(* ===== verification/Sync_Contract.thy ===== *)
theory Sync_Contract
  imports Sync_System Inference_Server
begin

text \<open>
  The rust-sync gateway keeps the contract of \<open>stt_gateway\<close> whenever the inference server behind it
  answers with the stub's results, and with it passes every check of the load generator. A message
  the gateway serialises and the load generator decodes has the same fields on both sides
  (\<open>sync_message\<close>); likewise a reply of the inference server (\<open>decode_reply\<close>).
\<close>

definition decode_reply :: "infer_reply \<Rightarrow> infer_response" where
  "decode_reply r =
     \<lparr>ir_rms = re_rms r, ir_zero_crossings = re_zero_crossings r, ir_checksum = re_checksum r,
      ir_samples = re_samples r, ir_transcript = re_transcript r, ir_audio_bytes = re_audio_bytes r\<rparr>"

definition decode_partial :: "sync_partial \<Rightarrow> partial_message" where
  "decode_partial m =
     \<lparr>oldest_frame_seq = sp_oldest_frame_seq m, newest_frame_seq = sp_newest_frame_seq m,
      frames = sp_frames m, rms = sp_rms m, zero_crossings = sp_zero_crossings m, checksum = sp_checksum m,
      samples = sp_samples m, transcript = sp_transcript m, audio_bytes = sp_audio_bytes m,
      cpu_passes = sp_cpu_passes m, model_delay_ms = sp_model_delay_ms m,
      flush_lateness_ms = sp_flush_lateness_ms m, inflight_model_jobs = sp_inflight_model_jobs m\<rparr>"

definition decode_error :: "sync_error \<Rightarrow> error_message" where
  "decode_error m =
     \<lparr>em_stage = stage_str (se_stage m), em_kind = kind_str (se_kind m), em_message = se_message m,
      em_oldest_frame_seq = se_oldest_frame_seq m, em_newest_frame_seq = se_newest_frame_seq m,
      em_frames = se_frames m, em_audio_bytes = se_audio_bytes m, em_oldest_age_ms = se_oldest_age_ms m,
      em_newest_age_ms = se_newest_age_ms m, em_flush_lateness_ms = se_flush_lateness_ms m,
      em_inference_elapsed_ms = se_inference_elapsed_ms m,
      em_inflight_gateway_batches = se_inflight_gateway_batches m,
      em_gateway_buffer_frames = se_gateway_buffer_frames m, em_inference_status = se_inference_status m,
      em_retryable = se_retryable m\<rparr>"

fun sync_message :: "gateway_msg \<Rightarrow> server_message" where
  "sync_message (Msg_partial m) = Partial (decode_partial m)"
| "sync_message (Msg_error m) = Error (decode_error m)"

lemma msg_seqs_sync [simp]: "msg_seqs (sync_message m) = msg_range m"
  by (cases m) (simp_all add: decode_partial_def decode_error_def)

subsection \<open>The contract\<close>

record sync_world =
  sw_ext :: externals
  sw_cf :: config
  sw_fs :: from_slice
  sw_wire :: "bytes \<Rightarrow> bytes"
  sw_start :: instant
  sw_conn :: conn_id

text \<open>A server that answers, when it answers, with the stub's result for the audio of the request.\<close>

definition stub_server :: "config \<Rightarrow> from_slice \<Rightarrow> (bytes \<Rightarrow> bytes) \<Rightarrow> bool" where
  "stub_server cf fs wire \<longleftrightarrow>
     (\<forall>body r. answered cf fs wire body r \<longrightarrow> r = decode_reply (reply_of (compute_stub body (cf_cpu_passes cf))))"

definition sync_reachable :: "sync_world \<Rightarrow> system \<Rightarrow> bool" where
  "sync_reachable w s \<longleftrightarrow>
     (\<forall>m. xt_ser_ok (sw_ext w) m) \<and> stub_server (sw_cf w) (sw_fs w) (sw_wire w) \<and>
     (sys_step (sw_ext w) (sw_cf w) (sw_fs w) (sw_wire w))\<^sup>*\<^sup>* (system_init (sw_cf w) (sw_start w)) s"

definition sync_promised :: "sync_world \<Rightarrow> expected_config" where
  "sync_promised w = \<lparr>ex_cpu_passes = cf_cpu_passes (sw_cf w), ex_model_delay_ms = cf_model_delay_ms (sw_cf w)\<rparr>"

definition sync_accepted :: "sync_world \<Rightarrow> system \<Rightarrow> bytes list" where
  "sync_accepted w s = sy_hist s (sw_conn w)"

definition sync_sent :: "sync_world \<Rightarrow> system \<Rightarrow> server_message list" where
  "sync_sent w s = map sync_message (msgs_of (sw_conn w) (sy_gw s))"

lemma genuine_honest:
  assumes "genuine cf fs wire hist m" and "stub_server cf fs wire"
  shows "honest_report \<lparr>ex_cpu_passes = cf_cpu_passes cf, ex_model_delay_ms = cf_model_delay_ms cf\<rparr> hist (decode_partial m)"
proof -
  obtain b r where m: "m = partial_of cf b r" and b: "0 < unat (ba_oldest_seq b)" "ba_oldest_seq b \<le> ba_newest_seq b"
    "unat (ba_newest_seq b) \<le> length hist" "ba_frames b = ba_newest_seq b - ba_oldest_seq b + 1"
    and a: "answered cf fs wire (concat (frames_of hist (ba_oldest_seq b) (ba_newest_seq b))) r"
    using assms(1) by (auto simp: genuine_def)
  have "r = decode_reply (reply_of (compute_stub (concat (frames_of hist (ba_oldest_seq b) (ba_newest_seq b))) (cf_cpu_passes cf)))"
    using assms(2) a by (simp add: stub_server_def)
  then show ?thesis
    using b by (simp add: honest_report_def m decode_partial_def partial_of_def honest_partial_def decode_reply_def reply_of_def)
qed

interpretation sync_gw: stt_gateway sync_reachable sync_promised sync_accepted sync_sent
proof (unfold_locales, goal_cases)
  case (1 w s)
  then have inv: "sys_inv (sw_cf w) (sw_fs w) (sw_wire w) s" by (auto simp: sync_reachable_def intro: reachable_inv)
  then show ?case
    by (simp add: sys_inv_def log_inv_def sync_accepted_def sync_sent_def comp_def)
next
  case (2 w s)
  then show ?case unfolding sync_reachable_def sync_accepted_def using hist_bound by blast
next
  case (3 w s p)
  then have inv: "sys_inv (sw_cf w) (sw_fs w) (sw_wire w) s" by (auto simp: sync_reachable_def intro: reachable_inv)
  obtain m where m: "Msg_partial m \<in> set (msgs_of (sw_conn w) (sy_gw s))" "p = decode_partial m"
    using 3(2) by (auto simp: sync_sent_def elim!: sync_message.elims [OF sym])
  from log_inv_genuine [OF sys_inv_parts(2) [OF inv] m(1)] 3(1) m(2) show ?case
    by (simp add: genuine_honest sync_reachable_def sync_promised_def sync_accepted_def)
qed

subsection \<open>The whole benchmark with one generated session\<close>


lemma takeWhile_digits: "takeWhile (\<lambda>b. 48 \<le> b \<and> b \<le> 57) (as_bytes (dec n) @ 13 # r) = as_bytes (dec n)"
proof -
  have "\<forall>b \<in> set (as_bytes (dec n)). 48 \<le> b \<and> b \<le> 57"
  proof
    fix b assume "b \<in> set (as_bytes (dec n))"
    then obtain d :: nat where d: "d < 10" "b = of_char (char_of (48 + d) :: char)"
      using dec_set [of _ n] by (auto simp: as_bytes_def)
    have "b = of_nat (of_char (char_of (48 + d) :: char) :: nat)" unfolding d(2) by (rule of_nat_of_char [symmetric])
    then have "b = of_nat (48 + d)" using d(1) by (simp only: of_char_of) simp
    then have "unat b = 48 + d" using d(1) by (simp only: unat_of_nat) simp
    then show "48 \<le> b \<and> b \<le> 57" using d(1) by (simp add: word_le_nat_alt)
  qed
  then show ?thesis by (simp add: takeWhile_append2)
qed

lemma request_inj: "request cf a = request cf b \<Longrightarrow> a = b"
proof -
  assume eq: "request cf a = request cf b"
  define R where "R = as_bytes (CRLF @ ''Connection: keep-alive'' @ CRLF @ CRLF)"
  obtain t where R: "R = 13 # t" by (simp add: R_def as_bytes_def CRLF_def)
  have "request cf x = as_bytes (''POST '' @ cf_inference_path cf @ '' HTTP/1.1'' @ CRLF @ ''Host: '' @
      cf_inference_host cf @ CRLF @ ''x-cpu-passes: '' @ dec (unat (cf_cpu_passes cf)) @ CRLF @ ''Content-Length: '') @
      as_bytes (dec (length x)) @ R @ x" for x
    by (simp add: request_def build_def R_def as_bytes_def)
  with eq have e: "as_bytes (dec (length a)) @ R @ a = as_bytes (dec (length b)) @ R @ b"
    by (simp only: same_append_eq)
  from arg_cong [OF this, of "takeWhile (\<lambda>b. 48 \<le> b \<and> b \<le> 57)"]
  have "as_bytes (dec (length a)) = as_bytes (dec (length b))"
    by (simp only: R append_Cons takeWhile_digits)
  with e show "a = b" by simp
qed

definition example_frame :: bytes where
  "example_frame = frame_payload 0 1"

definition example_fs :: from_slice where
  "example_fs b = Ok (decode_reply (reply_of (compute_stub example_frame 4)))"

definition example_wire :: "bytes \<Rightarrow> bytes" where
  "example_wire req = (if req = request example_config example_frame then example_reply else [])"

lemma example_stub_server: "stub_server example_config example_fs example_wire"
proof -
  have "r = decode_reply (reply_of (compute_stub body (cf_cpu_passes example_config)))"
    if "answered example_config example_fs example_wire body r" for body r
  proof -
    have "request example_config body = request example_config example_frame"
      using that parse_response_nonempty by (auto simp: answered_def example_wire_def split: if_splits)
    then have "body = example_frame" by (rule request_inj)
    then show ?thesis
      using that example_parse [of example_fs "decode_reply (reply_of (compute_stub example_frame 4))"]
      by (simp add: answered_def example_wire_def example_fs_def example_config_facts)
  qed
  then show ?thesis by (simp add: stub_server_def)
qed


end
