(* ===== verification/Axum.thy ===== *)
theory Axum
  imports Rust_F64
begin

text \<open>
  The rust-axum gateway, \<open>services/rust-axum/src\<close>: configuration (\<open>config.rs\<close>, \<open>main.rs\<close>), the shared
  context (\<open>state.rs\<close>), the wire types (\<open>protocol.rs\<close>), the request to the inference server
  (\<open>inference.rs\<close>) and the two tasks of one WebSocket session (\<open>session.rs\<close>).

  The HTTP client is reqwest's: a request comes with its outcome. Decoding the start message and
  encoding a message are serde's. The ticks of tokio's interval come with the clock.
\<close>

subsection \<open>Configuration\<close>

definition AX_FRAME_BYTES :: nat where
  "AX_FRAME_BYTES = 640"

definition TYPICAL_BATCH :: nat where
  "TYPICAL_BATCH = 50"

definition AX_DEFAULT_FLUSH_INTERVAL_MS :: u64 where
  "AX_DEFAULT_FLUSH_INTERVAL_MS = 1000"

definition MAX_INFLIGHT_INFERENCES :: nat where
  "MAX_INFLIGHT_INFERENCES = 1"

definition PARTIAL_CHANNEL_DEPTH :: nat where
  "PARTIAL_CHANNEL_DEPTH = 4"

definition AX_DEFAULT_CPU_PASSES :: u32 where
  "AX_DEFAULT_CPU_PASSES = 4"

definition DEFAULT_MODEL_DELAY :: duration where
  "DEFAULT_MODEL_DELAY = from_millis 75"

definition AX_DEFAULT_FLUSH_PHASE_JITTER_MS :: u64 where
  "AX_DEFAULT_FLUSH_PHASE_JITTER_MS = 0"

definition DEFAULT_INFERENCE_HTTP_CLIENTS :: usize where
  "DEFAULT_INFERENCE_HTTP_CLIENTS = 512"

definition AX_DEFAULT_INFERENCE_URL :: string where
  "AX_DEFAULT_INFERENCE_URL = ''http://inference-server:9000''"

definition CPU_PASSES_HEADER :: string where
  "CPU_PASSES_HEADER = ''x-cpu-passes''"

definition CLOSE_PROTOCOL_ERROR :: u16 where
  "CLOSE_PROTOCOL_ERROR = 1002"

definition CLOSE_UNSUPPORTED_DATA :: u16 where
  "CLOSE_UNSUPPORTED_DATA = 1003"

definition AX_REASON_NEED_START :: string where
  "AX_REASON_NEED_START = ''first message must be start''"

definition AX_REASON_TEXT_AFTER_START :: string where
  "AX_REASON_TEXT_AFTER_START = ''expected binary PCM frames after start''"

definition AX_REASON_BAD_FRAME_SIZE :: string where
  "AX_REASON_BAD_FRAME_SIZE = ''expected 640 byte PCM frame''"

definition ax_env_parsed ::
  "(string \<Rightarrow> 'a option) \<Rightarrow> (string \<Rightarrow> string option) \<Rightarrow> string \<Rightarrow> 'a \<Rightarrow> 'a" where
  "ax_env_parsed parse env name dflt =
     (case env name of
        None \<Rightarrow> dflt
      | Some value \<Rightarrow> (case parse value of None \<Rightarrow> dflt | Some v \<Rightarrow> v))"

definition resolve_worker_threads :: "(string \<Rightarrow> string option) \<Rightarrow> usize option \<Rightarrow> usize" where
  "resolve_worker_threads env available_parallelism =
     (let configured = ax_env_parsed parse_u64 env ''WORKER_THREADS'' 0
      in if 0 < configured then configured
         else case available_parallelism of Some n \<Rightarrow> n | None \<Rightarrow> 1)"

text \<open>The context; of the vector of HTTP clients only its length matters.\<close>

record app_context =
  ac_clients :: usize
  ac_next_client :: usize
  ac_inference_url :: string
  ac_cpu_passes_header :: string
  ac_cpu_passes :: u32
  ac_model_delay :: duration
  ac_flush_interval :: duration
  ac_flush_phase_jitter :: duration

definition ax_context :: "(string \<Rightarrow> string option) \<Rightarrow> app_context" where
  "ax_context env =
     (let inference_url = (case env ''INFERENCE_URL'' of Some u \<Rightarrow> u | None \<Rightarrow> AX_DEFAULT_INFERENCE_URL);
          cpu_passes = ax_env_parsed parse_u32 env ''CPU_PASSES'' AX_DEFAULT_CPU_PASSES
      in \<lparr>ac_clients = max (ax_env_parsed parse_u64 env ''INFERENCE_HTTP_CLIENTS'' DEFAULT_INFERENCE_HTTP_CLIENTS) 1,
          ac_next_client = 0,
          ac_inference_url = trim_end_matches CHR ''/'' inference_url @ ''/infer'',
          ac_cpu_passes_header = dec (unat cpu_passes),
          ac_cpu_passes = cpu_passes,
          ac_model_delay =
            from_millis (unat (ax_env_parsed parse_u64 env ''MODEL_DELAY_MS'' (of_nat (as_millis DEFAULT_MODEL_DELAY)))),
          ac_flush_interval =
            from_millis (unat (max (ax_env_parsed parse_u64 env ''FLUSH_INTERVAL_MS'' AX_DEFAULT_FLUSH_INTERVAL_MS) 1)),
          ac_flush_phase_jitter =
            from_millis (unat (ax_env_parsed parse_u64 env ''FLUSH_PHASE_JITTER_MS'' AX_DEFAULT_FLUSH_PHASE_JITTER_MS))\<rparr>)"

text \<open>
  \<open>AppContext::inference_client\<close>: the index of the client taken and the advanced counter; the
  remainder by zero and the index out of bounds are panics.
\<close>

definition inference_client :: "app_context \<Rightarrow> (nat \<times> app_context) rust" where
  "inference_client c =
     (if ac_clients c = 0 then Panic
      else let index = unat (ac_next_client c) mod unat (ac_clients c)
           in if index < unat (ac_clients c)
              then Ret (index, c\<lparr>ac_next_client := ac_next_client c + 1\<rparr>)
              else Panic)"

subsection \<open>Wire types\<close>

record ax_frame =
  fr_seq :: u64
  fr_payload :: bytes
  fr_received_at :: instant

record partial_context =
  pc_oldest_frame_seq :: u64
  pc_newest_frame_seq :: u64
  pc_frames :: usize
  pc_flush_lateness_ms :: f64

record ax_infer_response =
  ai_rms :: f64
  ai_zero_crossings :: u64
  ai_checksum :: u32
  ai_samples :: u64
  ai_transcript :: string
  ai_audio_bytes :: u64

record ax_partial =
  ap_type :: string
  ap_oldest_frame_seq :: u64
  ap_newest_frame_seq :: u64
  ap_frames :: usize
  ap_rms :: f64
  ap_zero_crossings :: u64
  ap_checksum :: u32
  ap_samples :: u64
  ap_transcript :: string
  ap_audio_bytes :: u64
  ap_cpu_passes :: u32
  ap_model_delay_ms :: u64
  ap_flush_lateness_ms :: f64
  ap_inflight_model_jobs :: usize

definition AX_PARTIAL_TYPE :: string where
  "AX_PARTIAL_TYPE = ''partial''"

definition AX_ERROR_TYPE :: string where
  "AX_ERROR_TYPE = ''error''"

definition ax_partial_new :: "ax_infer_response \<Rightarrow> partial_context \<Rightarrow> u32 \<Rightarrow> duration \<Rightarrow> ax_partial" where
  "ax_partial_new infer context cpu_passes model_delay =
     \<lparr>ap_type = AX_PARTIAL_TYPE, ap_oldest_frame_seq = pc_oldest_frame_seq context,
      ap_newest_frame_seq = pc_newest_frame_seq context, ap_frames = pc_frames context, ap_rms = ai_rms infer,
      ap_zero_crossings = ai_zero_crossings infer, ap_checksum = ai_checksum infer, ap_samples = ai_samples infer,
      ap_transcript = ai_transcript infer, ap_audio_bytes = ai_audio_bytes infer, ap_cpu_passes = cpu_passes,
      ap_model_delay_ms = of_nat (as_millis model_delay),
      ap_flush_lateness_ms = pc_flush_lateness_ms context, ap_inflight_model_jobs = 0\<rparr>"

datatype ax_stage = Stage_WebsocketReceive | Stage_BatchFlush | Stage_InferenceRequest
  | Stage_InferenceResponseParse | Stage_WebsocketSend

datatype ax_kind = Kind_Timeout | Kind_PoolTimeout | Kind_Http5xx | Kind_Http429 | Kind_ConnectionReset
  | Kind_ParseError | Kind_SendError

fun ax_stage_str :: "ax_stage \<Rightarrow> string" where
  "ax_stage_str Stage_WebsocketReceive = ''websocket_receive''"
| "ax_stage_str Stage_BatchFlush = ''batch_flush''"
| "ax_stage_str Stage_InferenceRequest = ''inference_request''"
| "ax_stage_str Stage_InferenceResponseParse = ''inference_response_parse''"
| "ax_stage_str Stage_WebsocketSend = ''websocket_send''"

fun ax_kind_str :: "ax_kind \<Rightarrow> string" where
  "ax_kind_str Kind_Timeout = ''timeout''"
| "ax_kind_str Kind_PoolTimeout = ''pool_timeout''"
| "ax_kind_str Kind_Http5xx = ''http_5xx''"
| "ax_kind_str Kind_Http429 = ''http_429''"
| "ax_kind_str Kind_ConnectionReset = ''connection_reset''"
| "ax_kind_str Kind_ParseError = ''parse_error''"
| "ax_kind_str Kind_SendError = ''send_error''"

record ax_error =
  ae_type :: string
  ae_stage :: ax_stage
  ae_kind :: ax_kind
  ae_message :: string
  ae_oldest_frame_seq :: u64
  ae_newest_frame_seq :: u64
  ae_frames :: usize
  ae_audio_bytes :: u64
  ae_oldest_age_ms :: f64
  ae_newest_age_ms :: f64
  ae_flush_lateness_ms :: f64
  ae_inference_elapsed_ms :: "f64 option"
  ae_inflight_gateway_batches :: usize
  ae_gateway_buffer_frames :: usize
  ae_inference_status :: "u16 option"
  ae_retryable :: bool

subsection \<open>The request to the inference server\<close>

record reqwest_error =
  rq_is_timeout :: bool
  rq_is_connect :: bool
  rq_is_decode :: bool
  rq_text :: string

text \<open>A response: its status, the status with its reason phrase, and what decoding its body gives.\<close>

datatype http_outcome = Http_failed reqwest_error | Http_response u16 string "(ax_infer_response, string) result"

definition concat_pcm :: "ax_frame list \<Rightarrow> bytes" where
  "concat_pcm batch = concat (map fr_payload batch)"

definition duration_ms :: "instant \<Rightarrow> instant \<Rightarrow> f64" where
  "duration_ms now earlier = as_ms_f64 (now - earlier)"

definition classify_request_error :: "reqwest_error \<Rightarrow> ax_kind \<times> bool" where
  "classify_request_error e =
     (if rq_is_timeout e then (Kind_Timeout, True)
      else if rq_is_connect e then (Kind_ConnectionReset, True)
      else if rq_is_decode e then (Kind_ParseError, False)
      else (Kind_ConnectionReset, True))"

definition ax_classify_status :: "u16 \<Rightarrow> ax_kind \<times> bool" where
  "ax_classify_status status =
     (if status = 429 then (Kind_Http429, True)
      else if 500 \<le> status \<and> status < 600 then (Kind_Http5xx, True)
      else (Kind_Http5xx, False))"

text \<open>The closure \<open>make_error\<close>: \<open>now\<close> and \<open>buffered\<close> are sampled when the error is made.\<close>

definition make_error ::
  "ax_frame list \<Rightarrow> f64 \<Rightarrow> instant \<Rightarrow> instant \<Rightarrow> usize \<Rightarrow> ax_stage \<Rightarrow> ax_kind \<Rightarrow> string \<Rightarrow> u16 option \<Rightarrow> bool
     \<Rightarrow> ax_error" where
  "make_error batch lateness started_at now buffered stage kind message status retryable =
     \<lparr>ae_type = AX_ERROR_TYPE, ae_stage = stage, ae_kind = kind, ae_message = message,
      ae_oldest_frame_seq = fr_seq (hd batch), ae_newest_frame_seq = fr_seq (last batch),
      ae_frames = of_nat (length batch), ae_audio_bytes = of_nat (length (concat_pcm batch)),
      ae_oldest_age_ms = duration_ms now (fr_received_at (hd batch)),
      ae_newest_age_ms = duration_ms now (fr_received_at (last batch)), ae_flush_lateness_ms = lateness,
      ae_inference_elapsed_ms = Some (duration_ms now started_at), ae_inflight_gateway_batches = 1,
      ae_gateway_buffer_frames = buffered, ae_inference_status = status, ae_retryable = retryable\<rparr>"

text \<open>
  The request takes a client first and advances the shared counter; \<open>started_at\<close> is sampled before,
  \<open>now\<close> and \<open>buffered\<close> after the outcome is known.
\<close>

definition request_partial ::
  "app_context \<Rightarrow> ax_frame list \<Rightarrow> f64 \<Rightarrow> instant \<Rightarrow> instant \<Rightarrow> usize \<Rightarrow> http_outcome
     \<Rightarrow> ((ax_partial, ax_error) result \<times> app_context) rust" where
  "request_partial context batch lateness started_at now buffered outcome =
     (if batch = [] then Panic
      else
        let partial_context = \<lparr>pc_oldest_frame_seq = fr_seq (hd batch), pc_newest_frame_seq = fr_seq (last batch),
              pc_frames = of_nat (length batch), pc_flush_lateness_ms = lateness\<rparr>;
            err = make_error batch lateness started_at now buffered
        in case inference_client context of
             Panic \<Rightarrow> Panic
           | Ret (_, context') \<Rightarrow>
               Ret (case outcome of
                      Http_failed error \<Rightarrow>
                        (case classify_request_error error of (kind, retryable) \<Rightarrow>
                           Err (err Stage_InferenceRequest kind (rq_text error) None retryable))
                    | Http_response status phrase body \<Rightarrow>
                        if \<not> (200 \<le> status \<and> status < 300)
                        then (case ax_classify_status status of (kind, retryable) \<Rightarrow>
                                Err (err Stage_InferenceRequest kind (''inference returned status '' @ phrase)
                                  (Some status) retryable))
                        else (case body of
                                Err text \<Rightarrow> Err (err Stage_InferenceResponseParse Kind_ParseError text (Some status) False)
                              | Ok infer \<Rightarrow>
                                  Ok (ax_partial_new infer partial_context (ac_cpu_passes context)
                                    (ac_model_delay context))), context'))"

end
