(* ===== verification/Axum_Session.thy ===== *)
theory Axum_Session
  imports Axum Gateway
begin

text \<open>
  One session of the rust-axum gateway, \<open>services/rust-axum/src/session.rs\<close>: the receive loop
  (\<open>handle_socket\<close>) and the flush loop (\<open>flush_loop\<close>), two tasks that share the frame buffer, the
  semaphore and the outbound channel. A step is what one task does between two awaits.

  The flush loop's position is \<open>flusher\<close>: waiting for a tick, waiting for the inference server's
  answer to a batch, or waiting for room in the channel.
\<close>

datatype ws_message = Wm_text string | Wm_binary bytes | Wm_ping | Wm_pong | Wm_close

datatype ws_recv = Recv_msg ws_message | Recv_err | Recv_none

datatype first_message = First_start | First_control | First_invalid

definition classify_first_message :: "(string \<Rightarrow> bool) \<Rightarrow> ws_message \<Rightarrow> first_message" where
  "classify_first_message is_start m =
     (case m of
        Wm_text t \<Rightarrow> if is_start t then First_start else First_invalid
      | Wm_ping \<Rightarrow> First_control
      | Wm_pong \<Rightarrow> First_control
      | _ \<Rightarrow> First_invalid)"

datatype ax_msg = Ax_partial ax_partial | Ax_error ax_error

datatype flusher = Fl_waiting | Fl_inferring "ax_frame list" f64 instant | Fl_emitting ax_msg

datatype ax_phase = Await_start | Streaming | Closed

record ax_session =
  as_phase :: ax_phase
  as_buffer :: "ax_frame list"
  as_seq :: u64
  as_permits :: nat
  as_flusher :: flusher
  as_expected :: instant
  as_channel :: "ax_msg list"
  as_sending :: "ax_msg option"
  as_sent :: "ax_msg list"
  as_close_frames :: "(u16 \<times> string) list"

definition session_new :: ax_session where
  "session_new = \<lparr>as_phase = Await_start, as_buffer = [], as_seq = 0, as_permits = MAX_INFLIGHT_INFERENCES,
     as_flusher = Fl_waiting, as_expected = 0, as_channel = [], as_sending = None, as_sent = [], as_close_frames = []\<rparr>"

text \<open>\<open>send_close\<close>, followed by the return of its caller.\<close>

definition send_close :: "u16 \<Rightarrow> string \<Rightarrow> ax_session \<Rightarrow> ax_session" where
  "send_close code reason s = s\<lparr>as_close_frames := as_close_frames s @ [(code, reason)]\<rparr>"

text \<open>
  The first loop of \<open>handle_socket\<close>; on the start message the flush loop is spawned, and draws its
  phase: \<open>jitter\<close> is \<open>flush_phase_jitter.mul_f64(factor)\<close>.
\<close>

definition on_first ::
  "(string \<Rightarrow> bool) \<Rightarrow> app_context \<Rightarrow> ws_recv \<Rightarrow> instant \<Rightarrow> duration \<Rightarrow> ax_session \<Rightarrow> ax_session" where
  "on_first is_start context r now jitter s =
     (case r of
        Recv_msg m \<Rightarrow>
          (case classify_first_message is_start m of
             First_start \<Rightarrow>
               s\<lparr>as_phase := Streaming, as_expected := now + ac_flush_interval context + jitter\<rparr>
           | First_control \<Rightarrow> s
           | First_invalid \<Rightarrow> (send_close CLOSE_PROTOCOL_ERROR AX_REASON_NEED_START s)\<lparr>as_phase := Closed\<rparr>)
      | Recv_err \<Rightarrow> s\<lparr>as_phase := Closed\<rparr>
      | Recv_none \<Rightarrow> s\<lparr>as_phase := Closed\<rparr>)"

datatype control_flow = Continue | Break

definition handle_inbound :: "ws_recv \<Rightarrow> instant \<Rightarrow> ax_session \<Rightarrow> control_flow \<times> ax_session" where
  "handle_inbound r now s =
     (case r of
        Recv_msg (Wm_binary payload) \<Rightarrow>
          if length payload = AX_FRAME_BYTES
          then (Continue, s\<lparr>as_seq := as_seq s + 1,
                  as_buffer := as_buffer s @ [\<lparr>fr_seq = as_seq s + 1, fr_payload = payload, fr_received_at = now\<rparr>]\<rparr>)
          else (Break, send_close CLOSE_UNSUPPORTED_DATA AX_REASON_BAD_FRAME_SIZE s)
      | Recv_msg (Wm_text _) \<Rightarrow> (Break, send_close CLOSE_PROTOCOL_ERROR AX_REASON_TEXT_AFTER_START s)
      | Recv_msg Wm_close \<Rightarrow> (Break, s)
      | Recv_msg _ \<Rightarrow> (Continue, s)
      | Recv_err \<Rightarrow> (Break, s)
      | Recv_none \<Rightarrow> (Break, s))"

text \<open>The inbound arm of the \<open>select\<close>; leaving the loop aborts the flush loop.\<close>

definition on_inbound :: "ws_recv \<Rightarrow> instant \<Rightarrow> ax_session \<Rightarrow> ax_session" where
  "on_inbound r now s =
     (case handle_inbound r now s of
        (Continue, s') \<Rightarrow> s'
      | (Break, s') \<Rightarrow> s'\<lparr>as_phase := Closed\<rparr>)"

text \<open>
  The outbound arm: a message is taken from the channel, and the loop waits for the socket;
  \<open>send_ok\<close> is what the socket's \<open>send\<close> returns. The loop holds a sender, so the channel never ends.
\<close>

definition on_outbound :: "ax_session \<Rightarrow> ax_session" where
  "on_outbound s =
     (case as_channel s of
        [] \<Rightarrow> s
      | m # rest \<Rightarrow> s\<lparr>as_channel := rest, as_sending := Some m\<rparr>)"

definition on_sent :: "bool \<Rightarrow> ax_session \<Rightarrow> ax_session" where
  "on_sent send_ok s =
     (case as_sending s of
        None \<Rightarrow> s
      | Some m \<Rightarrow>
          if send_ok then s\<lparr>as_sending := None, as_sent := as_sent s @ [m]\<rparr>
          else s\<lparr>as_sending := None, as_phase := Closed\<rparr>)"

text \<open>One tick of the flush loop up to the request.\<close>

definition flush_tick :: "app_context \<Rightarrow> instant \<Rightarrow> instant \<Rightarrow> ax_session \<Rightarrow> ax_session" where
  "flush_tick context now started_at s =
     (let lateness = as_ms_f64 (now - as_expected s);
          s1 = s\<lparr>as_expected := as_expected s + ac_flush_interval context\<rparr>
      in if as_permits s1 = 0 then s1
         else if as_buffer s1 = [] then s1
         else s1\<lparr>as_permits := as_permits s1 - 1, as_buffer := [],
                as_flusher := Fl_inferring (as_buffer s1) lateness started_at\<rparr>)"

text \<open>The answer to the request: a message to emit, or nothing when it cannot be encoded.\<close>

definition flush_answer ::
  "app_context \<Rightarrow> (ax_msg \<Rightarrow> bool) \<Rightarrow> http_outcome \<Rightarrow> instant \<Rightarrow> ax_session \<Rightarrow> ax_session rust" where
  "flush_answer context ser_ok outcome now s =
     (case as_flusher s of
        Fl_inferring batch lateness started_at \<Rightarrow>
          (case request_partial context batch lateness started_at now (of_nat (length (as_buffer s))) outcome of
             Panic \<Rightarrow> Panic
           | Ret (r, _) \<Rightarrow>
               let m = (case r of Ok p \<Rightarrow> Ax_partial p | Err e \<Rightarrow> Ax_error e)
               in if ser_ok m then Ret (s\<lparr>as_flusher := Fl_emitting m\<rparr>)
                  else Ret (s\<lparr>as_flusher := Fl_waiting, as_permits := as_permits s + 1\<rparr>))
      | _ \<Rightarrow> Ret s)"

text \<open>The send on the bounded channel completes; the permit is released at the end of the iteration.\<close>

definition flush_emit :: "ax_session \<Rightarrow> ax_session" where
  "flush_emit s =
     (case as_flusher s of
        Fl_emitting m \<Rightarrow>
          if length (as_channel s) < PARTIAL_CHANNEL_DEPTH
          then s\<lparr>as_channel := as_channel s @ [m], as_flusher := Fl_waiting, as_permits := as_permits s + 1\<rparr>
          else s
      | _ \<Rightarrow> s)"

subsection \<open>The session as a step relation\<close>

text \<open>
  What does not change during a session: the context (all but the client counter, which every session
  advances), the decoder of the start message, whether a message can be encoded, and which outcomes
  the HTTP client may return for the value of the header \<open>x-cpu-passes\<close> and a body.
\<close>

record ax_world =
  aw_context :: app_context
  aw_is_start :: "string \<Rightarrow> bool"
  aw_ser_ok :: "ax_msg \<Rightarrow> bool"
  aw_outcome :: "string \<Rightarrow> bytes \<Rightarrow> http_outcome \<Rightarrow> bool"

text \<open>The frame a message adds to the history of accepted frames.\<close>

definition inbound_frames :: "ws_recv \<Rightarrow> bytes list" where
  "inbound_frames r =
     (case r of
        Recv_msg (Wm_binary payload) \<Rightarrow> if length payload = AX_FRAME_BYTES then [payload] else []
      | _ \<Rightarrow> [])"

text \<open>
  Steps on a session with its ghost history, the payloads accepted so far. The \<open>select\<close> polls the
  channel first, but the flush loop may fill the channel between that poll and the next, so that a
  message may be received also when the channel is not empty. A closed session does nothing more.
\<close>

inductive ax_step :: "ax_world \<Rightarrow> bytes list \<times> ax_session \<Rightarrow> bytes list \<times> ax_session \<Rightarrow> bool" for w where
  first: "ax_step w (h, s) (h, on_first (aw_is_start w) (aw_context w) r now jitter s)"
  if "as_phase s = Await_start"
| inbound: "ax_step w (h, s) (h @ inbound_frames r, on_inbound r now s)"
  if "as_phase s = Streaming" and "as_sending s = None" and "length (h @ inbound_frames r) < 2 ^ 64"
| outbound: "ax_step w (h, s) (h, on_outbound s)" if "as_phase s = Streaming" and "as_sending s = None"
| sent: "ax_step w (h, s) (h, on_sent ok s)" if "as_phase s = Streaming"
| tick: "ax_step w (h, s) (h, flush_tick (aw_context w) now started s)"
  if "as_phase s = Streaming" and "as_flusher s = Fl_waiting"
| answer: "ax_step w (h, s) (h, s')"
  if "as_phase s = Streaming" and "as_flusher s = Fl_inferring batch lateness started"
    and "aw_outcome w (ac_cpu_passes_header (aw_context w)) (concat_pcm batch) outcome"
    and "flush_answer (aw_context w\<lparr>ac_next_client := k\<rparr>) (aw_ser_ok w) outcome now s = Ret s'"
| emit: "ax_step w (h, s) (h, flush_emit s)" if "as_phase s = Streaming"

inductive_cases ax_stepE: "ax_step w (h, s) c"

subsection \<open>Invariant\<close>

fun ax_range :: "ax_msg \<Rightarrow> u64 \<times> u64" where
  "ax_range (Ax_partial p) = (ap_oldest_frame_seq p, ap_newest_frame_seq p)"
| "ax_range (Ax_error e) = (ae_oldest_frame_seq e, ae_newest_frame_seq e)"

text \<open>Every message made so far that the client may still see, oldest first.\<close>

definition ax_made :: "ax_session \<Rightarrow> ax_msg list" where
  "ax_made s = as_sent s @ (case as_sending s of None \<Rightarrow> [] | Some m \<Rightarrow> [m]) @ as_channel s @
     (case as_flusher s of Fl_emitting m \<Rightarrow> [m] | _ \<Rightarrow> [])"

definition ax_batch :: "ax_session \<Rightarrow> ax_frame list" where
  "ax_batch s = (case as_flusher s of Fl_inferring batch _ _ \<Rightarrow> batch | _ \<Rightarrow> [])"

text \<open>Frames \<open>k + 1\<close>, \<open>k + 2\<close>, ... of the history, in order.\<close>

definition frame_run :: "bytes list \<Rightarrow> nat \<Rightarrow> ax_frame list \<Rightarrow> bool" where
  "frame_run h k fs \<longleftrightarrow> k + length fs \<le> length h \<and>
     (\<forall>i < length fs. unat (fr_seq (fs ! i)) = k + i + 1 \<and> fr_payload (fs ! i) = h ! (k + i))"

definition ax_genuine :: "ax_world \<Rightarrow> bytes list \<Rightarrow> ax_partial \<Rightarrow> bool" where
  "ax_genuine w h p \<longleftrightarrow>
     (\<exists>oldest newest lateness status phrase infer.
        0 < unat oldest \<and> oldest \<le> newest \<and> unat newest \<le> length h \<and>
        aw_outcome w (ac_cpu_passes_header (aw_context w)) (concat (frames_of h oldest newest))
          (Http_response status phrase (Ok infer)) \<and> 200 \<le> status \<and> status < 300 \<and>
        p = ax_partial_new infer
              \<lparr>pc_oldest_frame_seq = oldest, pc_newest_frame_seq = newest,
               pc_frames = newest - oldest + 1, pc_flush_lateness_ms = lateness\<rparr>
              (ac_cpu_passes (aw_context w)) (ac_model_delay (aw_context w)))"

definition ax_answers :: "ax_world \<Rightarrow> bytes list \<Rightarrow> ax_msg list \<Rightarrow> nat \<Rightarrow> bool" where
  "ax_answers w h ms n \<longleftrightarrow>
     tiles (map ax_range ms) 0 n \<and> n \<le> length h \<and> (\<forall>p. Ax_partial p \<in> set ms \<longrightarrow> ax_genuine w h p)"

definition ax_live :: "ax_world \<Rightarrow> bytes list \<Rightarrow> ax_session \<Rightarrow> nat \<Rightarrow> bool" where
  "ax_live w h s n \<longleftrightarrow>
     unat (as_seq s) = length h \<and> ax_answers w h (ax_made s) n \<and>
     frame_run h n (ax_batch s @ as_buffer s) \<and> n + length (ax_batch s @ as_buffer s) = length h \<and>
     as_permits s = (if as_flusher s = Fl_waiting then 1 else 0) \<and>
     (\<forall>b l t. as_flusher s = Fl_inferring b l t \<longrightarrow> b \<noteq> []) \<and> length (as_channel s) \<le> PARTIAL_CHANNEL_DEPTH"

fun ax_inv :: "ax_world \<Rightarrow> bytes list \<times> ax_session \<Rightarrow> bool" where
  "ax_inv w (h, s) \<longleftrightarrow> length h < 2 ^ 64 \<and>
     (if as_phase s = Closed then \<exists>n. ax_answers w h (as_sent s) n else \<exists>n. ax_live w h s n)"

subsection \<open>Answers and batches\<close>

lemma tiles_prefix: "tiles (rs @ rs') a b \<Longrightarrow> \<exists>k \<le> b. tiles rs a k"
  by (induction rs a b rule: tiles.induct) (auto dest: tiles_le)

lemma ax_genuine_append:
  assumes "ax_genuine w h p"
  shows "ax_genuine w (h @ fs) p"
proof -
  obtain oldest newest lateness status phrase infer where
    g: "0 < unat oldest" "oldest \<le> newest" "unat newest \<le> length h"
      "aw_outcome w (ac_cpu_passes_header (aw_context w)) (concat (frames_of h oldest newest))
        (Http_response status phrase (Ok infer))" "200 \<le> status" "status < 300"
      "p = ax_partial_new infer \<lparr>pc_oldest_frame_seq = oldest, pc_newest_frame_seq = newest,
        pc_frames = newest - oldest + 1, pc_flush_lateness_ms = lateness\<rparr>
        (ac_cpu_passes (aw_context w)) (ac_model_delay (aw_context w))"
    using assms unfolding ax_genuine_def by blast
  have "unat newest \<le> length (h @ fs)" using g(3) by simp
  moreover have "frames_of (h @ fs) oldest newest = frames_of h oldest newest"
    by (rule frames_of_append [OF g(1-3)])
  ultimately show ?thesis unfolding ax_genuine_def using g(1,2,4-7) by metis
qed

lemma ax_answers_append: "ax_answers w h ms n \<Longrightarrow> ax_answers w (h @ fs) ms n"
  by (auto simp: ax_answers_def intro: ax_genuine_append)

lemma ax_answers_prefix: "ax_answers w h (ms @ ms') n \<Longrightarrow> \<exists>k. ax_answers w h ms k"
  by (auto simp: ax_answers_def dest!: tiles_prefix)

lemma frame_run_append: "frame_run h k fs \<Longrightarrow> frame_run (h @ hs) k fs"
  by (auto simp: frame_run_def nth_append)

lemma frame_run_snoc:
  "frame_run h k fs \<Longrightarrow> k + length fs = length h \<Longrightarrow> unat (fr_seq f) = Suc (length h) \<Longrightarrow>
     frame_run (h @ [fr_payload f]) k (fs @ [f])"
  by (auto simp: frame_run_def nth_append less_Suc_eq)

text \<open>A batch taken from a run of frames: its numbers, its count and its audio.\<close>

lemma frame_run_batch:
  assumes run: "frame_run h n (b @ rest)" and b: "b \<noteq> []" and h: "length h < 2 ^ 64"
  shows "unat (fr_seq (hd b)) = n + 1" and "unat (fr_seq (last b)) = n + length b"
    and "fr_seq (hd b) \<le> fr_seq (last b)" and "of_nat (length b) = fr_seq (last b) - fr_seq (hd b) + 1"
    and "concat_pcm b = concat (frames_of h (fr_seq (hd b)) (fr_seq (last b)))"
    and "frame_run h (n + length b) rest" and "n + length b \<le> length h"
proof -
  have nth: "unat (fr_seq (b ! i)) = n + i + 1" "fr_payload (b ! i) = h ! (n + i)" if "i < length b" for i
    using run that unfolding frame_run_def by (auto simp: nth_append dest!: spec [of _ i])
  have l: "0 < length b" using b by simp
  show hd: "unat (fr_seq (hd b)) = n + 1" using nth(1) [of 0] l b by (simp add: hd_conv_nth)
  show la: "unat (fr_seq (last b)) = n + length b"
    using nth(1) [of "length b - 1"] l b by (simp add: last_conv_nth)
  show le: "fr_seq (hd b) \<le> fr_seq (last b)" unfolding word_le_nat_alt hd la using l by linarith
  show len: "n + length b \<le> length h" using run by (simp add: frame_run_def)
  have "unat (fr_seq (last b) - fr_seq (hd b)) = length b - 1" by (simp add: unat_sub [OF le] hd la)
  then have "fr_seq (last b) - fr_seq (hd b) = of_nat (length b - 1)" by (metis of_nat_unat ucast_id)
  then show "of_nat (length b) = fr_seq (last b) - fr_seq (hd b) + 1" using l by (simp add: of_nat_diff)
  have "map fr_payload b = take (length b) (drop n h)"
    using len nth(2) by (intro nth_equalityI) simp_all
  then show "concat_pcm b = concat (frames_of h (fr_seq (hd b)) (fr_seq (last b)))"
    using hd la l by (simp add: concat_pcm_def frames_of_def)
  show "frame_run h (n + length b) rest"
    using run unfolding frame_run_def
    by (auto simp: nth_append add.assoc dest!: spec [of _ "length b + i" for i])
qed

subsection \<open>Every step keeps the invariant\<close>

lemma inference_client_ret: "ac_clients c \<noteq> 0 \<Longrightarrow> \<exists>i < unat (ac_clients c).
    inference_client c = Ret (i, c\<lparr>ac_next_client := ac_next_client c + 1\<rparr>)"
  by (auto simp: inference_client_def Let_def unat_gt_0)

lemma request_partial_ret:
  "batch \<noteq> [] \<Longrightarrow> ac_clients c \<noteq> 0 \<Longrightarrow> \<exists>r c'. request_partial c batch l t now k outcome = Ret (r, c')"
  using inference_client_ret [of c] by (auto simp: request_partial_def Let_def)

lemma request_partial_ok:
  assumes "request_partial c batch l t now k outcome = Ret (Ok p, c')"
  shows "\<exists>status phrase infer. outcome = Http_response status phrase (Ok infer) \<and> 200 \<le> status \<and> status < 300 \<and>
    p = ax_partial_new infer \<lparr>pc_oldest_frame_seq = fr_seq (hd batch), pc_newest_frame_seq = fr_seq (last batch),
      pc_frames = of_nat (length batch), pc_flush_lateness_ms = l\<rparr> (ac_cpu_passes c) (ac_model_delay c)"
  using assms
  by (auto simp: request_partial_def Let_def split: if_splits rust.splits http_outcome.splits sum.splits prod.splits)

lemma request_partial_err:
  assumes "request_partial c batch l t now k outcome = Ret (Err e, c')"
  shows "ae_oldest_frame_seq e = fr_seq (hd batch) \<and> ae_newest_frame_seq e = fr_seq (last batch)"
  using assms
  by (auto simp: request_partial_def Let_def make_error_def
      split: if_splits rust.splits http_outcome.splits sum.splits prod.splits)

lemma flush_answer_cases:
  assumes "flush_answer c (\<lambda>_. True) outcome now s = Ret s'" and "as_flusher s = Fl_inferring batch l t"
  obtains p c' where "s' = s\<lparr>as_flusher := Fl_emitting (Ax_partial p)\<rparr>"
      "request_partial c batch l t now (of_nat (length (as_buffer s))) outcome = Ret (Ok p, c')"
  | e c' where "s' = s\<lparr>as_flusher := Fl_emitting (Ax_error e)\<rparr>"
      "request_partial c batch l t now (of_nat (length (as_buffer s))) outcome = Ret (Err e, c')"
  using assms by (auto simp: flush_answer_def split: rust.splits sum.splits prod.splits)

lemma flush_answer_ret:
  assumes "request_partial c batch l t now (of_nat (length (as_buffer s))) outcome = Ret (r, c')"
    and "as_flusher s = Fl_inferring batch l t"
  shows "\<exists>m. flush_answer c (\<lambda>_. True) outcome now s = Ret (s\<lparr>as_flusher := Fl_emitting m\<rparr>) \<and>
    ax_range m = (fr_seq (hd batch), fr_seq (last batch))"
proof (cases r)
  case (Inl e)
  have "ax_range (Ax_error e) = (fr_seq (hd batch), fr_seq (last batch))"
    using request_partial_err [OF assms(1) [unfolded Inl]] by simp
  then show ?thesis using assms by (intro exI [of _ "Ax_error e"]) (simp add: flush_answer_def Inl)
next
  case (Inr p)
  have "ax_range (Ax_partial p) = (fr_seq (hd batch), fr_seq (last batch))"
    using request_partial_ok [OF assms(1) [unfolded Inr]] by (auto simp: ax_partial_new_def)
  then show ?thesis using assms by (intro exI [of _ "Ax_partial p"]) (simp add: flush_answer_def Inr)
qed

lemma answer_live:
  assumes live: "ax_live w h s n" and h: "length h < 2 ^ 64"
    and fl: "as_flusher s = Fl_inferring batch l t"
    and out: "aw_outcome w (ac_cpu_passes_header (aw_context w)) (concat_pcm batch) outcome"
    and ans: "flush_answer (aw_context w\<lparr>ac_next_client := k\<rparr>) (\<lambda>_. True) outcome now s = Ret s'"
  shows "ax_live w h s' (n + length batch)"
proof -
  have b: "batch \<noteq> []" and run: "frame_run h n (batch @ as_buffer s)"
    and made: "ax_answers w h (ax_made s) n" and seq: "unat (as_seq s) = length h"
    and tot: "n + length batch + length (as_buffer s) = length h" and perm: "as_permits s = 0"
    and ch: "length (as_channel s) \<le> PARTIAL_CHANNEL_DEPTH"
    using live fl by (auto simp: ax_live_def ax_batch_def)
  note fr = frame_run_batch [OF run b h]
  have key: "ax_live w h (s\<lparr>as_flusher := Fl_emitting m\<rparr>) (n + length batch)"
    if rng: "ax_range m = (fr_seq (hd batch), fr_seq (last batch))"
      and gen: "\<And>p. m = Ax_partial p \<Longrightarrow> ax_genuine w h p" for m
  proof -
    have "ax_made (s\<lparr>as_flusher := Fl_emitting m\<rparr>) = ax_made s @ [m]" by (simp add: ax_made_def fl)
    moreover have "ax_answers w h (ax_made s @ [m]) (n + length batch)"
      using made rng gen fr(1-3,7) by (auto simp: ax_answers_def tiles_append)
    ultimately show ?thesis
      using seq tot perm ch fr(6) by (simp add: ax_live_def ax_batch_def)
  qed
  show ?thesis using ans fl
  proof (cases rule: flush_answer_cases)
    case (1 p c')
    from request_partial_ok [OF 1(2)] obtain status phrase infer where
      r: "outcome = Http_response status phrase (Ok infer)" "200 \<le> status" "status < 300"
        "p = ax_partial_new infer \<lparr>pc_oldest_frame_seq = fr_seq (hd batch), pc_newest_frame_seq = fr_seq (last batch),
          pc_frames = of_nat (length batch), pc_flush_lateness_ms = l\<rparr>
          (ac_cpu_passes (aw_context w)) (ac_model_delay (aw_context w))" by auto
    have "ax_genuine w h p"
      unfolding ax_genuine_def
      by (rule exI [of _ "fr_seq (hd batch)"], rule exI [of _ "fr_seq (last batch)"], rule exI [of _ l],
          rule exI [of _ status], rule exI [of _ phrase], rule exI [of _ infer])
        (use r fr out in simp)
    then show ?thesis unfolding 1(1) by (intro key) (simp_all add: r(4) ax_partial_new_def)
  next
    case (2 e c')
    show ?thesis unfolding 2(1) using request_partial_err [OF 2(2)] by (intro key) simp_all
  qed
qed

lemma first_inv:
  assumes "ax_inv w (h, s)" and "as_phase s = Await_start"
  shows "ax_inv w (h, on_first is_start c r now jitter s)"
proof -
  obtain n where h: "length h < 2 ^ 64" and live: "ax_live w h s n" using assms by auto
  have "ax_live w h (s\<lparr>as_phase := ph, as_expected := e\<rparr>) n" for ph e
    using live by (simp add: ax_live_def ax_made_def ax_batch_def)
  moreover have "\<exists>k. ax_answers w h (as_sent s) k"
    using live by (auto simp: ax_live_def ax_made_def dest!: ax_answers_prefix)
  ultimately show ?thesis
    using assms(1,2) by (auto simp: on_first_def send_close_def split: ws_recv.split first_message.split)
qed

lemma closing_inv:
  assumes "ax_live w h s n" and "length h < 2 ^ 64" and "as_phase s' = Closed" and "as_sent s' = as_sent s"
  shows "ax_inv w (h, s')"
  using assms by (auto simp: ax_live_def ax_made_def dest!: ax_answers_prefix)

lemma inbound_inv:
  assumes live: "ax_live w h s n" and ph: "as_phase s = Streaming" and l: "length (h @ inbound_frames r) < 2 ^ 64"
  shows "ax_inv w (h @ inbound_frames r, on_inbound r now s)"
proof (cases "\<exists>p. r = Recv_msg (Wm_binary p) \<and> length p = AX_FRAME_BYTES")
  case True
  then obtain p where r: "r = Recv_msg (Wm_binary p)" "length p = AX_FRAME_BYTES" by blast
  define f where "f = \<lparr>fr_seq = as_seq s + 1, fr_payload = p, fr_received_at = now\<rparr>"
  have i: "inbound_frames r = [p]" by (simp add: inbound_frames_def r)
  have s': "on_inbound r now s = s\<lparr>as_seq := as_seq s + 1, as_buffer := as_buffer s @ [f]\<rparr>"
    by (simp add: on_inbound_def handle_inbound_def r f_def)
  have seq: "unat (as_seq s) = length h" using live by (simp add: ax_live_def)
  then have "unat (as_seq s + 1) = Suc (length h)"
    using l by (subst unat_add_lem [THEN iffD1]) (simp_all add: i)
  then have "ax_live w (h @ [p]) (s\<lparr>as_seq := as_seq s + 1, as_buffer := as_buffer s @ [f]\<rparr>) n"
    using live frame_run_snoc [of h n "ax_batch s @ as_buffer s" f]
    by (auto simp: ax_live_def ax_made_def ax_batch_def f_def intro: ax_answers_append)
  then show ?thesis using l ph by (auto simp: s' i)
next
  case False
  then have i: "inbound_frames r = []" by (auto simp: inbound_frames_def split: ws_recv.split ws_message.split)
  then have h: "length h < 2 ^ 64" using l by simp
  have "on_inbound r now s = s \<or>
      as_phase (on_inbound r now s) = Closed \<and> as_sent (on_inbound r now s) = as_sent s"
    using False by (simp add: on_inbound_def handle_inbound_def send_close_def split: ws_recv.split ws_message.split)
  then consider "on_inbound r now s = s"
    | "as_phase (on_inbound r now s) = Closed" "as_sent (on_inbound r now s) = as_sent s" by blast
  then show ?thesis
  proof cases
    case 1
    then show ?thesis using live ph h by (auto simp: i)
  next
    case 2
    then show ?thesis using closing_inv [OF live h] by (simp add: i)
  qed
qed

lemma outbound_live: "ax_live w h s n \<Longrightarrow> as_sending s = None \<Longrightarrow> ax_live w h (on_outbound s) n"
  by (auto simp: ax_live_def ax_made_def ax_batch_def on_outbound_def split: list.split)

lemma sent_inv:
  assumes "ax_live w h s n" and "as_phase s = Streaming" and "length h < 2 ^ 64"
  shows "ax_inv w (h, on_sent ok s)"
proof (cases "as_sending s")
  case None
  then show ?thesis using assms by (auto simp: on_sent_def)
next
  case (Some m)
  then have "ax_live w h (s\<lparr>as_sending := None, as_sent := as_sent s @ [m]\<rparr>) n"
    using assms(1) by (simp add: ax_live_def ax_made_def ax_batch_def)
  then show ?thesis
    using Some assms(2,3) closing_inv [OF assms(1,3), of "s\<lparr>as_sending := None, as_phase := Closed\<rparr>"]
    by (auto simp: on_sent_def)
qed

lemma tick_live: "ax_live w h s n \<Longrightarrow> as_flusher s = Fl_waiting \<Longrightarrow> ax_live w h (flush_tick c now started s) n"
  by (auto simp: ax_live_def ax_made_def ax_batch_def flush_tick_def Let_def)

lemma emit_live: "ax_live w h s n \<Longrightarrow> ax_live w h (flush_emit s) n"
  by (auto simp: ax_live_def ax_made_def ax_batch_def flush_emit_def split: flusher.split)

lemma phases [simp]:
  "as_phase (on_outbound s) = as_phase s" "as_phase (flush_tick c now started s) = as_phase s"
  "as_phase (flush_emit s) = as_phase s"
  by (auto simp: on_outbound_def flush_tick_def Let_def flush_emit_def split: list.split flusher.split)

lemma answer_phase: "flush_answer c ok outcome now s = Ret s' \<Longrightarrow> as_phase s' = as_phase s"
  by (auto simp: flush_answer_def Let_def split: flusher.splits rust.splits if_splits prod.splits)

lemma ax_step_inv:
  assumes "ax_step w c c'" and "ax_inv w c" and ser: "aw_ser_ok w = (\<lambda>_. True)"
  shows "ax_inv w c'"
  using assms(1,2)
proof (cases rule: ax_step.cases)
  case (first s h r now jitter)
  then show ?thesis using assms(2) first_inv by simp
next
  case (inbound s h r now)
  then show ?thesis using assms(2) inbound_inv by auto
next
  case (outbound s h)
  then show ?thesis using assms(2) by (auto intro: outbound_live)
next
  case (sent s h ok)
  then show ?thesis using assms(2) sent_inv by auto
next
  case (tick s h now started)
  then show ?thesis using assms(2) by (auto intro: tick_live)
next
  case (answer s batch lateness started outcome k now s' h)
  then obtain n where "ax_live w h s n" and "length h < 2 ^ 64" using assms(2) by auto
  from answer_live [OF this answer(4,5) answer(6) [unfolded ser]]
  show ?thesis using answer assms(2) answer_phase [OF answer(6)] by auto
next
  case (emit s h)
  then show ?thesis using assms(2) by (auto intro: emit_live)
qed

lemma ax_init_inv: "ax_inv w ([], session_new)"
proof -
  have "ax_live w [] session_new 0"
    by (simp add: session_new_def ax_live_def ax_answers_def ax_made_def ax_batch_def frame_run_def
        MAX_INFLIGHT_INFERENCES_def)
  moreover have "as_phase session_new = Await_start" by (simp add: session_new_def)
  ultimately show ?thesis by auto
qed

lemma ax_reachable_inv:
  assumes "(ax_step w)\<^sup>*\<^sup>* ([], session_new) c" and "aw_ser_ok w = (\<lambda>_. True)"
  shows "ax_inv w c"
  using assms(1)
proof induction
  case base
  show ?case by (rule ax_init_inv)
next
  case (step c c')
  from ax_step_inv [OF step(2,3) assms(2)] show ?case .
qed

subsection \<open>Properties of a session\<close>

text \<open>
  C14. In every reachable state of a rust-axum session that is still streaming, at most one batch is
  with the inference server, every accepted frame is in exactly one place (reported, in the batch, or
  in the buffer), the semaphore never refuses a waiting flush loop, a batch in flight is answered with
  a message for exactly its frames and never panics, and the channel stays within its bound.
\<close>

theorem axum_session_safe:
  assumes "(ax_step w)\<^sup>*\<^sup>* ([], session_new) (h, s)" and "aw_ser_ok w = (\<lambda>_. True)"
    and "ac_clients (aw_context w) \<noteq> 0" and "as_phase s = Streaming"
  shows "(\<exists>n. tiles (map ax_range (ax_made s)) 0 n \<and>
      map fr_payload (ax_batch s @ as_buffer s) = drop n h) \<and>
    (as_flusher s = Fl_waiting \<longleftrightarrow> as_permits s = 1) \<and>
    (\<forall>batch l t outcome k now. as_flusher s = Fl_inferring batch l t \<longrightarrow>
      (\<exists>m. flush_answer (aw_context w\<lparr>ac_next_client := k\<rparr>) (aw_ser_ok w) outcome now s =
          Ret (s\<lparr>as_flusher := Fl_emitting m\<rparr>) \<and> ax_range m = (fr_seq (hd batch), fr_seq (last batch)))) \<and>
    length (as_channel s) \<le> PARTIAL_CHANNEL_DEPTH"
proof -
  obtain n where live: "ax_live w h s n" using ax_reachable_inv [OF assms(1,2)] assms(4) by auto
  have "map fr_payload (ax_batch s @ as_buffer s) = drop n h"
  proof (rule nth_equalityI)
    show "length (map fr_payload (ax_batch s @ as_buffer s)) = length (drop n h)"
      using live by (auto simp: ax_live_def)
    fix i assume "i < length (map fr_payload (ax_batch s @ as_buffer s))"
    then have i: "i < length (ax_batch s @ as_buffer s)" by simp
    then have "map fr_payload (ax_batch s @ as_buffer s) ! i = fr_payload ((ax_batch s @ as_buffer s) ! i)"
      by (rule nth_map)
    also have "\<dots> = drop n h ! i" using live i unfolding ax_live_def frame_run_def by simp
    finally show "map fr_payload (ax_batch s @ as_buffer s) ! i = drop n h ! i" .
  qed
  moreover have "\<exists>m. flush_answer (aw_context w\<lparr>ac_next_client := k\<rparr>) (aw_ser_ok w) outcome now s =
      Ret (s\<lparr>as_flusher := Fl_emitting m\<rparr>) \<and> ax_range m = (fr_seq (hd batch), fr_seq (last batch))"
    if fl: "as_flusher s = Fl_inferring batch l t" for batch l t outcome k now
  proof -
    define c where "c = aw_context w\<lparr>ac_next_client := k\<rparr>"
    have "batch \<noteq> []" using live fl by (simp add: ax_live_def)
    then obtain r c' where r: "request_partial c batch l t now (of_nat (length (as_buffer s))) outcome = Ret (r, c')"
      using request_partial_ret [of batch c l t now _ outcome] assms(3) unfolding c_def by force
    from flush_answer_ret [OF this fl] show ?thesis unfolding c_def assms(2) .
  qed
  moreover have "tiles (map ax_range (ax_made s)) 0 n" "as_flusher s = Fl_waiting \<longleftrightarrow> as_permits s = 1"
    "length (as_channel s) \<le> PARTIAL_CHANNEL_DEPTH"
    using live by (simp_all add: ax_live_def ax_answers_def)
  ultimately show ?thesis by blast
qed

text \<open>A session that started, accepted one frame and was flushed once.\<close>

definition flushed_once :: "app_context \<Rightarrow> bytes \<Rightarrow> ax_session" where
  "flushed_once c p = session_new\<lparr>as_phase := Streaming, as_seq := 1, as_permits := 0,
     as_flusher := Fl_inferring [\<lparr>fr_seq = 1, fr_payload = p, fr_received_at = 5\<rparr>] (as_ms_f64 0) 0,
     as_expected := ac_flush_interval c + ac_flush_interval c\<rparr>"

lemma run_flushed_once:
  assumes start: "aw_is_start w t" and p: "length p = AX_FRAME_BYTES"
  shows "(ax_step w)\<^sup>*\<^sup>* ([], session_new) ([p], flushed_once (aw_context w) p)"
proof -
  define c where "c = aw_context w"
  define s1 where "s1 = session_new\<lparr>as_phase := Streaming, as_expected := ac_flush_interval c\<rparr>"
  define s2 where "s2 = s1\<lparr>as_seq := 1, as_buffer := [\<lparr>fr_seq = 1, fr_payload = p, fr_received_at = 5\<rparr>]\<rparr>"
  have "on_first (aw_is_start w) (aw_context w) (Recv_msg (Wm_text t)) 0 0 session_new = s1"
    using start by (simp add: on_first_def classify_first_message_def s1_def c_def)
  then have 1: "ax_step w ([], session_new) ([], s1)"
    using ax_step.first [of session_new w "[]" "Recv_msg (Wm_text t)" 0 0] by (simp add: session_new_def)
  have "on_inbound (Recv_msg (Wm_binary p)) 5 s1 = s2"
    using p by (simp add: on_inbound_def handle_inbound_def s1_def s2_def session_new_def)
  then have 2: "ax_step w ([], s1) ([p], s2)"
    using ax_step.inbound [of s1 "[]" "Recv_msg (Wm_binary p)" w 5] p
    by (simp add: s1_def session_new_def inbound_frames_def)
  have "flush_tick c (ac_flush_interval c) 0 s2 = flushed_once c p"
    by (simp add: flush_tick_def Let_def s2_def s1_def session_new_def flushed_once_def MAX_INFLIGHT_INFERENCES_def)
  then have 3: "ax_step w ([p], s2) ([p], flushed_once c p)"
    using ax_step.tick [of s2 w "[p]" "ac_flush_interval c" 0] by (simp add: s2_def s1_def session_new_def c_def)
  show ?thesis
    using 1 2 3 unfolding c_def by (meson converse_rtranclp_into_rtranclp rtranclp.rtrancl_refl)
qed

definition example_world :: ax_world where
  "example_world = \<lparr>aw_context = ax_context (\<lambda>_. None), aw_is_start = (\<lambda>t. t = ''start''),
     aw_ser_ok = (\<lambda>_. True), aw_outcome = (\<lambda>_ _ _. True)\<rparr>"

lemma clients_default: "ac_clients (ax_context (\<lambda>_. None)) = 512"
  by (simp add: ax_context_def Let_def ax_env_parsed_def DEFAULT_INFERENCE_HTTP_CLIENTS_def max_def word_le_nat_alt)

theorem axum_session_safe_witness:
  "\<exists>s. (ax_step example_world)\<^sup>*\<^sup>* ([], session_new) ([replicate 640 0], s) \<and> as_phase s = Streaming \<and>
     ax_batch s \<noteq> [] \<and> as_permits s \<noteq> 1 \<and> length (as_channel s) \<le> PARTIAL_CHANNEL_DEPTH"
proof -
  define s where "s = flushed_once (aw_context example_world) (replicate 640 0)"
  have run: "(ax_step example_world)\<^sup>*\<^sup>* ([], session_new) ([replicate 640 0], s)"
    unfolding s_def
    by (rule run_flushed_once [of _ "''start''"]) (simp_all add: example_world_def AX_FRAME_BYTES_def)
  have "aw_ser_ok example_world = (\<lambda>_. True)" "ac_clients (aw_context example_world) \<noteq> 0"
    by (simp_all add: example_world_def clients_default)
  from axum_session_safe [OF run this] run show ?thesis
    by (intro exI [of _ s]) (simp add: s_def flushed_once_def ax_batch_def)
qed

text \<open>The lateness every tick reports, in nanoseconds.\<close>

fun tick_lateness :: "app_context \<Rightarrow> instant list \<Rightarrow> ax_session \<Rightarrow> duration list" where
  "tick_lateness c [] s = []"
| "tick_lateness c (now # ticks) s = (now - as_expected s) # tick_lateness c ticks (flush_tick c now now s)"

lemma flush_tick_expected [simp]: "as_expected (flush_tick c now started s) = as_expected s + ac_flush_interval c"
  by (simp add: flush_tick_def Let_def)



subsection \<open>The HTTP clients\<close>

lemma ax_context_clients: "ac_clients (ax_context env) \<noteq> 0"
proof -
  have "1 \<le> max a (1 :: u64)" for a by simp
  then have "1 \<le> ac_clients (ax_context env)" by (simp add: ax_context_def Let_def)
  then show ?thesis by auto
qed

text \<open>The clients that \<open>n\<close> requests take one after the other, or a panic.\<close>

fun take_clients :: "nat \<Rightarrow> app_context \<Rightarrow> nat list rust" where
  "take_clients 0 c = Ret []"
| "take_clients (Suc n) c =
     (case inference_client c of
        Panic \<Rightarrow> Panic
      | Ret (i, c') \<Rightarrow> (case take_clients n c' of Panic \<Rightarrow> Panic | Ret is \<Rightarrow> Ret (i # is)))"

lemma take_clients_eq:
  "ac_clients c \<noteq> 0 \<Longrightarrow> unat (ac_next_client c) + n \<le> 2 ^ 64 \<Longrightarrow>
     take_clients n c = Ret (map (\<lambda>j. (unat (ac_next_client c) + j) mod unat (ac_clients c)) [0..<n])"
proof (induction n arbitrary: c)
  case (Suc n)
  have ic: "inference_client c = Ret (unat (ac_next_client c) mod unat (ac_clients c), c\<lparr>ac_next_client := ac_next_client c + 1\<rparr>)"
    using Suc.prems(1) by (auto simp: inference_client_def Let_def unat_gt_0)
  show ?case
  proof (cases n)
    case 0
    then show ?thesis by (simp add: ic)
  next
    case (Suc m)
    then have u: "unat (ac_next_client c + 1) = Suc (unat (ac_next_client c))"
      using \<open>unat (ac_next_client c) + Suc n \<le> 2 ^ 64\<close> by (subst unat_add_lem [THEN iffD1]) simp_all
    have "[0..<Suc n] = 0 # map Suc [0..<n]" by (simp add: map_Suc_upt upt_conv_Cons del: upt_Suc)
    then show ?thesis
      using Suc.IH [of "c\<lparr>ac_next_client := ac_next_client c + 1\<rparr>"] \<open>ac_clients c \<noteq> 0\<close>
        \<open>unat (ac_next_client c) + Suc n \<le> 2 ^ 64\<close>
      by (simp add: ic u comp_def del: upt_Suc)
  qed
qed simp

lemma rotation_distinct: "0 < (m :: nat) \<Longrightarrow> distinct (map (\<lambda>j. (a + j) mod m) [0..<m])"
proof -
  assume m: "0 < m"
  have le: "j \<le> i" if "i \<le> j" "j < m" "(a + j) mod m = (a + i) mod m" for i j
  proof -
    have "m dvd (a + j) - (a + i)" using that by (subst (asm) mod_eq_dvd_iff_nat) simp_all
    then have "m dvd j - i" by simp
    then show ?thesis using that(2) dvd_imp_le [of m "j - i"] by (cases "j - i = 0") simp_all
  qed
  have eq: "i = j" if "i < m" "j < m" "(a + i) mod m = (a + j) mod m" for i j
  proof (cases "i \<le> j")
    case True
    from le [OF this that(2) that(3) [symmetric]] True show ?thesis by simp
  next
    case False
    then have "j \<le> i" by simp
    from le [OF this that(1,3)] False show ?thesis by simp
  qed
  have "inj_on (\<lambda>j. (a + j) mod m) {0..<m}"
    by (rule inj_onI) (rule eq, simp_all only: atLeastLessThan_iff)
  then show ?thesis unfolding distinct_map set_upt by (intro conjI distinct_upt)
qed

text \<open>
  The requests of all sessions rotate over the HTTP clients: for any environment, as many
  consecutive requests as there are clients take every client exactly once, and none panics, as long
  as the shared counter does not wrap in between.
\<close>

lemma clients_rotate:
  assumes "c = (ax_context env)\<lparr>ac_next_client := k\<rparr>" and "unat k + unat (ac_clients c) \<le> 2 ^ 64"
  shows "\<exists>is. take_clients (unat (ac_clients c)) c = Ret is \<and> distinct is \<and> set is = {..<unat (ac_clients c)}"
proof -
  define m where "m = unat (ac_clients c)"
  have nz: "ac_clients c \<noteq> 0" unfolding assms(1) by (simp add: ax_context_clients)
  then have m: "0 < m" by (simp add: m_def unat_gt_0)
  define xs where "xs = map (\<lambda>j. (unat k + j) mod m) [0..<m]"
  have t: "take_clients m c = Ret xs"
    using take_clients_eq [OF nz, of m] assms by (simp add: m_def xs_def)
  have d: "distinct xs" unfolding xs_def by (rule rotation_distinct [OF m])
  have sub: "set xs \<subseteq> {..<m}" and len: "length xs = m" using m by (auto simp: xs_def)
  have "card (set xs) = card {..<m}" using distinct_card [OF d] len by simp
  then have "set xs = {..<m}" using sub by (intro card_subset_eq) simp_all
  with d t show ?thesis by (simp add: m_def)
qed

end
