(* ===== verification/Axum_Contract.thy ===== *)
theory Axum_Contract
  imports Axum_Session Inference_Server
begin

text \<open>
  The rust-axum gateway keeps the contract of \<open>stt_gateway\<close> when the server behind it is the inference
  server: whatever the environment it is started with, the count of passes it writes into the header
  is the one the server reads, and the load generator accepts every message of a session.
\<close>

definition ax_decode_reply :: "infer_reply \<Rightarrow> ax_infer_response" where
  "ax_decode_reply r =
     \<lparr>ai_rms = re_rms r, ai_zero_crossings = re_zero_crossings r, ai_checksum = re_checksum r,
      ai_samples = re_samples r, ai_transcript = re_transcript r, ai_audio_bytes = re_audio_bytes r\<rparr>"

definition ax_decode_partial :: "ax_partial \<Rightarrow> partial_message" where
  "ax_decode_partial m =
     \<lparr>oldest_frame_seq = ap_oldest_frame_seq m, newest_frame_seq = ap_newest_frame_seq m,
      frames = ap_frames m, rms = ap_rms m, zero_crossings = ap_zero_crossings m, checksum = ap_checksum m,
      samples = ap_samples m, transcript = ap_transcript m, audio_bytes = ap_audio_bytes m,
      cpu_passes = ap_cpu_passes m, model_delay_ms = ap_model_delay_ms m,
      flush_lateness_ms = ap_flush_lateness_ms m, inflight_model_jobs = ap_inflight_model_jobs m\<rparr>"

definition ax_decode_error :: "ax_error \<Rightarrow> error_message" where
  "ax_decode_error m =
     \<lparr>em_stage = ax_stage_str (ae_stage m), em_kind = ax_kind_str (ae_kind m), em_message = ae_message m,
      em_oldest_frame_seq = ae_oldest_frame_seq m, em_newest_frame_seq = ae_newest_frame_seq m,
      em_frames = ae_frames m, em_audio_bytes = ae_audio_bytes m, em_oldest_age_ms = ae_oldest_age_ms m,
      em_newest_age_ms = ae_newest_age_ms m, em_flush_lateness_ms = ae_flush_lateness_ms m,
      em_inference_elapsed_ms = ae_inference_elapsed_ms m,
      em_inflight_gateway_batches = ae_inflight_gateway_batches m,
      em_gateway_buffer_frames = ae_gateway_buffer_frames m, em_inference_status = ae_inference_status m,
      em_retryable = ae_retryable m\<rparr>"

fun ax_message :: "ax_msg \<Rightarrow> server_message" where
  "ax_message (Ax_partial m) = Partial (ax_decode_partial m)"
| "ax_message (Ax_error m) = Error (ax_decode_error m)"

lemma msg_seqs_ax [simp]: "msg_seqs (ax_message m) = ax_range m"
  by (cases m) (simp_all add: ax_decode_partial_def ax_decode_error_def)

text \<open>
  The server behind the gateway is the inference server in state \<open>st\<close>: a successful response is the
  stub's result for the body, with the passes the server reads from the header.
\<close>

definition served_by :: "server_state \<Rightarrow> (bytes \<Rightarrow> string option) \<Rightarrow> ax_world \<Rightarrow> bool" where
  "served_by st to_str w \<longleftrightarrow>
     (\<forall>hdr body status phrase r.
        aw_outcome w hdr body (Http_response status phrase (Ok r)) \<and> 200 \<le> status \<and> status < 300 \<longrightarrow>
        r = ax_decode_reply (reply_of (compute_stub body (requested_passes st to_str (Some (as_bytes hdr))))))"

text \<open>What is fixed in a run: the session's world, the environment of the gateway, and the server.\<close>

record ax_run =
  ar_world :: ax_world
  ar_env :: "string \<Rightarrow> string option"
  ar_server :: server_state
  ar_to_str :: "bytes \<Rightarrow> string option"

definition ax_reachable :: "ax_run \<Rightarrow> bytes list \<times> ax_session \<Rightarrow> bool" where
  "ax_reachable r c \<longleftrightarrow>
     aw_context (ar_world r) = ax_context (ar_env r) \<and> aw_ser_ok (ar_world r) = (\<lambda>_. True) \<and>
     (\<forall>n :: u32. ar_to_str r (as_bytes (dec (unat n))) = Some (dec (unat n))) \<and>
     served_by (ar_server r) (ar_to_str r) (ar_world r) \<and>
     (ax_step (ar_world r))\<^sup>*\<^sup>* ([], session_new) c"

definition ax_promised :: "ax_run \<Rightarrow> expected_config" where
  "ax_promised r = \<lparr>ex_cpu_passes = ac_cpu_passes (ax_context (ar_env r)),
     ex_model_delay_ms = of_nat (as_millis (ac_model_delay (ax_context (ar_env r))))\<rparr>"

definition ax_accepted :: "ax_run \<Rightarrow> bytes list \<times> ax_session \<Rightarrow> bytes list" where
  "ax_accepted r c = fst c"

definition ax_sent :: "ax_run \<Rightarrow> bytes list \<times> ax_session \<Rightarrow> server_message list" where
  "ax_sent r c = map ax_message (as_sent (snd c))"

lemma ax_inv_answers: "ax_inv w (h, s) \<Longrightarrow> \<exists>n. ax_answers w h (as_sent s) n"
  by (cases "as_phase s = Closed") (auto simp: ax_live_def ax_made_def dest!: ax_answers_prefix)

lemma ax_genuine_honest:
  assumes r: "ax_reachable r (h, s)" and g: "ax_genuine (ar_world r) h p"
  shows "honest_report (ax_promised r) h (ax_decode_partial p)"
proof -
  define w where "w = ar_world r"
  have ctx: "aw_context w = ax_context (ar_env r)" and sb: "served_by (ar_server r) (ar_to_str r) w"
    and ts: "\<And>n :: u32. ar_to_str r (as_bytes (dec (unat n))) = Some (dec (unat n))"
    using r by (simp_all add: ax_reachable_def w_def)
  obtain oldest newest lateness status phrase resp where
    p: "0 < unat oldest" "oldest \<le> newest" "unat newest \<le> length h"
      "aw_outcome w (ac_cpu_passes_header (aw_context w)) (concat (frames_of h oldest newest))
        (Http_response status phrase (Ok resp))" "200 \<le> status" "status < 300"
      "p = ax_partial_new resp \<lparr>pc_oldest_frame_seq = oldest, pc_newest_frame_seq = newest,
        pc_frames = newest - oldest + 1, pc_flush_lateness_ms = lateness\<rparr>
        (ac_cpu_passes (aw_context w)) (ac_model_delay (aw_context w))"
    using g unfolding ax_genuine_def w_def [symmetric] by blast
  have hdr: "ac_cpu_passes_header (aw_context w) = dec (unat (ac_cpu_passes (aw_context w)))"
    by (simp add: ctx ax_context_def Let_def)
  have "resp = ax_decode_reply (reply_of (compute_stub (concat (frames_of h oldest newest)) (ac_cpu_passes (aw_context w))))"
    using sb p(4-6) requested_passes_dec [where to_str = "ar_to_str r" and n = "ac_cpu_passes (aw_context w)", OF ts]
    unfolding served_by_def hdr by metis
  then show ?thesis
    using p(1-3) by (simp add: honest_report_def p(7) ax_decode_partial_def ax_partial_new_def honest_partial_def
        ax_decode_reply_def reply_of_def ax_promised_def ctx)
qed

interpretation ax_gw: stt_gateway ax_reachable ax_promised ax_accepted ax_sent
proof (unfold_locales, goal_cases)
  case (1 r c)
  obtain h s where c: "c = (h, s)" by (cases c)
  have "ax_inv (ar_world r) (h, s)"
    using 1 unfolding c ax_reachable_def by (intro ax_reachable_inv) simp_all
  from ax_inv_answers [OF this] show ?case
    by (auto simp: c ax_answers_def ax_accepted_def ax_sent_def comp_def)
next
  case (2 r c)
  obtain h s where c: "c = (h, s)" by (cases c)
  have "ax_inv (ar_world r) (h, s)"
    using 2 unfolding c ax_reachable_def by (intro ax_reachable_inv) simp_all
  then show ?case by (simp add: c ax_accepted_def)
next
  case (3 r c p)
  obtain h s where c: "c = (h, s)" by (cases c)
  have "ax_inv (ar_world r) (h, s)"
    using 3(1) unfolding c ax_reachable_def by (intro ax_reachable_inv) simp_all
  moreover obtain m where m: "Ax_partial m \<in> set (as_sent s)" "p = ax_decode_partial m"
    using 3(2) by (auto simp: c ax_sent_def elim!: ax_message.elims [OF sym])
  ultimately have "ax_genuine (ar_world r) h m" using ax_inv_answers by (auto simp: ax_answers_def)
  from ax_genuine_honest [OF 3(1) [unfolded c] this] show ?case by (simp add: c ax_accepted_def m(2))
qed


text \<open>A session in which one frame is answered and the answer is sent.\<close>

lemma run_answered_once:
  assumes start: "aw_is_start w t" and p: "length p = AX_FRAME_BYTES" and ser: "aw_ser_ok w = (\<lambda>_. True)"
    and cl: "ac_clients (aw_context w) \<noteq> 0"
    and out: "aw_outcome w (ac_cpu_passes_header (aw_context w)) p (Http_response 200 phrase (Ok resp))"
  shows "\<exists>s m. (ax_step w)\<^sup>*\<^sup>* ([], session_new) ([p], s) \<and> as_sent s = [Ax_partial m] \<and>
    ap_newest_frame_seq m = ap_oldest_frame_seq m \<and> ap_flush_lateness_ms m = as_ms_f64 0"
proof -
  define c where "c = aw_context w"
  define s where "s = flushed_once c p"
  define f where "f = \<lparr>fr_seq = 1, fr_payload = p, fr_received_at = 5\<rparr>"
  have fl: "as_flusher s = Fl_inferring [f] (as_ms_f64 0) 0" and st: "as_phase s = Streaming"
    and e: "as_channel s = []" "as_sending s = None" "as_sent s = []"
    by (simp_all add: s_def flushed_once_def f_def session_new_def)
  obtain m where m: "request_partial (c\<lparr>ac_next_client := 0\<rparr>) [f] (as_ms_f64 0) 0 0 (of_nat (length (as_buffer s)))
      (Http_response 200 phrase (Ok resp)) = Ret (Ok m, c\<lparr>ac_next_client := 1\<rparr>)"
    and mr: "ap_newest_frame_seq m = ap_oldest_frame_seq m" "ap_flush_lateness_ms m = as_ms_f64 0"
    using cl by (auto simp: request_partial_def Let_def inference_client_def c_def unat_gt_0 ax_partial_new_def
        word_le_nat_alt word_less_nat_alt)
  define s1 where "s1 = s\<lparr>as_flusher := Fl_emitting (Ax_partial m)\<rparr>"
  define s2 where "s2 = s1\<lparr>as_channel := [Ax_partial m], as_flusher := Fl_waiting, as_permits := as_permits s1 + 1\<rparr>"
  have "flush_answer (c\<lparr>ac_next_client := 0\<rparr>) (aw_ser_ok w) (Http_response 200 phrase (Ok resp)) 0 s = Ret s1"
    using fl m by (simp add: flush_answer_def ser s1_def)
  then have 1: "ax_step w ([p], s) ([p], s1)"
    using ax_step.answer [OF st fl] out by (simp add: c_def f_def concat_pcm_def)
  have 2: "ax_step w ([p], s1) ([p], s2)"
    using ax_step.emit [of s1 w "[p]"] st e by (simp add: flush_emit_def s1_def s2_def PARTIAL_CHANNEL_DEPTH_def)
  define s3 where "s3 = s2\<lparr>as_channel := [], as_sending := Some (Ax_partial m)\<rparr>"
  define s4 where "s4 = s3\<lparr>as_sending := None, as_sent := [Ax_partial m]\<rparr>"
  have 3: "ax_step w ([p], s2) ([p], s3)"
    using ax_step.outbound [of s2 w "[p]"] st e by (simp add: on_outbound_def s1_def s2_def s3_def)
  have 4: "ax_step w ([p], s3) ([p], s4)"
    using ax_step.sent [of s3 w "[p]" True] st e by (simp add: on_sent_def s1_def s2_def s3_def s4_def)
  have "(ax_step w)\<^sup>*\<^sup>* ([], session_new) ([p], s)" unfolding s_def c_def by (rule run_flushed_once [OF start p])
  with 1 2 3 4 have "(ax_step w)\<^sup>*\<^sup>* ([], session_new) ([p], s4)" by (meson rtranclp.rtrancl_into_rtrancl)
  then show ?thesis using mr by (intro exI [of _ s4] exI [of _ m]) (simp add: s4_def)
qed

definition served_world :: ax_world where
  "served_world = \<lparr>aw_context = ax_context (\<lambda>_. None), aw_is_start = (\<lambda>t. t = ''start''), aw_ser_ok = (\<lambda>_. True),
     aw_outcome = (\<lambda>hdr body out. \<forall>status phrase r. out = Http_response status phrase (Ok r) \<longrightarrow>
       r = ax_decode_reply (reply_of (compute_stub body
         (requested_passes (server_init (\<lambda>_. None)) (\<lambda>bs. Some (of_bytes bs)) (Some (as_bytes hdr))))))\<rparr>"


end
