(* ===== verification/Benchmark.thy ===== *)
theory Benchmark
  imports Loadgen_Output Sync_Contract Axum_Contract
begin

text \<open>
  The load generator against a gateway: a session that receives what a gateway keeping the contract of
  \<open>stt_gateway\<close> sends has a clean account. The lemma is proved once, in the contract's locale, and
  applied to both gateways.
\<close>

subsection \<open>Accounts entry by entry\<close>

lemma log_clean_nth:
  "log_clean ex i msgs c \<longleftrightarrow> (\<forall>k < length msgs. entry_clean ex i (msgs ! k) (fold entry_follow (take k msgs) c))"
proof (induction msgs arbitrary: c)
  case (Cons x xs)
  have "(\<forall>k < length (x # xs). entry_clean ex i ((x # xs) ! k) (fold entry_follow (take k (x # xs)) c)) \<longleftrightarrow>
      entry_clean ex i x c \<and> (\<forall>k < length xs. entry_clean ex i (xs ! k) (fold entry_follow (take k xs) (entry_follow x c)))"
    by (simp add: All_less_Suc2 del: entry_clean.simps)
  then show ?case using Cons.IH by (simp del: entry_clean.simps)
qed simp

lemma observe_all_append:
  "observe_all (rs @ rs') c =
     (fst (observe_all rs c) @ fst (observe_all rs' (snd (observe_all rs c))), snd (observe_all rs' (snd (observe_all rs c))))"
  by (induction rs c rule: observe_all.induct) (auto split: prod.splits option.splits)

lemma follow_observe_all:
  "list_all (\<lambda>x. le_msg x \<noteq> None) msgs \<Longrightarrow>
     fold entry_follow msgs c = snd (observe_all (map (msg_seqs \<circ> the \<circ> le_msg) msgs) c)"
proof (induction msgs arbitrary: c)
  case (Cons x xs)
  then obtain m where m: "le_msg x = Some m" by auto
  obtain a b where ab: "msg_seqs m = (a, b)" by (rule prod.exhaust)
  have "entry_follow x c = snd (observe a b c)" by (simp add: entry_follow_def m follow_def ab)
  then show ?case using Cons by (simp add: m ab split: prod.split)
qed simp

lemma observe_all_in_sequence:
  assumes "fst (observe_all (map msg_seqs (xs @ [m])) c) = []"
  shows "in_sequence m (snd (observe_all (map msg_seqs xs) c))"
  using assms
  by (cases "msg_seqs m") (auto simp: observe_all_append in_sequence_def split: prod.splits option.splits)

text \<open>
  What a session may have received: when it handled its message \<open>k\<close>, the gateway had accepted at most
  the frames sent by then, and the messages so far are the first ones it sent.
\<close>

definition from_gateway :: "(bytes list \<Rightarrow> server_message list \<Rightarrow> bool) \<Rightarrow> usize \<Rightarrow> lg_entry list \<Rightarrow> bool" where
  "from_gateway possible i msgs \<longleftrightarrow>
     (\<forall>k < length msgs. le_msg (msgs ! k) \<noteq> None \<and>
        (\<exists>n sent. n \<le> unat (le_sent (msgs ! k)) \<and> possible (map (frame_payload i) (seq_from 1 n)) sent \<and>
           prefix (map (the \<circ> le_msg) (take (Suc k) msgs)) sent))"

text \<open>Partials short enough to be verified, with a lateness that is a number.\<close>

definition checkable :: "lg_entry list \<Rightarrow> bool" where
  "checkable msgs \<longleftrightarrow>
     (\<forall>x \<in> set msgs. \<forall>p. le_msg x = Some (Partial p) \<longrightarrow>
        newest_frame_seq p - oldest_frame_seq p + 1 \<le> MAX_VERIFY_FRAMES \<and>
        is_finite (flush_lateness_ms p) \<and> f64_le f64_zero (flush_lateness_ms p))"

context stt_gateway
begin

lemma partial_valid:
  assumes r: "reachable w s" and acc: "accepted w s = map (frame_payload sid) (seq_from 1 n)"
    and p: "Partial p \<in> set (sent w s)" and short: "newest_frame_seq p - oldest_frame_seq p + 1 \<le> MAX_VERIFY_FRAMES"
    and late: "is_finite (flush_lateness_ms p)" "f64_le f64_zero (flush_lateness_ms p)"
    and passes: "0 < ex_cpu_passes (promised w)"
  shows "validate p = Ok ()" and "unat (newest_frame_seq p) \<le> n"
proof -
  define oldest where "oldest = oldest_frame_seq p"
  define newest where "newest = newest_frame_seq p"
  have h: "0 < unat oldest" "oldest \<le> newest" "unat newest \<le> n"
    and hp: "p = honest_partial (compute_stub (concat (frames_of (accepted w s) oldest newest)) (ex_cpu_passes (promised w)))
      oldest newest (promised w) (flush_lateness_ms p) (inflight_model_jobs p)"
    using honest [OF r p] by (simp_all add: honest_report_def oldest_def newest_def acc)
  have n: "n < 2 ^ 64" using counted [OF r] by (simp add: acc)
  have p': "p = honest_partial (compute_stub (concat_payload sid oldest newest) (ex_cpu_passes (promised w)))
      oldest newest (promised w) (flush_lateness_ms p) (inflight_model_jobs p)"
    using hp unfolding acc frames_of_session [OF h n] .
  have "oldest \<noteq> 0" using h(1) by auto
  from honest_partial_valid [OF this h(2) _ passes late] short show "validate p = Ok ()"
    by (subst p') (simp add: oldest_def newest_def)
  show "unat (newest_frame_seq p) \<le> n" using h(3) by (simp add: newest_def)
qed

lemma session_log_clean:
  assumes "from_gateway (\<lambda>acc xs. \<exists>s. reachable w s \<and> accepted w s = acc \<and> sent w s = xs) i msgs"
    and "checkable msgs" and "0 < ex_cpu_passes (promised w)"
  shows "log_clean (promised w) i msgs continuity_default"
  unfolding log_clean_nth
proof (intro allI impI)
  fix k assume k: "k < length msgs"
  define x where "x = msgs ! k"
  obtain m where m: "le_msg x = Some m" using assms(1) k by (auto simp: from_gateway_def x_def)
  obtain n s where n: "n \<le> unat (le_sent x)" and r: "reachable w s" and acc: "accepted w s = map (frame_payload i) (seq_from 1 n)"
    and pre: "prefix (map (the \<circ> le_msg) (take (Suc k) msgs)) (sent w s)"
    using assms(1) k unfolding from_gateway_def x_def by metis
  have tk: "take (Suc k) msgs = take k msgs @ [x]" using k by (simp add: take_Suc_conv_app_nth x_def)
  then have pre': "prefix (map (the \<circ> le_msg) (take k msgs) @ [m]) (sent w s)" using pre by (simp add: m)
  then have min: "m \<in> set (sent w s)" using set_mono_prefix by fastforce
  define A where "A = map (the \<circ> le_msg) (take k msgs) @ [m]"
  obtain rest where "sent w s = A @ rest" using pre' by (auto simp: prefix_def A_def)
  then have "fst (observe_all (map msg_seqs A) continuity_default) = []"
    using continuity_clean [OF r] by (auto simp: observe_all_append)
  from observe_all_in_sequence [OF this [unfolded A_def]]
  have "in_sequence m (snd (observe_all (map (msg_seqs \<circ> the \<circ> le_msg) (take k msgs)) continuity_default))"
    by (simp add: comp_assoc)
  moreover have "list_all (\<lambda>x. le_msg x \<noteq> None) (take k msgs)"
    using assms(1) k by (auto simp: from_gateway_def list_all_length)
  ultimately have seq: "in_sequence m (fold entry_follow (take k msgs) continuity_default)"
    by (simp add: follow_observe_all)
  show "entry_clean (promised w) i (msgs ! k) (fold entry_follow (take k msgs) continuity_default)"
  proof (cases m)
    case (Partial p)
    have c: "newest_frame_seq p - oldest_frame_seq p + 1 \<le> MAX_VERIFY_FRAMES" "is_finite (flush_lateness_ms p)"
      "f64_le f64_zero (flush_lateness_ms p)"
      using assms(2) k m Partial unfolding checkable_def x_def by (metis nth_mem)+
    note v = partial_valid [OF r acc min [unfolded Partial] c assms(3)]
    have "verify_partial i p (promised w) = []" by (rule partial_clean [OF r acc min [unfolded Partial] c(1)])
    then show ?thesis
      using v n seq by (simp add: x_def [symmetric] m Partial word_le_nat_alt)
  next
    case (Error e)
    then show ?thesis using seq by (simp add: x_def [symmetric] m)
  qed
qed

end

subsection \<open>Both gateways\<close>

text \<open>The state of a run whose sessions all received what a correct gateway sent them.\<close>

definition served :: "(usize \<Rightarrow> bytes list \<Rightarrow> server_message list \<Rightarrow> bool) \<Rightarrow> lg_config \<Rightarrow> lg_run \<Rightarrow> bool" where
  "served possible cf r \<longleftrightarrow>
     (\<forall>(s, msgs) \<in> set (lr_sessions r). from_gateway (possible (ls_id s)) (ls_id s) msgs \<and> checkable msgs \<and> tail_clean cf s)"

lemma served_no_errors:
  assumes "(run_step cf)\<^sup>*\<^sup>* (run_init ex v n) r" and "served possible cf r"
    and "\<And>i msgs. from_gateway (possible i) i msgs \<Longrightarrow> checkable msgs \<Longrightarrow> log_clean ex i msgs continuity_default"
  shows "co_errors (sh_correctness (lr_shared r)) = 0"
proof -
  have inv: "run_inv cf ex r" by (rule run_reachable_inv [OF assms(1)])
  have "session_clean cf ex x" if "x \<in> set (lr_sessions r)" for x
    using assms(2,3) that by (cases x) (auto simp: served_def)
  then have "shared_clean (lr_shared r)" using inv by (auto simp: run_inv_def list_all_iff)
  then show ?thesis using inv by (simp add: run_inv_def errors_counted_def shared_clean_def)
qed



subsection \<open>Two concrete runs\<close>

lemma as_ms_f64_zero: "as_ms_f64 0 = f64_zero"
proof -
  have z: "f64_of_int 0 = f64_zero" by (simp add: f64_of_int_def round_ratio_def)
  obtain m e where nine: "f64_of_int 1000000000 = Finite m e" "m \<noteq> 0"
  proof (cases "f64_of_int 1000000000")
    case (Finite m e)
    then have "f64_val (Finite m e) = 1000000000" using f64_of_int_exact(1) [of 1000000000] by simp
    then show ?thesis using that Finite by force
  qed (use f64_of_int_exact(2) [of 1000000000] in auto)
  obtain m' e' where three: "f64_of_int 1000 = Finite m' e'"
    using f64_of_int_exact(2) [of 1000] by (cases "f64_of_int 1000") auto
  show ?thesis
    by (simp add: as_ms_f64_def as_secs_f64_def z nine(1)) (simp add: f64_zero_def three nine(2) fin_num_def round_ratio_def)
qed

lemma run_one_message:
  "\<exists>r s b. (run_step (one_message (Partial p)))\<^sup>*\<^sup>* (run_init ex v 1) r \<and> ls_id s = 0 \<and> ls_phase s = Ls_streaming \<and>
     lr_sessions r = [(s, [\<lparr>le_measured = True, le_sent = 1, le_verified = b, le_msg = Some (Partial p)\<rparr>])]"
  using run_one_reply [of "Partial p" ex v] by (metis lg_run.select_convs(2))

lemma served_one:
  assumes "lr_sessions r = [(s, [\<lparr>le_measured = True, le_sent = 1, le_verified = b, le_msg = Some (Partial p)\<rparr>])]"
    and "ls_id s = 0" and "ls_phase s = Ls_streaming" and "possible 0 [frame_payload 0 1] [Partial p]"
    and "newest_frame_seq p = oldest_frame_seq p" and "flush_lateness_ms p = as_ms_f64 0"
  shows "served possible cf r"
proof -
  have "[frame_payload 0 1] = map (frame_payload 0) (seq_from 1 1)" by (simp add: seq_from_def)
  then have "from_gateway (possible 0) 0 [\<lparr>le_measured = True, le_sent = 1, le_verified = b, le_msg = Some (Partial p)\<rparr>]"
    using assms(4) by (auto simp: from_gateway_def intro!: exI [of _ 1] exI [of _ "[Partial p]"])
  moreover have "checkable [\<lparr>le_measured = True, le_sent = 1, le_verified = b, le_msg = Some (Partial p)\<rparr>]"
    using assms(5,6) by (simp add: checkable_def as_ms_f64_zero MAX_VERIFY_FRAMES_def f64_zero_def word_le_nat_alt)
  ultimately show ?thesis using assms(1-3) by (simp add: served_def)
qed



end
