(* ===== verification/Golden.thy ===== *)
theory Golden
  imports Payload Rust_F64
begin

text \<open>
  The golden constant of the wire protocol, \<open>GOLDEN_ONE_FRAME\<close> in \<open>loadgen/rust/src/protocol.rs\<close>, and
  the proof that it is what the stub computes for the first frame of session zero with four passes. The
  generator and the stub are evaluated by rewriting, on the 320 samples of the frame.
\<close>

record golden_stub =
  gs_frames :: u64
  gs_samples :: u64
  gs_checksum :: u32
  gs_zero_crossings :: u64
  gs_rms :: f64
  gs_transcript :: string
  gs_audio_bytes :: u64

definition GOLDEN_ONE_FRAME :: golden_stub where
  "GOLDEN_ONE_FRAME =
     \<lparr>gs_frames = 1, gs_samples = 1280, gs_checksum = 763539697, gs_zero_crossings = 7,
      gs_rms = decimal_f64 False 8323765219801373 (- 12), gs_transcript = ''quick'', gs_audio_bytes = of_nat FRAME_BYTES\<rparr>"

subsection \<open>A frame as its samples\<close>

fun pcm_values :: "nat \<Rightarrow> u64 \<Rightarrow> int \<Rightarrow> int list" where
  "pcm_values 0 state c = []"
| "pcm_values (Suc n) state c =
     (let state' = state + SPLITMIX_GAMMA; z = mix64 state';
          c1 = next_carrier c; c2 = next_carrier c1; c3 = next_carrier c2
      in lane_value z 0 c # lane_value z 1 c1 # lane_value z 2 c2 # lane_value z 3 c3 #
         pcm_values n state' (next_carrier c3))"

definition pcm_bytes :: "int list \<Rightarrow> bytes" where
  "pcm_bytes vs = concat (map (\<lambda>v. to_le_bytes (word_of_int v)) vs)"

lemma pcm_bytes_simps [simp]:
  "pcm_bytes [] = []" "pcm_bytes (v # vs) = to_le_bytes (word_of_int v) @ pcm_bytes vs"
  by (simp_all add: pcm_bytes_def)

lemma frame_chunk_values:
  "frame_chunk (out, state, c) =
     (let state' = state + SPLITMIX_GAMMA; z = mix64 state';
          c1 = next_carrier c; c2 = next_carrier c1; c3 = next_carrier c2
      in (out @ pcm_bytes [lane_value z 0 c, lane_value z 1 c1, lane_value z 2 c2, lane_value z 3 c3],
          state', next_carrier c3))"
proof -
  have "[0..<4] = [0, 1, 2, 3 :: nat]" by (simp add: upt_rec)
  then show ?thesis by (simp add: frame_chunk_def frame_lane_def Let_def)
qed

lemma frame_chunk_pow_values:
  "fst ((frame_chunk ^^ n) (out, state, c)) = out @ pcm_bytes (pcm_values n state c)"
proof (induction n arbitrary: out state c)
  case (Suc n)
  show ?case
    by (simp add: funpow_Suc_right frame_chunk_values Suc.IH Let_def del: funpow.simps)
qed simp

lemma frame_payload_values:
  "frame_payload i q = pcm_bytes (pcm_values 80 (frame_seed i q) (uint (frame_seed i q) mod SAW_PERIOD))"
  by (simp add: frame_payload_def Let_def frame_chunk_pow_values FRAME_BYTES_def)

text \<open>One step of the stub on a sample instead of its two bytes.\<close>

definition sample_step :: "u32 \<Rightarrow> 16 word \<Rightarrow> stub_state \<Rightarrow> stub_state" where
  "sample_step pass_index w s =
     \<lparr>lv_checksum = (lv_checksum s XOR adjusted_sample pass_index w) * FNV_PRIME,
      lv_zero_crossings =
        (if 0 < lv_sample_count s \<and> ((sint w < 0) \<noteq> (sint (lv_previous s) < 0)) then lv_zero_crossings s + 1
         else lv_zero_crossings s),
      lv_sum_squares = lv_sum_squares s + sint w * sint w, lv_sample_count = lv_sample_count s + 1, lv_previous = w\<rparr>"

lemma stub_step_sample: "stub_step p c s = sample_step p (i16_from_le_bytes c) s"
  by (auto simp: stub_step_def sample_step_def Let_def not_less)

lemma chunks_pcm_bytes: "map i16_from_le_bytes (chunks_exact2 (pcm_bytes vs)) = map word_of_int vs"
  by (induction vs) (simp_all add: to_le_bytes_def i16_to_le_bytes)

lemma stub_pass_values: "stub_pass (pcm_bytes vs) p s = fold (\<lambda>v. sample_step p (word_of_int v)) vs s"
proof -
  have "stub_step p = (\<lambda>c. sample_step p (i16_from_le_bytes c))" by (simp add: fun_eq_iff stub_step_sample)
  then have "stub_pass (pcm_bytes vs) p s = fold (sample_step p) (map i16_from_le_bytes (chunks_exact2 (pcm_bytes vs))) s"
    by (simp add: stub_pass_def fold_map o_def)
  then show ?thesis by (simp add: chunks_pcm_bytes fold_map o_def)
qed

subsection \<open>The first frame of session zero\<close>

definition golden_values :: "int list" where
  "golden_values =
     [8903, 9000, 8615, 9079, 8672, 8860, 8863, 8993, 8836, 8929, 9154, 8771, 9037, 8953, 8830, 8852, 8992,
      9271, 9136, 9298, 8975, 9221, 9235, 9056, 9445, 8984, 9011, 9165, 9375, 9168, 9318, 9470, 9522, 9284,
      9124, 9282, 9469, 9355, 9262, 9669, 9347, 9631, 9465, 9739, 9418, 9382, 9362, 9486, 9843, 9813, 9777,
      9458, 9712, 9914, 9542, 9895, 9576, 9596, 9693, 9959, 9775, 9757, 10012, 10063, 9644, 10070, 10164,
      9967, 10161, 10013, 10013, 9815, - 10023, - 10182, - 10068, - 10023, - 10099, - 9666, - 10072, - 9678, -
      9977, - 9940, - 9788, - 10002, - 9884, - 9982, - 9840, - 9531, - 9756, - 9674, - 9578, - 9642, - 9490, -
      9760, - 9843, - 9558, - 9671, - 9535, - 9678, - 9572, - 9265, - 9280, - 9699, - 9346, - 9614, - 9192, -
      9585, - 9363, - 9216, - 9445, - 9272, - 9448, - 9110, - 9390, - 9509, - 9355, - 9429, - 8983, - 8979, -
      8988, - 9423, - 8981, - 9360, - 9281, - 8968, - 8837, - 9045, - 9067, - 9116, - 8867, - 8765, - 9088, -
      8883, - 9146, - 8699, - 8979, - 8770, - 8851, - 9048, - 8624, - 8665, - 8890, - 8760, - 8625, - 8840, -
      8515, - 8602, - 8519, - 8452, - 8797, - 8569, - 8421, - 8727, - 8626, - 8612, - 8771, - 8622, - 8667, -
      8502, - 8758, - 8363, - 8538, - 8495, - 8212, - 8628, - 8488, - 8301, - 8567, - 8561, - 8097, - 8485, -
      8144, - 8133, - 8132, - 8341, - 8032, - 8274, - 8033, - 8310, - 7937, - 8268, - 8349, - 8103, - 8024, -
      8044, - 8251, - 7861, - 7850, - 8052, - 8072, - 7846, - 7860, - 8180, - 7768, - 7669, - 8002, - 7840, -
      7802, - 7953, - 7939, - 7896, - 7669, - 7779, - 7596, - 7492, - 7900, - 7704, - 7781, - 7647, - 7540, -
      7532, - 7810, - 7658, - 7426, - 7515, - 7505, - 7516, - 7539, - 7578, - 7673, - 7524, - 7605, - 7238, -
      7632, - 7516, - 7305, - 7305, - 7304, - 7579, - 7569, - 7181, - 7358, - 7188, - 7463, - 6994, - 7450, -
      6959, - 7184, - 7108, - 7211, - 7358, - 7212, - 7096, - 7115, - 7201, - 6910, - 7254, - 6928, - 7105, -
      7047, - 6936, - 6942, - 6761, - 6810, - 6980, - 6645, - 6978, - 7038, - 6697, - 6598, - 6797, - 6617, -
      6955, - 6798, - 6569, - 6638, - 6434, - 6653, - 6614, - 6744, - 6649, - 6704, - 6842, - 6572, - 6528, -
      6383, - 6589, - 6574, - 6741, - 6266, - 6438, - 6488, - 6336, - 6558, - 6235, - 6169, - 6264, - 6294, -
      6494, - 6337, - 6062, - 6300, - 6275, - 6250, - 6296, - 6161, - 6264, - 6195, - 6267, - 6374, - 6134, -
      6166, - 5865, - 6115, - 6059, - 6073, - 5831, - 6082, - 5991, - 5877, - 5873, - 6093, - 6007, - 5869, -
      5957, - 5707, - 6092, - 5608, - 5615, - 5981]"

lemma golden_seed: "frame_seed 0 1 = 6238072747940578789"
  by code_simp

lemma golden_payload: "frame_payload 0 1 = pcm_bytes golden_values"
proof -
  have "uint (6238072747940578789 :: u64) mod SAW_PERIOD = 18789" by code_simp
  moreover have "pcm_values 80 6238072747940578789 18789 = golden_values" by code_simp
  ultimately show ?thesis by (simp add: frame_payload_values golden_seed)
qed

lemma golden_pass_0:
  "fold (\<lambda>v. sample_step 0 (word_of_int v)) golden_values stub_init =
     \<lparr>lv_checksum = 909356214, lv_zero_crossings = 1, lv_sum_squares = 22171221579, lv_sample_count = 320, lv_previous = 59555\<rparr>"
  by code_simp

lemma golden_pass_1:
  "fold (\<lambda>v. sample_step 1 (word_of_int v)) golden_values 
       \<lparr>lv_checksum = 909356214, lv_zero_crossings = 1, lv_sum_squares = 22171221579, lv_sample_count = 320, lv_previous = 59555\<rparr> =
     \<lparr>lv_checksum = 3445944703, lv_zero_crossings = 3, lv_sum_squares = 44342443158, lv_sample_count = 640, lv_previous = 59555\<rparr>"
  by code_simp

lemma golden_pass_2:
  "fold (\<lambda>v. sample_step 2 (word_of_int v)) golden_values 
       \<lparr>lv_checksum = 3445944703, lv_zero_crossings = 3, lv_sum_squares = 44342443158, lv_sample_count = 640, lv_previous = 59555\<rparr> =
     \<lparr>lv_checksum = 189440480, lv_zero_crossings = 5, lv_sum_squares = 66513664737, lv_sample_count = 960, lv_previous = 59555\<rparr>"
  by code_simp

lemma golden_pass_3:
  "fold (\<lambda>v. sample_step 3 (word_of_int v)) golden_values 
       \<lparr>lv_checksum = 189440480, lv_zero_crossings = 5, lv_sum_squares = 66513664737, lv_sample_count = 960, lv_previous = 59555\<rparr> =
     \<lparr>lv_checksum = 763539697, lv_zero_crossings = 7, lv_sum_squares = 88684886316, lv_sample_count = 1280, lv_previous = 59555\<rparr>"
  by code_simp

subsection \<open>Rounding\<close>

lemma golden_sum: "f64_of_int 88684886316 = Finite 5812052709605376 (- 16)"
proof -
  have "round_ratio 88684886316 1 = Finite (int 5812052709605376) (- 16)"
  proof (rule round_ratio_eval)
    show "bits (nat 88684886316) = 37" by (simp add: bits.simps)
    show "bits 1 = 1" by (simp add: bits_one)
  qed (simp_all add: scale_num_def scale_den_def rne_def Let_def)
  then show ?thesis by (simp add: f64_of_int_def)
qed

lemma golden_count: "f64_of_int 1280 = Finite 5629499534213120 (- 42)"
proof -
  have "round_ratio 1280 1 = Finite (int 5629499534213120) (- 42)"
  proof (rule round_ratio_eval)
    show "bits (nat 1280) = 11" by (simp add: bits.simps)
    show "bits 1 = 1" by (simp add: bits_one)
  qed (simp_all add: scale_num_def scale_den_def rne_def Let_def)
  then show ?thesis by (simp add: f64_of_int_def)
qed

lemma golden_mean: "f64_div (Finite 5812052709605376 (- 16)) (Finite 5629499534213120 (- 42)) = Finite 4649642167684301 (- 26)"
proof -
  have "round_ratio (5812052709605376 * 2 ^ 42) (2 ^ 16 * 5629499534213120) = Finite (int 4649642167684301) (- 26)"
  proof (rule round_ratio_eval)
    show "bits (nat (5812052709605376 * 2 ^ 42)) = 95" by (simp add: bits.simps)
    show "bits (2 ^ 16 * 5629499534213120) = 69" by (simp add: bits.simps)
  qed (simp_all add: scale_num_def scale_den_def rne_def Let_def)
  then show ?thesis by (simp add: fin_num_def fin_den_def)
qed

lemma golden_rms: "decimal_f64 False 8323765219801373 (- 12) = Finite 4576038323024531 (- 39)"
proof -
  have "round_ratio 8323765219801373 (10 ^ 12) = Finite (int 4576038323024531) (- 39)"
  proof (rule round_ratio_eval)
    show "bits (nat 8323765219801373) = 53" by (simp add: bits.simps)
    show "bits (10 ^ 12) = 40" by (simp add: bits.simps)
  qed (simp_all add: scale_num_def scale_den_def rne_def Let_def)
  then show ?thesis by (simp add: decimal_f64_def)
qed

lemma isqrt_unique: "r * r \<le> n \<Longrightarrow> n < (r + 1) * (r + 1) \<Longrightarrow> isqrt n = r"
proof -
  assume r: "r * r \<le> n" "n < (r + 1) * (r + 1)"
  have "isqrt n * isqrt n < (r + 1) * (r + 1)" "r * r < (isqrt n + 1) * (isqrt n + 1)"
    using r isqrt_spec [of n] by linarith+
  then have "isqrt n < r + 1" "r < isqrt n + 1" by (metis mult_le_mono not_le)+
  then show ?thesis by simp
qed

lemma golden_root: "f64_sqrt (Finite 4649642167684301 (- 26)) = Finite 4576038323024531 (- 39)"
proof -
  have "isqrt (4649642167684301 * 4 ^ 54) = 1228370933914565317494913" by (rule isqrt_unique) simp_all
  then have "f64_sqrt (Finite 4649642167684301 (- 26)) = round_ratio 2456741867829130634989827 (2 ^ 68)"
    by (simp add: Let_def fin_num_def fin_den_def)
  also have "\<dots> = Finite (int 4576038323024531) (- 39)"
  proof (rule round_ratio_eval)
    show "bits (nat 2456741867829130634989827) = 82" by (simp add: bits.simps)
    show "bits (2 ^ 68) = 69" by (simp add: bits.simps)
  qed (simp_all add: scale_num_def scale_den_def rne_def Let_def)
  finally show ?thesis by simp
qed

text \<open>
  The golden constant is right: for the first frame of session zero, generated by \<open>frame_payload\<close>, the
  stub with four passes computes every value of \<open>GOLDEN_ONE_FRAME\<close>, the root mean square to the last bit.
\<close>

lemma golden_one_frame:
  "compute_stub (frame_payload 0 1) 4 =
     \<lparr>st_rms = gs_rms GOLDEN_ONE_FRAME, st_zero_crossings = gs_zero_crossings GOLDEN_ONE_FRAME,
      st_checksum = gs_checksum GOLDEN_ONE_FRAME, st_samples = gs_samples GOLDEN_ONE_FRAME,
      st_transcript = gs_transcript GOLDEN_ONE_FRAME, st_audio_bytes = gs_audio_bytes GOLDEN_ONE_FRAME\<rparr>"
proof -
  have u: "[0..<4] = [0, 1, 2, 3 :: nat]" by (simp add: upt_rec)
  have unat4: "unat (4 :: u32) = 4" by simp
  have loop: "stub_loop (frame_payload 0 1) 4 = \<lparr>lv_checksum = 763539697, lv_zero_crossings = 7, lv_sum_squares = 88684886316, lv_sample_count = 1280, lv_previous = 59555\<rparr>"
    by (simp only: stub_loop_def unat4 u fold.simps o_apply id_apply semiring_1_class.of_nat_0 of_nat_1 of_nat_numeral
        golden_payload stub_pass_values golden_pass_0 golden_pass_1 golden_pass_2 golden_pass_3)
  have rms: "stub_rms (stub_loop (frame_payload 0 1) 4) = gs_rms GOLDEN_ONE_FRAME"
    by (simp add: loop stub_rms_def golden_sum golden_count golden_mean golden_root golden_rms GOLDEN_ONE_FRAME_def
        del: f64_div.simps f64_sqrt.simps)
  have "pool_word 763539697 = ''quick''" by (simp add: pool_word_def TRANSCRIPT_POOL_def)
  moreover have "length (frame_payload 0 1) = FRAME_BYTES" by simp
  ultimately show ?thesis
    by (simp only: compute_stub_def Let_def rms) (simp add: loop GOLDEN_ONE_FRAME_def)
qed

end
