(* ===== verification/Conformance.thy ===== *)
theory Conformance
  imports Golden Loadgen_Session
begin

text \<open>
  The black-box conformance suite, \<open>loadgen/rust/src/bin/stt-conformance.rs\<close>: the cases that every gateway
  must pass before it is measured. A case is a function of what its socket does: how connecting and every
  send end, and the events its reads see, a message, an error, the end of the stream, or the deadline of the
  read. A value \<open>None\<close> says that the case is still waiting for an event. Errors carry their chain of
  contexts, outermost first.
\<close>

subsection \<open>Sockets and errors\<close>

datatype cl_message = Cl_text string | Cl_binary bytes | Cl_close "u16 option" | Cl_other

datatype cl_read = Cl_ok cl_message | Cl_err ws_error | Cl_end

datatype cl_event = Ev_read cl_read | Ev_deadline

text \<open>
  What the suite uses of other code: JSON decoding of messages and of the keys of an object, the encoded
  start message, how details, frames, messages, errors, durations, numbers, strings and key sets are printed,
  and the error of the n-th send, if it fails.
\<close>

record cl_env =
  ce_from_str :: "string \<Rightarrow> (server_message, string) result"
  ce_keys :: "string \<Rightarrow> (string list option, string) result"
  ce_start :: string
  ce_detail :: "mismatch_detail \<Rightarrow> string"
  ce_frame :: "u16 option \<Rightarrow> string"
  ce_message :: "cl_message \<Rightarrow> string"
  ce_error :: "ws_error \<Rightarrow> string"
  ce_duration :: "duration \<Rightarrow> string"
  ce_f64 :: "f64 \<Rightarrow> string"
  ce_debug :: "string \<Rightarrow> string"
  ce_key_set :: "string set \<Rightarrow> string"
  ce_send :: "nat \<Rightarrow> string option"

record cl_socket =
  so_sent :: "cl_message list"
  so_events :: "cl_event list"

type_synonym 'a outcome_of = "('a, string list) result"

type_synonym 'a sock = "cl_socket \<Rightarrow> ('a outcome_of \<times> cl_socket) option"

definition context_of :: "string \<Rightarrow> 'a outcome_of \<Rightarrow> 'a outcome_of" where
  "context_of c r = (case r of Err e \<Rightarrow> Err (c # e) | Ok a \<Rightarrow> Ok a)"

definition ensure :: "bool \<Rightarrow> string \<Rightarrow> unit outcome_of" where
  "ensure b e = (if b then Ok () else Err [e])"

definition pure_sock :: "'a outcome_of \<Rightarrow> 'a sock" where
  "pure_sock r s = Some (r, s)"

definition and_then :: "'a sock \<Rightarrow> ('a \<Rightarrow> 'b sock) \<Rightarrow> 'b sock" where
  "and_then m f s =
     (case m s of
        None \<Rightarrow> None
      | Some (Err e, s') \<Rightarrow> Some (Err e, s')
      | Some (Ok a, s') \<Rightarrow> f a s')"

definition sock_context :: "string \<Rightarrow> 'a sock \<Rightarrow> 'a sock" where
  "sock_context c m s = map_option (\<lambda>(r, s'). (context_of c r, s')) (m s)"

definition on_events :: "(cl_event list \<Rightarrow> ('a outcome_of \<times> cl_event list) option) \<Rightarrow> 'a sock" where
  "on_events f s = map_option (\<lambda>(r, es). (r, s\<lparr>so_events := es\<rparr>)) (f (so_events s))"

lemma and_then_Ok [simp]: "and_then m f s = Some (Ok b, s'') \<longleftrightarrow> (\<exists>a s'. m s = Some (Ok a, s') \<and> f a s' = Some (Ok b, s''))"
  by (auto simp: and_then_def split: option.splits sum.splits)

lemma pure_sock_Some [simp]: "pure_sock r s = Some (r', s') \<longleftrightarrow> r = r' \<and> s = s'"
  by (auto simp: pure_sock_def)

lemma context_of_Ok [simp]: "context_of c r = Ok a \<longleftrightarrow> r = Ok a"
  by (simp add: context_of_def split: sum.split)

lemma sock_context_Ok [simp]: "sock_context c m s = Some (Ok a, s') \<longleftrightarrow> m s = Some (Ok a, s')"
  by (auto simp: sock_context_def)

lemma ensure_Ok [simp]: "ensure b e = Ok u \<longleftrightarrow> b"
  by (simp add: ensure_def)

subsection \<open>Connecting and sending\<close>

record service_target =
  tg_name :: string
  tg_url :: string

definition parse_service :: "string \<Rightarrow> (service_target, string) result" where
  "parse_service raw =
     (case split_once ''='' raw of
        None \<Rightarrow> Err ''expected --service name=ws://host:port/ws/stt''
      | Some (name, url) \<Rightarrow>
          if name = [] \<or> url = [] then Err ''service name and url must be non-empty''
          else Ok \<lparr>tg_name = name, tg_url = url\<rparr>)"

definition cl_connect :: "service_target \<Rightarrow> timed_outcome \<Rightarrow> unit sock" where
  "cl_connect target out = pure_sock
     (case out of
        Call_ok \<Rightarrow> Ok ()
      | Call_err e \<Rightarrow> Err [''connect '' @ tg_url target, e]
      | Call_elapsed \<Rightarrow> Err [''connect '' @ tg_url target @ '' timed out'', ''deadline has elapsed''])"

definition cl_send :: "cl_env \<Rightarrow> string \<Rightarrow> cl_message \<Rightarrow> unit sock" where
  "cl_send env ctx m s =
     Some (case ce_send env (length (so_sent s)) of None \<Rightarrow> Ok () | Some e \<Rightarrow> Err [ctx, e], s\<lparr>so_sent := so_sent s @ [m]\<rparr>)"

text \<open>\<open>let _ = socket.send(\<dots>)\<close>\<close>

definition cl_send_ignore :: "cl_message \<Rightarrow> unit sock" where
  "cl_send_ignore m s = Some (Ok (), s\<lparr>so_sent := so_sent s @ [m]\<rparr>)"

definition send_start :: "cl_env \<Rightarrow> unit sock" where
  "send_start env = cl_send env ''send start'' (Cl_text (ce_start env))"

fun send_all :: "cl_env \<Rightarrow> string \<Rightarrow> cl_message list \<Rightarrow> unit sock" where
  "send_all env ctx [] = pure_sock (Ok ())"
| "send_all env ctx (m # ms) = and_then (cl_send env ctx m) (\<lambda>_. send_all env ctx ms)"

text \<open>\<open>wait_until_ready\<close>: every attempt to connect, and the instant it ended.\<close>

definition READY_TIMEOUT :: duration where
  "READY_TIMEOUT = from_secs 30"

fun ready_loop :: "service_target \<Rightarrow> instant \<Rightarrow> (timed_outcome \<times> instant) list \<Rightarrow> unit outcome_of option" where
  "ready_loop target deadline [] = None"
| "ready_loop target deadline ((out, now) # attempts) =
     (case out of
        Call_ok \<Rightarrow> Some (Ok ())
      | Call_err e \<Rightarrow>
          if deadline \<le> now then Some (Err [''connect '' @ tg_url target, e]) else ready_loop target deadline attempts
      | Call_elapsed \<Rightarrow>
          if deadline \<le> now then Some (Err [''connect '' @ tg_url target @ '' timed out''])
          else ready_loop target deadline attempts)"

definition wait_until_ready :: "service_target \<Rightarrow> instant \<Rightarrow> (timed_outcome \<times> instant) list \<Rightarrow> unit outcome_of option" where
  "wait_until_ready target started = ready_loop target (started + READY_TIMEOUT)"

subsection \<open>Checking partials\<close>

record partial_checker =
  pc_session_id :: usize
  pc_expected :: expected_config
  pc_continuity :: continuity

definition checker_new :: "usize \<Rightarrow> expected_config \<Rightarrow> partial_checker" where
  "checker_new session_id expected =
     \<lparr>pc_session_id = session_id, pc_expected = expected, pc_continuity = continuity_default\<rparr>"

definition mismatch_display :: "cl_env \<Rightarrow> mismatch \<Rightarrow> string" where
  "mismatch_display env m = as_str (mm_kind m) @ '': '' @ ce_detail env (mm_detail m)"

fun join :: "string \<Rightarrow> string list \<Rightarrow> string" where
  "join sep [] = []"
| "join sep [x] = x"
| "join sep (x # y # xs) = x @ sep @ join sep (y # xs)"

definition checker_check :: "cl_env \<Rightarrow> partial_message \<Rightarrow> u64 \<Rightarrow> partial_checker \<Rightarrow> unit outcome_of \<times> partial_checker" where
  "checker_check env p frames_sent ck =
     (let range = ''session '' @ dec (unat (pc_session_id ck)) @ '' partial '' @ dec (unat (oldest_frame_seq p)) @ ''..='' @
            dec (unat (newest_frame_seq p))
      in case observe (oldest_frame_seq p) (newest_frame_seq p) (pc_continuity ck) of (gap, c) \<Rightarrow>
        (case validate p of
           Err e \<Rightarrow> Err [range, e]
         | Ok _ \<Rightarrow>
             (case gap of
                Some m \<Rightarrow> Err [range @ '': '' @ mismatch_display env m]
              | None \<Rightarrow>
                  if \<not> newest_frame_seq p \<le> frames_sent
                  then Err [range @ '': covers frames not yet sent (sent '' @ dec (unat frames_sent) @ '')'']
                  else let mismatches = verify_partial (pc_session_id ck) p (pc_expected ck)
                       in if mismatches \<noteq> []
                          then Err [range @ '': '' @ join ''; '' (map (mismatch_display env) mismatches)]
                          else Ok ()),
         ck\<lparr>pc_continuity := c\<rparr>))"

definition covered :: "partial_checker \<Rightarrow> u64" where
  "covered ck = last_newest (pc_continuity ck)"

subsection \<open>Reading\<close>

definition expect_partial :: "cl_env \<Rightarrow> string \<Rightarrow> partial_message outcome_of" where
  "expect_partial env t =
     (case ce_from_str env t of
        Err e \<Rightarrow> Err [''decode server message'', e]
      | Ok (Partial p) \<Rightarrow> Ok p
      | Ok (Error e) \<Rightarrow>
          Err [''unexpected error frame: stage='' @ em_stage e @ '' kind='' @ em_kind e @ '' message='' @ em_message e])"

fun read_partial :: "cl_env \<Rightarrow> cl_event list \<Rightarrow> ((string \<times> partial_message) outcome_of \<times> cl_event list) option" where
  "read_partial env [] = None"
| "read_partial env (Ev_deadline # es) = Some (Err [''timed out waiting for partial''], es)"
| "read_partial env (Ev_read r # es) =
     (case r of
        Cl_ok (Cl_text t) \<Rightarrow> Some (map_sum id (Pair t) (expect_partial env t), es)
      | Cl_ok (Cl_close f) \<Rightarrow> Some (Err [''server closed before partial: '' @ ce_frame env f], es)
      | Cl_ok _ \<Rightarrow> read_partial env es
      | Cl_err e \<Rightarrow> Some (Err [''read partial'', ce_error env e], es)
      | Cl_end \<Rightarrow> Some (Err [''socket closed before partial''], es))"

fun expect_close_code :: "cl_env \<Rightarrow> u16 \<Rightarrow> cl_event list \<Rightarrow> (unit outcome_of \<times> cl_event list) option" where
  "expect_close_code env expected [] = None"
| "expect_close_code env expected (Ev_deadline # es) =
     Some (Err [''timed out waiting for close code '' @ dec (unat expected)], es)"
| "expect_close_code env expected (Ev_read r # es) = Some
     (case r of
        Cl_ok (Cl_close (Some actual)) \<Rightarrow>
          ensure (actual = expected)
            (''close code mismatch: got '' @ dec (unat actual) @ '', expected '' @ dec (unat expected))
      | Cl_ok (Cl_close None) \<Rightarrow> Err [''server close frame omitted code, expected '' @ dec (unat expected)]
      | Cl_ok m \<Rightarrow> Err [''expected close frame, got '' @ ce_message env m]
      | Cl_err e \<Rightarrow> Err [''read close frame'', ce_error env e]
      | Cl_end \<Rightarrow> Err [''socket closed without close frame''], es)"

lemma read_partial_shrinks: "read_partial env es = Some (r, es') \<Longrightarrow> length es' < length es"
  by (induction env es rule: read_partial.induct)
    (auto split: cl_read.splits cl_message.splits intro: less_SucI)

subsection \<open>Golden frames\<close>

text \<open>The keys of the message, as a set.\<close>

definition assert_schema_fields :: "cl_env \<Rightarrow> string \<Rightarrow> unit outcome_of" where
  "assert_schema_fields env raw =
     (case ce_keys env raw of
        Err e \<Rightarrow> Err [''parse partial as Value'', e]
      | Ok None \<Rightarrow> Err [''partial did not serialize as an object'']
      | Ok (Some keys) \<Rightarrow>
          ensure (set keys = set [''type'', ''oldest_frame_seq'', ''newest_frame_seq'', ''frames'', ''rms'', ''zero_crossings'',
              ''checksum'', ''samples'', ''transcript'', ''audio_bytes'', ''cpu_passes'', ''model_delay_ms'',
              ''flush_lateness_ms'', ''inflight_model_jobs''])
            (''partial field set mismatch: '' @ ce_key_set env (set keys)))"

text \<open>A sequence of checks; the first that fails is the error.\<close>

fun first_error :: "unit outcome_of list \<Rightarrow> unit outcome_of" where
  "first_error [] = Ok ()"
| "first_error (r # rs) = (case r of Err e \<Rightarrow> Err e | Ok _ \<Rightarrow> first_error rs)"

lemma first_error_Ok [simp]: "first_error rs = Ok u \<longleftrightarrow> list_all (\<lambda>r. r = Ok ()) rs"
  by (induction rs) (auto split: sum.split)

declare first_error.simps [simp del]

definition golden_checks :: "cl_env \<Rightarrow> expected_config \<Rightarrow> string \<Rightarrow> partial_message \<Rightarrow> unit outcome_of" where
  "golden_checks env expected raw p = first_error
     [map_sum (\<lambda>e. [e]) id (validate p),
      assert_schema_fields env raw,
      ensure (oldest_frame_seq p = 1) ''oldest_frame_seq mismatch'',
      ensure (newest_frame_seq p = 1) ''newest_frame_seq mismatch'',
      ensure (frames p = gs_frames GOLDEN_ONE_FRAME) ''frames mismatch'',
      ensure (samples p = gs_samples GOLDEN_ONE_FRAME) ''sample count mismatch'',
      ensure (checksum p = gs_checksum GOLDEN_ONE_FRAME)
        (''checksum mismatch: got '' @ dec (unat (checksum p)) @ '', expected '' @ dec (unat (gs_checksum GOLDEN_ONE_FRAME))),
      ensure (zero_crossings p = gs_zero_crossings GOLDEN_ONE_FRAME) ''zero crossings mismatch'',
      ensure (rms_matches (rms p) (gs_rms GOLDEN_ONE_FRAME))
        (''rms mismatch: got '' @ ce_f64 env (rms p) @ '', expected '' @ ce_f64 env (gs_rms GOLDEN_ONE_FRAME)),
      ensure (transcript p = gs_transcript GOLDEN_ONE_FRAME)
        (''transcript mismatch: got '' @ ce_debug env (transcript p) @ '', expected '' @ ce_debug env (gs_transcript GOLDEN_ONE_FRAME)),
      ensure (audio_bytes p = gs_audio_bytes GOLDEN_ONE_FRAME)
        (''audio_bytes mismatch: got '' @ dec (unat (audio_bytes p)) @ '', expected '' @ dec (unat (gs_audio_bytes GOLDEN_ONE_FRAME))),
      fst (checker_check env p 1 (checker_new 0 expected))]"

definition partial_schema_and_golden :: "cl_env \<Rightarrow> service_target \<Rightarrow> expected_config \<Rightarrow> timed_outcome \<Rightarrow> unit sock" where
  "partial_schema_and_golden env target expected out =
     and_then (cl_connect target out) (\<lambda>_.
     and_then (send_start env) (\<lambda>_.
     and_then (cl_send env ''send golden frame'' (Cl_binary (frame_payload 0 1))) (\<lambda>_.
     and_then (on_events (read_partial env)) (\<lambda>(raw, p).
     and_then (pure_sock (golden_checks env expected raw p)) (\<lambda>_.
     cl_send_ignore (Cl_close None))))))"

definition MULTI_FRAME_SESSION :: usize where
  "MULTI_FRAME_SESSION = 7919"

definition MULTI_FRAME_COUNT :: u64 where
  "MULTI_FRAME_COUNT = of_nat (as_millis FLUSH_INTERVAL div as_millis FRAME_INTERVAL)"

function multi_loop :: "cl_env \<Rightarrow> partial_checker \<Rightarrow> nat \<Rightarrow> cl_event list \<Rightarrow> (nat outcome_of \<times> cl_event list) option" where
  "multi_loop env ck partials es =
     (if \<not> covered ck < MULTI_FRAME_COUNT then Some (Ok partials, es)
      else case read_partial env es of
             None \<Rightarrow> None
           | Some (Err e, es') \<Rightarrow>
               Some (Err ((''waiting for frames '' @ dec (unat (covered ck + 1)) @ ''..='' @ dec (unat MULTI_FRAME_COUNT)) # e), es')
           | Some (Ok (raw, p), es') \<Rightarrow>
               (case checker_check env p MULTI_FRAME_COUNT ck of
                  (Err e, _) \<Rightarrow> Some (Err e, es')
                | (Ok _, ck') \<Rightarrow> multi_loop env ck' (partials + 1) es'))"
  by pat_completeness auto
termination
  by (relation "measure (\<lambda>(env, ck, n, es). length es)") (auto dest: read_partial_shrinks)

declare multi_loop.simps [simp del]

definition multi_frame_golden :: "cl_env \<Rightarrow> service_target \<Rightarrow> expected_config \<Rightarrow> timed_outcome \<Rightarrow> unit sock" where
  "multi_frame_golden env target expected out =
     and_then (cl_connect target out) (\<lambda>_.
     and_then (send_start env) (\<lambda>_.
     and_then (send_all env ''send multi-frame batch''
       (map (Cl_binary \<circ> frame_payload MULTI_FRAME_SESSION) (range_seqs 1 MULTI_FRAME_COUNT))) (\<lambda>_.
     and_then (on_events (multi_loop env (checker_new MULTI_FRAME_SESSION expected) 0)) (\<lambda>partials.
     and_then (pure_sock (ensure (partials \<le> 2)
       (dec (unat MULTI_FRAME_COUNT) @ '' burst frames arrived in '' @ dec partials @ '' partials''))) (\<lambda>_.
     cl_send_ignore (Cl_close None))))))"

subsection \<open>Close codes\<close>

text \<open>
  A case of \<open>invalid_start_closes\<close> or \<open>invalid_frame_closes\<close>: its own connection, what is sent before the
  offending message, and the offending message.
\<close>

definition close_case ::
  "cl_env \<Rightarrow> service_target \<Rightarrow> u16 \<Rightarrow> unit sock \<Rightarrow> string \<times> string \<times> cl_message \<Rightarrow> timed_outcome \<Rightarrow> unit sock" where
  "close_case env target code opening labels out =
     (case labels of (send_label, case_label, m) \<Rightarrow>
        and_then (cl_connect target out) (\<lambda>_.
        and_then opening (\<lambda>_.
        and_then (cl_send env send_label m) (\<lambda>_.
        sock_context case_label (on_events (expect_close_code env code))))))"

fun close_cases ::
  "cl_env \<Rightarrow> service_target \<Rightarrow> u16 \<Rightarrow> unit sock \<Rightarrow> (string \<times> string \<times> cl_message) list \<Rightarrow> (timed_outcome \<times> cl_socket) list \<Rightarrow>
     unit outcome_of option" where
  "close_cases env target code opening [] socks = Some (Ok ())"
| "close_cases env target code opening (l # ls) [] = None"
| "close_cases env target code opening (l # ls) ((out, s) # socks) =
     (case close_case env target code opening l out s of
        None \<Rightarrow> None
      | Some (Err e, _) \<Rightarrow> Some (Err e)
      | Some (Ok _, _) \<Rightarrow> close_cases env target code opening ls socks)"

definition start_cases :: "(string \<times> string \<times> cl_message) list" where
  "start_cases = map (\<lambda>(label, m). (''send invalid start ('' @ label @ '')'', ''invalid start: '' @ label, m))
     [(''non-JSON text'', Cl_text ''not-json''),
      (''wrong type {\"type\":\"stop\"}'', Cl_text ''{\"type\":\"stop\"}''),
      (''binary frame before start'', Cl_binary (frame_payload 0 1))]"

definition invalid_start_closes :: "cl_env \<Rightarrow> service_target \<Rightarrow> (timed_outcome \<times> cl_socket) list \<Rightarrow> unit outcome_of option" where
  "invalid_start_closes env target = close_cases env target 1002 (pure_sock (Ok ())) start_cases"

definition frame_cases :: "(string \<times> string \<times> cl_message) list" where
  "frame_cases = map (\<lambda>n. (''send '' @ dec n @ ''-byte binary frame'', ''invalid frame size '' @ dec n, Cl_binary (replicate n 0)))
     [0, 10, FRAME_BYTES - 1, FRAME_BYTES + 1, 8193, 65536]"

definition invalid_frame_closes :: "cl_env \<Rightarrow> service_target \<Rightarrow> (timed_outcome \<times> cl_socket) list \<Rightarrow> unit outcome_of option" where
  "invalid_frame_closes env target = close_cases env target 1003 (send_start env) frame_cases"

subsection \<open>Paced streams\<close>

text \<open>
  One round of the loop of \<open>stream_paced\<close>: the instant of the test at its top, the instant of the guard of
  the send arm, the arm that was taken (a frame with the error of its send, a read, or the deadline), and the
  instant after it. The arms that wait for an instant are not taken before it; a round in which they were is
  not a round of the loop, and the stream is then still waiting.
\<close>

datatype pc_event = Pe_frame "string option" | Pe_read cl_read | Pe_deadline

record pc_round =
  rd_now :: instant
  rd_guard :: instant
  rd_event :: pc_event
  rd_seen :: instant

record pc_state =
  ps_next_frame :: instant
  ps_sent :: u64
  ps_checker :: partial_checker
  ps_partial_times :: "instant list"
  ps_written :: "bytes list"

fun stream_loop ::
  "cl_env \<Rightarrow> usize \<Rightarrow> nat \<Rightarrow> instant \<Rightarrow> instant \<Rightarrow> pc_round list \<Rightarrow> pc_state \<Rightarrow> instant list outcome_of option" where
  "stream_loop env session_id min_partials stop deadline [] st = None"
| "stream_loop env session_id min_partials stop deadline (rd # rds) st =
     (if min_partials \<le> length (ps_partial_times st) \<and> stop \<le> rd_now rd then Some (Ok (ps_partial_times st))
      else case rd_event rd of
             Pe_frame failed_send \<Rightarrow>
               if \<not> (rd_guard rd < stop \<and> ps_next_frame st \<le> rd_seen rd) then None
               else (case failed_send of
                       Some e \<Rightarrow> Some (Err [''send paced frame'', e])
                     | None \<Rightarrow> stream_loop env session_id min_partials stop deadline rds
                         (st\<lparr>ps_written := ps_written st @ [frame_payload session_id (ps_sent st + 1)],
                             ps_sent := ps_sent st + 1, ps_next_frame := ps_next_frame st + FRAME_INTERVAL\<rparr>))
           | Pe_read r \<Rightarrow>
               (case r of
                  Cl_end \<Rightarrow> Some (Err [''socket closed before '' @ dec min_partials @ '' partials''])
                | Cl_err e \<Rightarrow> Some (Err [''read paced message'', ce_error env e])
                | Cl_ok (Cl_text t) \<Rightarrow>
                    (case expect_partial env t of
                       Err e \<Rightarrow> Some (Err (''decode paced message'' # e))
                     | Ok p \<Rightarrow>
                         (case checker_check env p (ps_sent st) (ps_checker st) of
                            (Err e, _) \<Rightarrow> Some (Err e)
                          | (Ok _, ck) \<Rightarrow> stream_loop env session_id min_partials stop deadline rds
                              (st\<lparr>ps_checker := ck, ps_partial_times := ps_partial_times st @ [rd_seen rd]\<rparr>)))
                | Cl_ok (Cl_close f) \<Rightarrow> Some (Err [''server closed while streaming: '' @ ce_frame env f])
                | Cl_ok _ \<Rightarrow> stream_loop env session_id min_partials stop deadline rds st)
           | Pe_deadline \<Rightarrow>
               if \<not> deadline \<le> rd_seen rd then None
               else Some (Err [''timed out with '' @ dec (length (ps_partial_times st)) @ '' of '' @ dec min_partials @ '' partials'']))"

text \<open>A stream: how connecting and sending the start message end, the instant after it, and the rounds.\<close>

record pc_stream =
  st_connect :: timed_outcome
  st_started :: instant
  st_rounds :: "pc_round list"

definition stream_paced ::
  "cl_env \<Rightarrow> service_target \<Rightarrow> usize \<Rightarrow> expected_config \<Rightarrow> nat \<Rightarrow> duration \<Rightarrow> duration \<Rightarrow> pc_stream \<Rightarrow> instant list outcome_of option" where
  "stream_paced env target session_id expected min_partials send_for give_up_after x =
     (case and_then (cl_connect target (st_connect x)) (\<lambda>_. send_start env) \<lparr>so_sent = [], so_events = []\<rparr> of
        None \<Rightarrow> None
      | Some (Err e, _) \<Rightarrow> Some (Err e)
      | Some (Ok _, _) \<Rightarrow>
          stream_loop env session_id min_partials (st_started x + send_for) (st_started x + give_up_after) (st_rounds x)
            \<lparr>ps_next_frame = st_started x, ps_sent = 0, ps_checker = checker_new session_id expected,
             ps_partial_times = [], ps_written = []\<rparr>)"

subsection \<open>Cadence and isolation\<close>

definition CADENCE_SESSION :: usize where
  "CADENCE_SESSION = 101"

definition CADENCE_INTERVALS :: nat where
  "CADENCE_INTERVALS = 12"

text \<open>The loop over \<open>partial_times.windows(2)\<close>; \<open>index\<close> counts from one.\<close>

fun check_windows :: "cl_env \<Rightarrow> nat \<Rightarrow> instant list \<Rightarrow> unit outcome_of" where
  "check_windows env index (a # b # ts) =
     (let interval = b - a
      in if \<not> FLUSH_INTERVAL - from_millis 250 \<le> interval
         then Err [''partial interval '' @ dec index @ '' below tolerance: '' @ ce_duration env interval]
         else if \<not> interval \<le> FLUSH_INTERVAL + from_millis 500
         then Err [''partial interval '' @ dec index @ '' above tolerance: '' @ ce_duration env interval @ '' (skipped flush?)'']
         else check_windows env (index + 1) (b # ts))"
| "check_windows env index _ = Ok ()"

definition check_cadence :: "cl_env \<Rightarrow> nat \<Rightarrow> instant list \<Rightarrow> unit outcome_of" where
  "check_cadence env partials ts = first_error
     [ensure (partials \<le> length ts) (''expected at least '' @ dec partials @ '' partials, got '' @ dec (length ts)),
      check_windows env 1 ts,
      ensure (ts ! 1 - ts ! 0 \<le> FLUSH_INTERVAL + from_millis 250) ''first cadence interval too wide'']"

definition flush_cadence :: "cl_env \<Rightarrow> service_target \<Rightarrow> expected_config \<Rightarrow> pc_stream \<Rightarrow> unit outcome_of option" where
  "flush_cadence env target expected x =
     (let partials = CADENCE_INTERVALS + 1; send_for = FLUSH_INTERVAL * partials + from_millis 250
      in case stream_paced env target CADENCE_SESSION expected partials send_for (send_for + from_secs 4) x of
           None \<Rightarrow> None
         | Some (Err e) \<Rightarrow> Some (Err e)
         | Some (Ok ts) \<Rightarrow> Some (check_cadence env partials ts))"

definition ISOLATION_SESSIONS :: "usize \<times> usize" where
  "ISOLATION_SESSIONS = (211, 422)"

text \<open>Both streams run to their end; the error of the left one is reported first.\<close>

definition concurrent_isolation ::
  "cl_env \<Rightarrow> service_target \<Rightarrow> expected_config \<Rightarrow> pc_stream \<times> pc_stream \<Rightarrow> unit outcome_of option" where
  "concurrent_isolation env target expected xs =
     (let stream = (\<lambda>i x. map_option (context_of (''session '' @ dec (unat i)) \<circ> map_sum id (\<lambda>_. ()))
            (stream_paced env target i expected 2 (from_millis 2250) (from_secs 6) x))
      in case (stream (fst ISOLATION_SESSIONS) (fst xs), stream (snd ISOLATION_SESSIONS) (snd xs)) of
           (Some l, Some r) \<Rightarrow> Some (first_error [l, r])
         | _ \<Rightarrow> None)"

subsection \<open>Normal close\<close>

fun close_loop :: "cl_env \<Rightarrow> cl_event list \<Rightarrow> (unit outcome_of \<times> cl_event list) option" where
  "close_loop env [] = None"
| "close_loop env (Ev_deadline # es) = Some (Err [''normal close did not complete within 1s''], es)"
| "close_loop env (Ev_read r # es) =
     (case r of
        Cl_ok (Cl_close f) \<Rightarrow> Some (Ok (), es)
      | Cl_ok _ \<Rightarrow> close_loop env es
      | Cl_err Ws_connection_closed \<Rightarrow> Some (Ok (), es)
      | Cl_err Ws_already_closed \<Rightarrow> Some (Ok (), es)
      | Cl_err (Ws_other e) \<Rightarrow> Some (Err [''read normal close'', ce_error env (Ws_other e)], es)
      | Cl_end \<Rightarrow> Some (Ok (), es))"

definition normal_close :: "cl_env \<Rightarrow> service_target \<Rightarrow> timed_outcome \<Rightarrow> unit sock" where
  "normal_close env target out =
     and_then (cl_connect target out) (\<lambda>_.
     and_then (send_start env) (\<lambda>_.
     and_then (cl_send env ''send pre-close frame'' (Cl_binary (frame_payload 0 1))) (\<lambda>_.
     and_then (cl_send env ''send normal close'' (Cl_close None)) (\<lambda>_.
     on_events (close_loop env)))))"

subsection \<open>The suite\<close>

text \<open>What a service does in each case of the suite.\<close>

record service_run =
  sr_started :: instant
  sr_ready :: "(timed_outcome \<times> instant) list"
  sr_golden :: "timed_outcome \<times> cl_socket"
  sr_multi :: "timed_outcome \<times> cl_socket"
  sr_starts :: "(timed_outcome \<times> cl_socket) list"
  sr_frames :: "(timed_outcome \<times> cl_socket) list"
  sr_cadence :: pc_stream
  sr_isolation :: "pc_stream \<times> pc_stream"
  sr_close :: "timed_outcome \<times> cl_socket"

fun in_turn :: "unit outcome_of option list \<Rightarrow> unit outcome_of option" where
  "in_turn [] = Some (Ok ())"
| "in_turn (r # rs) = (case r of None \<Rightarrow> None | Some (Err e) \<Rightarrow> Some (Err e) | Some (Ok _) \<Rightarrow> in_turn rs)"

definition run_service :: "cl_env \<Rightarrow> service_target \<Rightarrow> expected_config \<Rightarrow> service_run \<Rightarrow> unit outcome_of option" where
  "run_service env target expected x = in_turn
     [wait_until_ready target (sr_started x) (sr_ready x),
      map_option (context_of ''partial schema and golden stub'' \<circ> fst)
        (partial_schema_and_golden env target expected (fst (sr_golden x)) (snd (sr_golden x))),
      map_option (context_of ''multi-frame golden'' \<circ> fst)
        (multi_frame_golden env target expected (fst (sr_multi x)) (snd (sr_multi x))),
      map_option (context_of ''invalid start close code'') (invalid_start_closes env target (sr_starts x)),
      map_option (context_of ''invalid frame close code'') (invalid_frame_closes env target (sr_frames x)),
      map_option (context_of ''flush cadence'') (flush_cadence env target expected (sr_cadence x)),
      map_option (context_of ''concurrent session isolation'') (concurrent_isolation env target expected (sr_isolation x)),
      map_option (context_of ''normal close'' \<circ> fst) (normal_close env target (fst (sr_close x)) (snd (sr_close x)))]"

text \<open>The report of \<open>main\<close>: the lines of the failed services, and whether the suite passed.\<close>

definition suite_failures :: "(service_target \<times> unit outcome_of) list \<Rightarrow> string list" where
  "suite_failures rs =
     concat (map (\<lambda>(t, r). case r of Ok _ \<Rightarrow> [] | Err e \<Rightarrow> [tg_name t @ '': '' @ join '': '' e]) rs)"

definition suite_result :: "(service_target \<times> unit outcome_of) list \<Rightarrow> (unit, string) result" where
  "suite_result rs =
     (if rs = [] then Err ''at least one --service name=url is required''
      else if suite_failures rs = [] then Ok () else Err ''conformance failed'')"

end
