(* ===== verification/Conformance_Cases.thy ===== *)
theory Conformance_Cases
  imports Conformance Gateway
begin

text \<open>
  What the cases of the conformance suite accept: the multi-frame case, the golden case and the cadence case.
\<close>

subsection \<open>The checker\<close>

definition partial_range :: "partial_message \<Rightarrow> u64 \<times> u64" where
  "partial_range p = (oldest_frame_seq p, newest_frame_seq p)"

lemma tiles_range [simp]:
  "tiles (partial_range p # rs) a b \<longleftrightarrow>
     unat (oldest_frame_seq p) = a + 1 \<and> oldest_frame_seq p \<le> newest_frame_seq p \<and> tiles rs (unat (newest_frame_seq p)) b"
  by (simp add: partial_range_def)

lemma tiles_newest: "tiles (map partial_range ps) a b \<Longrightarrow> p \<in> set ps \<Longrightarrow> unat (newest_frame_seq p) \<le> b"
  by (induction ps arbitrary: a) (auto dest: tiles_le)

text \<open>A partial that is right for session \<open>i\<close> once \<open>sent\<close> frames were sent.\<close>

definition right_partial :: "usize \<Rightarrow> expected_config \<Rightarrow> u64 \<Rightarrow> partial_message \<Rightarrow> bool" where
  "right_partial i expected sent p \<longleftrightarrow>
     validate p = Ok () \<and> newest_frame_seq p \<le> sent \<and> verify_partial i p expected = []"

lemma checker_check_Ok:
  "fst (checker_check env p sent ck) = Ok () \<longleftrightarrow>
     right_partial (pc_session_id ck) (pc_expected ck) sent p \<and>
     fst (observe (oldest_frame_seq p) (newest_frame_seq p) (pc_continuity ck)) = None"
  by (auto simp: checker_check_def right_partial_def Let_def split: prod.splits sum.splits option.splits)

lemma checker_check_keeps [simp]:
  "pc_session_id (snd (checker_check env p sent ck)) = pc_session_id ck"
  "pc_expected (snd (checker_check env p sent ck)) = pc_expected ck"
  "pc_continuity (snd (checker_check env p sent ck)) =
     snd (observe (oldest_frame_seq p) (newest_frame_seq p) (pc_continuity ck))"
  by (simp_all add: checker_check_def Let_def split: prod.split)

lemma checker_check_next:
  assumes "unat (covered ck) < 2 ^ 64 - 1"
  shows "fst (checker_check env p sent ck) = Ok () \<longleftrightarrow>
    right_partial (pc_session_id ck) (pc_expected ck) sent p \<and>
    unat (oldest_frame_seq p) = unat (covered ck) + 1 \<and> oldest_frame_seq p \<le> newest_frame_seq p"
proof -
  have u: "unat (covered ck + 1) = unat (covered ck) + 1" using assms by (subst unat_add_lem [THEN iffD1]) simp_all
  then have "oldest_frame_seq p = covered ck + 1 \<longleftrightarrow> unat (oldest_frame_seq p) = unat (covered ck) + 1"
    by (metis word_unat_eq_iff)
  moreover have "oldest_frame_seq p \<noteq> 0" if "unat (oldest_frame_seq p) = unat (covered ck) + 1" using that by auto
  ultimately show ?thesis by (auto simp: checker_check_Ok observe_None_iff covered_def)
qed

lemma checker_check_covered:
  assumes "fst (checker_check env p sent ck) = Ok ()" and "unat (covered ck) < 2 ^ 64 - 1"
  shows "covered (snd (checker_check env p sent ck)) = newest_frame_seq p"
proof -
  have "unat (oldest_frame_seq p) = unat (covered ck) + 1" "oldest_frame_seq p \<le> newest_frame_seq p"
    using checker_check_next [OF assms(2)] assms(1) by simp_all
  then have "last_newest (pc_continuity ck) \<le> newest_frame_seq p" "oldest_frame_seq p \<noteq> 0"
    by (auto simp: covered_def word_le_nat_alt)
  then show ?thesis
    using \<open>oldest_frame_seq p \<le> newest_frame_seq p\<close> by (simp add: covered_def observe_def Let_def max_def not_less [symmetric])
qed

subsection \<open>The multi-frame case\<close>

definition text_events :: "(partial_message \<Rightarrow> string) \<Rightarrow> partial_message list \<Rightarrow> cl_event list" where
  "text_events enc ps = map (\<lambda>p. Ev_read (Cl_ok (Cl_text (enc p)))) ps"

lemma count_50: "unat MULTI_FRAME_COUNT = 50" "MULTI_FRAME_COUNT = 50"
  by (simp_all add: MULTI_FRAME_COUNT_def FLUSH_INTERVAL_def FRAME_INTERVAL_def)

lemma ex_prefix_Cons: "(\<exists>k \<le> length (x # xs). P k) \<longleftrightarrow> P 0 \<or> (\<exists>k \<le> length xs. P (Suc k))"
proof
  assume "\<exists>k \<le> length (x # xs). P k"
  then obtain k where "k \<le> Suc (length xs)" "P k" by auto
  then show "P 0 \<or> (\<exists>k \<le> length xs. P (Suc k))" by (cases k) auto
qed auto

lemma multi_loop_texts:
  assumes "\<forall>p \<in> set ps. ce_from_str env (enc p) = Ok (Partial p)" and "unat (covered ck) \<le> 50"
  shows "(\<exists>es. multi_loop env ck n (text_events enc ps) = Some (Ok m, es)) \<longleftrightarrow>
    (\<exists>k \<le> length ps. m = n + k \<and> tiles (map partial_range (take k ps)) (unat (covered ck)) 50 \<and>
       (\<forall>p \<in> set (take k ps). right_partial (pc_session_id ck) (pc_expected ck) MULTI_FRAME_COUNT p))"
  using assms
proof (induction ps arbitrary: ck n)
  case Nil
  show ?case
    using Nil by (subst multi_loop.simps) (auto simp: text_events_def count_50 word_less_nat_alt)
next
  case (Cons p ps)
  define ck' where "ck' = snd (checker_check env p MULTI_FRAME_COUNT ck)"
  have rd: "read_partial env (text_events enc (p # ps)) = Some (Ok (enc p, p), text_events enc ps)"
    using Cons.prems(1) by (simp add: text_events_def expect_partial_def)
  consider (complete) "unat (covered ck) = 50"
    | (right) "unat (covered ck) < 50" "fst (checker_check env p MULTI_FRAME_COUNT ck) = Ok ()"
    | (wrong) e where "unat (covered ck) < 50" "fst (checker_check env p MULTI_FRAME_COUNT ck) = Err e"
    using Cons.prems(2) by (cases "fst (checker_check env p MULTI_FRAME_COUNT ck)") force+
  then show ?case
  proof cases
    case complete
    have "\<not> (unat (oldest_frame_seq p) = 51 \<and> oldest_frame_seq p \<le> newest_frame_seq p \<and> tiles rs (unat (newest_frame_seq p)) 50)" for rs
      by (auto simp: word_le_nat_alt dest: tiles_le)
    then show ?thesis
      unfolding ex_prefix_Cons
      using complete by (subst multi_loop.simps) (auto simp: count_50 word_less_nat_alt)
  next
    case right
    then have c: "unat (covered ck) < 2 ^ 64 - 1" by simp
    note nx = right(2) [unfolded checker_check_next [OF c]]
    have cov: "covered ck' = newest_frame_seq p" unfolding ck'_def by (rule checker_check_covered [OF right(2) c])
    then have "unat (covered ck') \<le> 50" using nx by (simp add: right_partial_def word_le_nat_alt count_50)
    note ih = Cons.IH [OF _ this, of "n + 1"]
    have "multi_loop env ck n (text_events enc (p # ps)) = multi_loop env ck' (n + 1) (text_events enc ps)"
      using right rd by (subst multi_loop.simps) (auto simp: ck'_def count_50 word_less_nat_alt split: prod.split)
    moreover have "pc_session_id ck' = pc_session_id ck" "pc_expected ck' = pc_expected ck" by (simp_all add: ck'_def)
    ultimately show ?thesis
      unfolding ex_prefix_Cons using ih Cons.prems(1) nx right(1) by (simp add: cov)
  next
    case wrong
    then have "unat (covered ck) < 2 ^ 64 - 1" by simp
    from checker_check_next [OF this, of env p MULTI_FRAME_COUNT] wrong(2)
    have "\<not> (right_partial (pc_session_id ck) (pc_expected ck) MULTI_FRAME_COUNT p \<and>
        unat (oldest_frame_seq p) = unat (covered ck) + 1 \<and> oldest_frame_seq p \<le> newest_frame_seq p)" by simp
    moreover have "multi_loop env ck n (text_events enc (p # ps)) = Some (Err e, text_events enc ps)"
      using wrong rd by (subst multi_loop.simps) (auto simp: count_50 word_less_nat_alt split: prod.split)
    ultimately show ?thesis unfolding ex_prefix_Cons using wrong(1) by auto
  qed
qed

text \<open>
  C20. The multi-frame case of the conformance suite accepts exactly the right behaviour. On a connection
  whose sends succeed and which answers with the partials \<open>ps\<close>, the case passes if and only if one or two of
  the first partials cover the frames 1 to 50, in order and without gap or overlap, and each is valid and
  carries the stub's result for its frames.
\<close>

theorem multi_frame_golden_exact:
  assumes "\<forall>p \<in> set ps. ce_from_str env (enc p) = Ok (Partial p)" and "\<forall>n. ce_send env n = None"
  shows "(\<exists>s. multi_frame_golden env target expected Call_ok \<lparr>so_sent = [], so_events = text_events enc ps\<rparr> = Some (Ok (), s)) \<longleftrightarrow>
    (\<exists>k \<le> length ps. k \<le> 2 \<and> tiles (map partial_range (take k ps)) 0 50 \<and>
       (\<forall>p \<in> set (take k ps). validate p = Ok () \<and> verify_partial MULTI_FRAME_SESSION p expected = []))"
proof -
  define ck where "ck = checker_new MULTI_FRAME_SESSION expected"
  have sends: "\<exists>s'. send_all env ctx ms s = Some (Ok (), s') \<and> so_events s' = so_events s" for ctx ms s
  proof (induction ms arbitrary: s)
    case (Cons m ms)
    then show ?case using assms(2) Cons [of "s\<lparr>so_sent := so_sent s @ [m]\<rparr>"] by (simp add: cl_send_def and_then_def)
  qed (simp add: pure_sock_def)
  obtain s1 where s1: "send_all env ''send multi-frame batch''
      (map (Cl_binary \<circ> frame_payload MULTI_FRAME_SESSION) (range_seqs 1 MULTI_FRAME_COUNT))
      \<lparr>so_sent = [Cl_text (ce_start env)], so_events = text_events enc ps\<rparr> = Some (Ok (), s1)" "so_events s1 = text_events enc ps"
    using sends [of _ _ "\<lparr>so_sent = [Cl_text (ce_start env)], so_events = text_events enc ps\<rparr>"] by auto
  have "(\<exists>s. multi_frame_golden env target expected Call_ok \<lparr>so_sent = [], so_events = text_events enc ps\<rparr> = Some (Ok (), s)) \<longleftrightarrow>
      (\<exists>m es. multi_loop env ck 0 (text_events enc ps) = Some (Ok m, es) \<and> m \<le> 2)"
    using assms(2) s1
    by (auto simp: multi_frame_golden_def cl_connect_def send_start_def cl_send_def on_events_def cl_send_ignore_def ck_def)
  also have "\<dots> \<longleftrightarrow> (\<exists>m \<le> 2. \<exists>es. multi_loop env ck 0 (text_events enc ps) = Some (Ok m, es))" by auto
  also have "\<dots> \<longleftrightarrow> (\<exists>k \<le> length ps. k \<le> 2 \<and> tiles (map partial_range (take k ps)) 0 50 \<and>
      (\<forall>p \<in> set (take k ps). right_partial MULTI_FRAME_SESSION expected MULTI_FRAME_COUNT p))"
    using multi_loop_texts [OF assms(1), of ck 0]
    by (auto simp: ck_def checker_new_def covered_def continuity_default_def)
  finally show ?thesis by (fastforce simp: right_partial_def word_le_nat_alt count_50 dest: tiles_newest)
qed

subsection \<open>The golden case\<close>

lemma st_samples_one_frame: "st_samples (expected_stub i 1 1 passes) = of_nat (320 * unat passes)"
proof -
  have "length (concat_payload i 1 1) = 640"
    by (simp add: concat_payload_def range_seqs_def seq_from_def FRAME_BYTES_def)
  then show ?thesis
    by (simp add: expected_stub_def compute_stub_def Let_def stub_loop_def fold_pass_count stub_init_def mult.commute)
qed

lemma expected_four_passes: "expected_stub 0 1 1 4 =
    \<lparr>st_rms = gs_rms GOLDEN_ONE_FRAME, st_zero_crossings = gs_zero_crossings GOLDEN_ONE_FRAME,
     st_checksum = gs_checksum GOLDEN_ONE_FRAME, st_samples = gs_samples GOLDEN_ONE_FRAME,
     st_transcript = gs_transcript GOLDEN_ONE_FRAME, st_audio_bytes = gs_audio_bytes GOLDEN_ONE_FRAME\<rparr>"
  using golden_one_frame by (simp add: expected_stub_def concat_payload_def range_seqs_def seq_from_def)

lemma four_passes:
  assumes "samples p = 1280" and "samples p = st_samples (expected_stub 0 1 1 passes)"
  shows "passes = 4"
proof -
  have "unat (of_nat (320 * unat passes) :: u64) = unat (1280 :: u64)" using assms by (simp only: st_samples_one_frame)
  then have "320 * unat passes mod 2 ^ 64 = 1280" unfolding unat_of_nat by simp
  then have "320 * unat passes = 1280" using unsigned_less [of passes, where 'a = nat] by simp
  then show ?thesis by (simp add: word_unat_eq_iff)
qed

lemma golden_checks_Ok:
  "golden_checks env expected raw p = Ok () \<longleftrightarrow>
     ex_cpu_passes expected = 4 \<and> assert_schema_fields env raw = Ok () \<and> validate p = Ok () \<and>
     partial_range p = (1, 1) \<and> verify_partial 0 p expected = []"
    (is "?L \<longleftrightarrow> ?R")
proof
  assume ?L
  then have a: "assert_schema_fields env raw = Ok ()" "partial_range p = (1, 1)" "samples p = 1280"
      "right_partial 0 expected 1 p"
    by (simp_all add: golden_checks_def GOLDEN_ONE_FRAME_def checker_check_Ok checker_new_def partial_range_def)
  then have "samples p = st_samples (expected_stub 0 1 1 (ex_cpu_passes expected))"
    by (simp add: right_partial_def verify_partial_Nil_iff partial_range_def Let_def)
  then show ?R using a four_passes [OF a(3)] by (simp add: right_partial_def)
next
  assume r: ?R
  then have e: "oldest_frame_seq p = 1" "newest_frame_seq p = 1" "ex_cpu_passes expected = 4"
    by (simp_all add: partial_range_def)
  from r have "frames p = 1 \<and> audio_bytes p = saturating_mul 1 (of_nat FRAME_BYTES) \<and>
      checksum p = gs_checksum GOLDEN_ONE_FRAME \<and> zero_crossings p = gs_zero_crossings GOLDEN_ONE_FRAME \<and>
      samples p = gs_samples GOLDEN_ONE_FRAME \<and> rms_matches (rms p) (gs_rms GOLDEN_ONE_FRAME) \<and>
      transcript p = gs_transcript GOLDEN_ONE_FRAME"
    by (simp add: verify_partial_Nil_iff e Let_def expected_four_passes)
  then show ?L
    using r by (simp add: golden_checks_def checker_check_Ok right_partial_def checker_new_def observe_None_iff
        continuity_default_def e GOLDEN_ONE_FRAME_def saturating_mul_def FRAME_BYTES_def)
qed

text \<open>
  C22. What the golden case accepts. On a connection whose sends succeed and which answers with the partial
  \<open>p\<close>, it passes if and only if the suite is told to expect four passes, the message has the fields of the
  schema, and the partial is valid, covers the one frame sent and carries the stub's result for it. In
  particular it passes with no other value of \<open>--expect-cpu-passes\<close>, whatever the service does.
\<close>

theorem golden_case_exact:
  assumes "ce_from_str env raw = Ok (Partial p)" and "\<forall>n. ce_send env n = None"
  shows "(\<exists>s. partial_schema_and_golden env target expected Call_ok
      \<lparr>so_sent = [], so_events = [Ev_read (Cl_ok (Cl_text raw))]\<rparr> = Some (Ok (), s)) \<longleftrightarrow>
    ex_cpu_passes expected = 4 \<and> assert_schema_fields env raw = Ok () \<and> validate p = Ok () \<and>
    oldest_frame_seq p = 1 \<and> newest_frame_seq p = 1 \<and> verify_partial 0 p expected = []"
proof -
  have "(\<exists>s. partial_schema_and_golden env target expected Call_ok
      \<lparr>so_sent = [], so_events = [Ev_read (Cl_ok (Cl_text raw))]\<rparr> = Some (Ok (), s)) \<longleftrightarrow> golden_checks env expected raw p = Ok ()"
    using assms by (auto simp: partial_schema_and_golden_def cl_connect_def send_start_def cl_send_def on_events_def
        cl_send_ignore_def expect_partial_def)
  then show ?thesis by (simp add: golden_checks_Ok partial_range_def)
qed

subsection \<open>Paced streams\<close>

text \<open>The partials a stream read, each with the instant it was handled at.\<close>

definition round_partial :: "cl_env \<Rightarrow> pc_round \<Rightarrow> (partial_message \<times> instant) list" where
  "round_partial env rd =
     (case rd_event rd of
        Pe_read (Cl_ok (Cl_text t)) \<Rightarrow> (case expect_partial env t of Ok p \<Rightarrow> [(p, rd_seen rd)] | Err e \<Rightarrow> [])
      | _ \<Rightarrow> [])"

definition stream_partials :: "cl_env \<Rightarrow> pc_round list \<Rightarrow> (partial_message \<times> instant) list" where
  "stream_partials env rds = concat (map (round_partial env) rds)"

text \<open>The number of frames a stream wrote.\<close>

definition frames_written :: "pc_round list \<Rightarrow> nat" where
  "frames_written rds = length (filter (\<lambda>rd. rd_event rd = Pe_frame None) rds)"

lemma stream_Cons [simp]:
  "stream_partials env (rd # rds) = round_partial env rd @ stream_partials env rds"
  "frames_written (rd # rds) = (if rd_event rd = Pe_frame None then 1 else 0) + frames_written rds"
  "stream_partials env [] = []" "frames_written [] = 0"
  by (simp_all add: stream_partials_def frames_written_def)

lemma stream_loop_sound:
  assumes "stream_loop env i m stop deadline rds st = Some (Ok ts)"
    and "unat (covered (ps_checker st)) < 2 ^ 64 - 1" and "unat (ps_sent st) + length rds < 2 ^ 64 - 1"
  shows "\<exists>k n. ts = ps_partial_times st @ map snd (stream_partials env (take k rds)) \<and> m \<le> length ts \<and>
    n \<le> max (unat (covered (ps_checker st))) (unat (ps_sent st) + frames_written (take k rds)) \<and>
    tiles (map (partial_range \<circ> fst) (stream_partials env (take k rds))) (unat (covered (ps_checker st))) n \<and>
    (\<forall>(p, t) \<in> set (stream_partials env (take k rds)).
       validate p = Ok () \<and> verify_partial (pc_session_id (ps_checker st)) p (pc_expected (ps_checker st)) = [])"
  using assms
proof (induction rds arbitrary: st)
  case (Cons rd rds)
  let ?P = "\<lambda>rds st k n. ts = ps_partial_times st @ map snd (stream_partials env (take k rds)) \<and> m \<le> length ts \<and>
    n \<le> max (unat (covered (ps_checker st))) (unat (ps_sent st) + frames_written (take k rds)) \<and>
    tiles (map (partial_range \<circ> fst) (stream_partials env (take k rds))) (unat (covered (ps_checker st))) n \<and>
    (\<forall>(p, t) \<in> set (stream_partials env (take k rds)).
       validate p = Ok () \<and> verify_partial (pc_session_id (ps_checker st)) p (pc_expected (ps_checker st)) = [])"
  consider (stop) "m \<le> length (ps_partial_times st)" "ts = ps_partial_times st"
    | (frame) st' where "rd_event rd = Pe_frame None" "stream_loop env i m stop deadline rds st' = Some (Ok ts)"
        "ps_partial_times st' = ps_partial_times st" "ps_checker st' = ps_checker st" "ps_sent st' = ps_sent st + 1"
    | (partial) p seen where "round_partial env rd = [(p, seen)]" "rd_event rd \<noteq> Pe_frame None"
        "fst (checker_check env p (ps_sent st) (ps_checker st)) = Ok ()"
        "stream_loop env i m stop deadline rds (st\<lparr>ps_checker := snd (checker_check env p (ps_sent st) (ps_checker st)),
           ps_partial_times := ps_partial_times st @ [seen]\<rparr>) = Some (Ok ts)"
    | (skip) "round_partial env rd = []" "rd_event rd \<noteq> Pe_frame None" "stream_loop env i m stop deadline rds st = Some (Ok ts)"
    using Cons.prems(1)
    by (auto simp: round_partial_def split: if_splits pc_event.splits option.splits cl_read.splits cl_message.splits sum.splits prod.splits)
  then show ?case
  proof cases
    case stop
    then have "?P (rd # rds) st 0 (unat (covered (ps_checker st)))" by simp
    then show ?thesis by blast
  next
    case (frame st')
    have u: "unat (ps_sent st') = unat (ps_sent st) + 1"
      using Cons.prems(3) by (simp add: frame(5) unat_add_lem [THEN iffD1])
    have e: "round_partial env rd = []" by (simp add: round_partial_def frame(1))
    have "unat (covered (ps_checker st')) < 2 ^ 64 - 1" "unat (ps_sent st') + length rds < 2 ^ 64 - 1"
      using Cons.prems(2,3) unfolding u frame(4) by simp_all
    from Cons.IH [OF frame(2) this] obtain k n where "?P rds st' k n" by blast
    then have "?P (rd # rds) st (Suc k) n"
      using u by (auto simp: e frame)
    then show ?thesis by blast
  next
    case (partial p seen)
    note nx = partial(3) [unfolded checker_check_next [OF Cons.prems(2)]]
    note cov = checker_check_covered [OF partial(3) Cons.prems(2)]
    have le: "unat (newest_frame_seq p) \<le> unat (ps_sent st)" using nx by (simp add: right_partial_def word_le_nat_alt)
    define st' where "st' = st\<lparr>ps_checker := snd (checker_check env p (ps_sent st) (ps_checker st)),
        ps_partial_times := ps_partial_times st @ [seen]\<rparr>"
    have "unat (covered (ps_checker st')) < 2 ^ 64 - 1" "unat (ps_sent st') + length rds < 2 ^ 64 - 1"
      using Cons.prems(3) le by (simp_all add: st'_def cov)
    from Cons.IH [OF partial(4) [folded st'_def] this] obtain k n where "?P rds st' k n" by blast
    then have "?P (rd # rds) st (Suc k) n"
      using nx le partial(2) by (auto simp: partial(1) cov right_partial_def st'_def)
    then show ?thesis by blast
  next
    case skip
    have "unat (ps_sent st) + length rds < 2 ^ 64 - 1" using Cons.prems(3) by simp
    from Cons.IH [OF skip(3) Cons.prems(2) this] obtain k n where "?P rds st k n" by blast
    then have "?P (rd # rds) st (Suc k) n"
      using skip by auto
    then show ?thesis by blast
  qed
qed simp


lemma check_windows_Ok:
  "check_windows env index ts = Ok () \<longleftrightarrow>
     (\<forall>j. Suc j < length ts \<longrightarrow> ts ! Suc j - ts ! j \<in> {FLUSH_INTERVAL - from_millis 250..FLUSH_INTERVAL + from_millis 500})"
proof (induction env index ts rule: check_windows.induct)
  case (1 env index a b ts)
  have "(\<forall>j. Suc j < length (a # b # ts) \<longrightarrow> P j) \<longleftrightarrow> P 0 \<and> (\<forall>j. Suc j < length (b # ts) \<longrightarrow> P (Suc j))" for P
    by (auto simp: less_Suc_eq_0_disj)
  then show ?case using 1 by (simp add: Let_def)
qed simp_all

text \<open>The cadence case: thirteen partials or more, each 750 to 1500 ms after the one before.\<close>

lemma flush_cadence_sound:
  assumes "flush_cadence env target expected x = Some (Ok ())"
  shows "\<exists>ts. stream_paced env target CADENCE_SESSION expected 13 (FLUSH_INTERVAL * 13 + from_millis 250)
      (FLUSH_INTERVAL * 13 + from_millis 250 + from_secs 4) x = Some (Ok ts) \<and>
    13 \<le> length ts \<and> (\<forall>j. Suc j < length ts \<longrightarrow> ts ! Suc j - ts ! j \<in> {from_millis 750..from_millis 1500})"
proof -
  obtain ts where ts: "stream_paced env target CADENCE_SESSION expected 13 (FLUSH_INTERVAL * 13 + from_millis 250)
      (FLUSH_INTERVAL * 13 + from_millis 250 + from_secs 4) x = Some (Ok ts)"
    "check_cadence env 13 ts = Ok ()"
    using assms by (auto simp: flush_cadence_def CADENCE_INTERVALS_def Let_def split: option.splits sum.splits)
  then show ?thesis by (auto simp: check_cadence_def check_windows_Ok FLUSH_INTERVAL_def from_millis_def)
qed

subsection \<open>A correct service\<close>

text \<open>A suite environment that prints nothing and whose sends succeed, for a given decoder.\<close>

definition suite_env :: "(string \<Rightarrow> (server_message, string) result) \<Rightarrow> cl_env" where
  "suite_env from_str =
     \<lparr>ce_from_str = from_str,
      ce_keys = (\<lambda>_. Ok (Some [''type'', ''oldest_frame_seq'', ''newest_frame_seq'', ''frames'', ''rms'', ''zero_crossings'',
        ''checksum'', ''samples'', ''transcript'', ''audio_bytes'', ''cpu_passes'', ''model_delay_ms'', ''flush_lateness_ms'',
        ''inflight_model_jobs''])),
      ce_start = ''{\"type\":\"start\"}'', ce_detail = (\<lambda>_. []), ce_frame = (\<lambda>_. []), ce_message = (\<lambda>_. []),
      ce_error = (\<lambda>_. []), ce_duration = (\<lambda>_. []), ce_f64 = (\<lambda>_. []), ce_debug = (\<lambda>_. []), ce_key_set = (\<lambda>_. []), ce_send = (\<lambda>_. None)\<rparr>"

text \<open>The partial of a correct service for a range of a session's frames.\<close>

definition stub_partial :: "usize \<Rightarrow> u64 \<Rightarrow> u64 \<Rightarrow> partial_message" where
  "stub_partial i oldest newest =
     honest_partial (compute_stub (concat_payload i oldest newest) 4) oldest newest default_expected f64_zero 0"

lemma stub_partial_right:
  assumes "oldest \<noteq> 0" and "oldest \<le> newest" and "newest - oldest + 1 \<le> MAX_VERIFY_FRAMES"
  shows "validate (stub_partial i oldest newest) = Ok ()" and "verify_partial i (stub_partial i oldest newest) default_expected = []"
    and "oldest_frame_seq (stub_partial i oldest newest) = oldest" and "newest_frame_seq (stub_partial i oldest newest) = newest"
proof -
  have e: "ex_cpu_passes default_expected = 4" by (simp add: default_expected_def)
  show "validate (stub_partial i oldest newest) = Ok ()"
    unfolding stub_partial_def by (rule honest_partial_valid [OF assms]) (simp_all add: f64_zero_def)
  show "verify_partial i (stub_partial i oldest newest) default_expected = []"
    using honest_partial_verifies [OF assms, where e = default_expected] by (simp add: stub_partial_def e)
qed (simp_all add: stub_partial_def honest_partial_def)

theorem multi_frame_golden_exact_witness:
  "\<exists>s. multi_frame_golden (suite_env (\<lambda>t. Ok (Partial (stub_partial MULTI_FRAME_SESSION (if t = [] then 1 else 26) (if t = [] then 25 else 50)))))
     \<lparr>tg_name = ''rust'', tg_url = ''ws://rust''\<rparr> default_expected Call_ok
     \<lparr>so_sent = [], so_events = [Ev_read (Cl_ok (Cl_text [])), Ev_read (Cl_ok (Cl_text ''x''))]\<rparr> = Some (Ok (), s)"
proof -
  define a b where "a = stub_partial MULTI_FRAME_SESSION 1 25" and "b = stub_partial MULTI_FRAME_SESSION 26 50"
  define enc where "enc p = (if p = a then [] else ''x'')" for p
  define env where "env = suite_env (\<lambda>t. Ok (Partial (if t = [] then a else b)))"
  have r: "validate a = Ok ()" "verify_partial MULTI_FRAME_SESSION a default_expected = []"
    "oldest_frame_seq a = 1" "newest_frame_seq a = 25" "validate b = Ok ()"
    "verify_partial MULTI_FRAME_SESSION b default_expected = []" "oldest_frame_seq b = 26" "newest_frame_seq b = 50"
    unfolding a_def b_def by (rule stub_partial_right; simp add: MAX_VERIFY_FRAMES_def)+
  have ab: "a \<noteq> b" using r(3,7) by auto
  have "\<exists>s. multi_frame_golden env \<lparr>tg_name = ''rust'', tg_url = ''ws://rust''\<rparr> default_expected Call_ok
      \<lparr>so_sent = [], so_events = text_events enc [a, b]\<rparr> = Some (Ok (), s)"
    by (subst multi_frame_golden_exact) (use ab r in \<open>auto simp: env_def suite_env_def enc_def intro!: exI [of _ 2]\<close>)
  moreover have "text_events enc [a, b] = [Ev_read (Cl_ok (Cl_text [])), Ev_read (Cl_ok (Cl_text ''x''))]"
    using ab by (simp add: text_events_def enc_def)
  moreover have "env = suite_env (\<lambda>t. Ok (Partial (stub_partial MULTI_FRAME_SESSION (if t = [] then 1 else 26) (if t = [] then 25 else 50))))"
    by (simp add: env_def a_def b_def if_distrib cong: if_cong)
  ultimately show ?thesis by simp
qed

theorem golden_case_exact_witness:
  "\<exists>s. partial_schema_and_golden (suite_env (\<lambda>t. Ok (Partial (stub_partial 0 1 1)))) \<lparr>tg_name = ''rust'', tg_url = ''ws://rust''\<rparr>
     default_expected Call_ok \<lparr>so_sent = [], so_events = [Ev_read (Cl_ok (Cl_text []))]\<rparr> = Some (Ok (), s)"
proof -
  have r: "validate (stub_partial 0 1 1) = Ok ()" "verify_partial 0 (stub_partial 0 1 1) default_expected = []"
    "oldest_frame_seq (stub_partial 0 1 1) = 1" "newest_frame_seq (stub_partial 0 1 1) = 1"
    by (rule stub_partial_right; simp add: MAX_VERIFY_FRAMES_def)+
  show ?thesis
    by (subst golden_case_exact) (use r in \<open>simp_all add: suite_env_def assert_schema_fields_def default_expected_def\<close>)
qed

text \<open>A stream that writes one frame, reads its partial and is then over.\<close>

definition one_partial_stream :: pc_stream where
  "one_partial_stream = \<lparr>st_connect = Call_ok, st_started = 0, st_rounds =
     [\<lparr>rd_now = 0, rd_guard = 0, rd_event = Pe_frame None, rd_seen = 1\<rparr>,
      \<lparr>rd_now = 1, rd_guard = 1, rd_event = Pe_read (Cl_ok (Cl_text [])), rd_seen = 2\<rparr>,
      \<lparr>rd_now = from_secs 3, rd_guard = from_secs 3, rd_event = Pe_deadline, rd_seen = from_secs 6\<rparr>]\<rparr>"


end
