(* ===== verification/Conformance_Gateways.thy ===== *)
theory Conformance_Gateways
  imports Conformance_Cases Sync_Session Axum_Session
begin

text \<open>
  The close-code cases of the conformance suite against the handlers of the two Rust gateways.
\<close>

subsection \<open>A client's messages at rust-sync\<close>

fun sync_read :: "cl_message \<Rightarrow> ws_read" where
  "sync_read (Cl_text t) = Ws_text t"
| "sync_read (Cl_binary b) = Ws_binary b"
| "sync_read (Cl_close r) = Ws_close"
| "sync_read Cl_other = Ws_control"

text \<open>
  What the client reads for what the gateway writes: \<open>code\<close> is the number of a close code of tungstenite,
  \<open>enc\<close> the encoding of a message.
\<close>

fun sync_event :: "(close_code \<Rightarrow> u16) \<Rightarrow> (gateway_msg \<Rightarrow> string) \<Rightarrow> ws_out \<Rightarrow> cl_event" where
  "sync_event code enc (Out_msg m) = Ev_read (Cl_ok (Cl_text (enc m)))"
| "sync_event code enc (Out_close r) = Ev_read (Cl_ok (Cl_close (map_option (code \<circ> fst) r)))"

text \<open>The socket of a client that sends \<open>sent\<close>, all read by one call of \<open>on_readable\<close>.\<close>

definition sync_socket ::
  "externals \<Rightarrow> (close_code \<Rightarrow> u16) \<Rightarrow> (gateway_msg \<Rightarrow> string) \<Rightarrow> instant \<Rightarrow> conn \<Rightarrow> cl_message list \<Rightarrow> timed_outcome \<times> cl_socket" where
  "sync_socket x code enc now c sent =
     (Call_ok, \<lparr>so_sent = [], so_events =
        (case on_readable x \<lparr>ce_reads = [], ce_write = Ok (), ce_msgs = map (\<lambda>m. (sync_read m, now)) sent,
            ce_flush = Flush_ok, ce_now = now\<rparr> c of
           Panic \<Rightarrow> []
         | Ret (r, c', written, outs, ops) \<Rightarrow> map (sync_event code enc) outs)\<rparr>)"

subsection \<open>A client's messages at rust-axum\<close>

fun ax_received :: "cl_message \<Rightarrow> ws_message" where
  "ax_received (Cl_text t) = Wm_text t"
| "ax_received (Cl_binary b) = Wm_binary b"
| "ax_received (Cl_close r) = Wm_close"
| "ax_received Cl_other = Wm_ping"

definition ax_receive ::
  "(string \<Rightarrow> bool) \<Rightarrow> app_context \<Rightarrow> instant \<Rightarrow> duration \<Rightarrow> cl_message \<Rightarrow> ax_session \<Rightarrow> ax_session" where
  "ax_receive is_start context now jitter m s =
     (case as_phase s of
        Await_start \<Rightarrow> on_first is_start context (Recv_msg (ax_received m)) now jitter s
      | Streaming \<Rightarrow> on_inbound (Recv_msg (ax_received m)) now s
      | Closed \<Rightarrow> s)"

definition ax_socket ::
  "(string \<Rightarrow> bool) \<Rightarrow> app_context \<Rightarrow> instant \<Rightarrow> duration \<Rightarrow> cl_message list \<Rightarrow> timed_outcome \<times> cl_socket" where
  "ax_socket is_start context now jitter sent =
     (Call_ok, \<lparr>so_sent = [], so_events = map (\<lambda>(code, reason). Ev_read (Cl_ok (Cl_close (Some code))))
        (as_close_frames (fold (ax_receive is_start context now jitter) sent session_new))\<rparr>)"

subsection \<open>Both pass\<close>

text \<open>The sockets of the cases: what each sends first, then its offending message.\<close>

definition case_sockets ::
  "(cl_message list \<Rightarrow> timed_outcome \<times> cl_socket) \<Rightarrow> cl_message list \<Rightarrow> (string \<times> string \<times> cl_message) list \<Rightarrow>
     (timed_outcome \<times> cl_socket) list" where
  "case_sockets serve opening cases = map (\<lambda>(send_label, case_label, m). serve (opening @ [m])) cases"

definition closes_with :: "u16 \<Rightarrow> timed_outcome \<times> cl_socket \<Rightarrow> bool" where
  "closes_with code x \<longleftrightarrow> fst x = Call_ok \<and> (\<exists>es. so_events (snd x) = Ev_read (Cl_ok (Cl_close (Some code))) # es)"

lemma close_cases_pass:
  assumes "\<And>s. \<exists>s'. opening s = Some (Ok (), s') \<and> so_events s' = so_events s" and "\<forall>n. ce_send env n = None"
    and "list_all (\<lambda>(send_label, case_label, m). closes_with code (serve (first @ [m]))) cases"
  shows "close_cases env target code opening cases (case_sockets serve first cases) = Some (Ok ())"
  using assms(3)
proof (induction cases)
  case (Cons l cases)
  obtain a b m where l: "l = (a, b, m)" by (cases l)
  obtain s where s: "serve (first @ [m]) = (Call_ok, s)" and c: "closes_with code (Call_ok, s)"
    using Cons.prems by (cases "serve (first @ [m])") (auto simp: l closes_with_def)
  obtain s1 where "opening s = Some (Ok (), s1)" "so_events s1 = so_events s" using assms(1) by blast
  then have "\<exists>s2. close_case env target code opening l Call_ok s = Some (Ok (), s2)"
    using c assms(2) by (auto simp: close_case_def l cl_connect_def cl_send_def on_events_def closes_with_def)
  then obtain s2 where "close_case env target code opening (a, b, m) Call_ok s = Some (Ok (), s2)" by (auto simp: l)
  then show ?case using Cons by (simp add: case_sockets_def l s)
qed (simp add: case_sockets_def)

text \<open>
  C21. Both Rust gateways pass the close-code cases of the conformance suite. On any rust-sync connection
  that finished its upgrade, and on any rust-axum session, a first message that is not the start message is
  answered with a close frame of code 1002, and after the start message a binary frame of any of the tested
  wrong sizes with one of code 1003. The decoders accept the suite's start message and neither of its two
  wrong ones, and tungstenite's two close codes have the numbers of the WebSocket standard.
\<close>

theorem close_codes_conform:
  assumes "\<forall>n. ce_send env n = None"
    and "\<forall>start_ok \<in> {xt_start_ok x, is_start}.
      start_ok (ce_start env) \<and> \<not> start_ok ''not-json'' \<and> \<not> start_ok ''{\"type\":\"stop\"}''"
    and "code Protocol = 1002" and "code Unsupported = 1003" and "cn_ws c \<noteq> None" and "\<not> cn_started c"
  shows "invalid_start_closes env target (case_sockets (sync_socket x code enc now c) [] start_cases) = Some (Ok ()) \<and>
    invalid_frame_closes env target (case_sockets (sync_socket x code enc now c) [Cl_text (ce_start env)] frame_cases) = Some (Ok ()) \<and>
    invalid_start_closes env target (case_sockets (ax_socket is_start context now jitter) [] start_cases) = Some (Ok ()) \<and>
    invalid_frame_closes env target (case_sockets (ax_socket is_start context now jitter) [Cl_text (ce_start env)] frame_cases) =
      Some (Ok ())"
proof (intro conjI)
  obtain fd where fd: "cn_ws c = Some fd" using assms(5) by auto
  have start: "\<exists>s'. send_start env s = Some (Ok (), s') \<and> so_events s' = so_events s" for s
    using assms(1) by (simp add: send_start_def cl_send_def)
  have none: "\<exists>s'. pure_sock (Ok ()) s = Some (Ok (), s') \<and> so_events s' = so_events s" for s by simp
  have wrong: "list_all (\<lambda>(a, b, m). \<exists>n. m = Cl_binary (replicate n 0) \<and> n \<noteq> 640) frame_cases"
    by (simp add: frame_cases_def FRAME_BYTES_def)
  show "invalid_start_closes env target (case_sockets (sync_socket x code enc now c) [] start_cases) = Some (Ok ())"
    unfolding invalid_start_closes_def
    by (rule close_cases_pass [OF none assms(1)])
      (use assms fd in \<open>simp add: start_cases_def closes_with_def sync_socket_def on_readable_def close_ws_def\<close>)
  show "invalid_frame_closes env target (case_sockets (sync_socket x code enc now c) [Cl_text (ce_start env)] frame_cases) = Some (Ok ())"
    unfolding invalid_frame_closes_def
    by (rule close_cases_pass [OF start assms(1)], rule list.pred_mono_strong [OF wrong])
      (use assms fd in \<open>auto simp: closes_with_def sync_socket_def on_readable_def close_ws_def SYNC_FRAME_BYTES_def\<close>)
  show "invalid_start_closes env target (case_sockets (ax_socket is_start context now jitter) [] start_cases) = Some (Ok ())"
    unfolding invalid_start_closes_def
    by (rule close_cases_pass [OF none assms(1)])
      (use assms in \<open>simp add: start_cases_def closes_with_def ax_socket_def ax_receive_def session_new_def on_first_def
        classify_first_message_def send_close_def CLOSE_PROTOCOL_ERROR_def\<close>)
  show "invalid_frame_closes env target (case_sockets (ax_socket is_start context now jitter) [Cl_text (ce_start env)] frame_cases) =
      Some (Ok ())"
    unfolding invalid_frame_closes_def
    by (rule close_cases_pass [OF start assms(1)], rule list.pred_mono_strong [OF wrong])
      (use assms in \<open>auto simp: closes_with_def ax_socket_def ax_receive_def session_new_def on_first_def on_inbound_def
        handle_inbound_def classify_first_message_def send_close_def CLOSE_UNSUPPORTED_DATA_def AX_FRAME_BYTES_def\<close>)
qed

theorem close_codes_conform_witness:
  "\<exists>x code is_start c. invalid_start_closes (suite_env (\<lambda>_. Err [])) \<lparr>tg_name = ''rust'', tg_url = ''ws://rust''\<rparr>
      (case_sockets (sync_socket x code (\<lambda>_. []) 0 c) [] start_cases) = Some (Ok ()) \<and>
    invalid_frame_closes (suite_env (\<lambda>_. Err [])) \<lparr>tg_name = ''rust'', tg_url = ''ws://rust''\<rparr>
      (case_sockets (ax_socket is_start (ax_context (\<lambda>_. None)) 0 0) [Cl_text (ce_start (suite_env (\<lambda>_. Err [])))] frame_cases) = Some (Ok ())"
proof -
  define env where "env = suite_env (\<lambda>_. Err [])"
  define is_start where "is_start t \<longleftrightarrow> t = ce_start env" for t
  define code :: "close_code \<Rightarrow> u16" where "code k = (if k = Protocol then 1002 else 1003)" for k
  define x where "x = \<lparr>xt_accept_key = (\<lambda>_. []), xt_start_ok = is_start, xt_ser_ok = (\<lambda>_. True)\<rparr>"
  define c where "c = (conn_new 0 3 (from_env (\<lambda>_. None)) 0 0)\<lparr>cn_pre := None, cn_ws := Some 3\<rparr>"
  have sends: "\<forall>n. ce_send env n = None" by (simp add: env_def suite_env_def)
  have starts: "\<forall>start_ok \<in> {xt_start_ok x, is_start}.
      start_ok (ce_start env) \<and> \<not> start_ok ''not-json'' \<and> \<not> start_ok ''{\"type\":\"stop\"}''"
    by (simp add: x_def is_start_def env_def suite_env_def)
  have codes: "code Protocol = 1002" "code Unsupported = 1003" by (simp_all add: code_def)
  have conn: "cn_ws c \<noteq> None" "\<not> cn_started c" by (simp_all add: c_def conn_new_def Let_def)
  note ok = close_codes_conform [OF sends starts codes conn]
  show ?thesis
    using conjunct1 [OF ok] conjunct2 [OF conjunct2 [OF conjunct2 [OF ok]]] unfolding env_def
    by (intro exI [of _ x] exI [of _ code] exI [of _ is_start] exI [of _ c] conjI)
qed

end
