(* ===== verification/Inferbench.thy ===== *)
theory Inferbench
  imports Loadgen_Output Rust_F64 "HOL-Library.Multiset"
begin

text \<open>
  The inference benchmark: \<open>loadgen/rust/src/inferbench.rs\<close> and \<open>loadgen/rust/src/bin/stt-inferbench.rs\<close>,
  which posts batches straight to the inference server, either with a fixed number of workers (closed loop)
  or at a fixed rate (open loop). The two loops are step relations over the tasks they spawn; reqwest's
  outcome of a request is an argument of the step, the histogram is the crate hdrhistogram's.
\<close>

subsection \<open>Results and the summary\<close>

definition DEFAULT_INFERENCE_FRAMES :: usize where
  "DEFAULT_INFERENCE_FRAMES = 50"

datatype bench_error_kind = Be_connect | Be_timeout | Be_http_status | Be_request

record bench_error_counts =
  bc_connect :: u64
  bc_timeout :: u64
  bc_http_status :: u64
  bc_request :: u64

definition error_counts_total :: "bench_error_counts \<Rightarrow> u64" where
  "error_counts_total c = bc_connect c + bc_timeout c + bc_http_status c + bc_request c"

record bench_error =
  be_kind :: bench_error_kind
  be_message :: string

type_synonym bench_result = "(u64, bench_error) result"

record 'h bench_summary =
  bs_completed :: u64
  bs_errors :: bench_error_counts
  bs_error_samples :: "string list"
  bs_latency_us :: 'h

definition summary_default :: "'h hdr \<Rightarrow> 'h bench_summary" where
  "summary_default hl =
     \<lparr>bs_completed = 0, bs_errors = \<lparr>bc_connect = 0, bc_timeout = 0, bc_http_status = 0, bc_request = 0\<rparr>,
      bs_error_samples = [], bs_latency_us = hd_new hl\<rparr>"

fun count_error :: "bench_error_kind \<Rightarrow> bench_error_counts \<Rightarrow> bench_error_counts" where
  "count_error Be_connect c = c\<lparr>bc_connect := bc_connect c + 1\<rparr>"
| "count_error Be_timeout c = c\<lparr>bc_timeout := bc_timeout c + 1\<rparr>"
| "count_error Be_http_status c = c\<lparr>bc_http_status := bc_http_status c + 1\<rparr>"
| "count_error Be_request c = c\<lparr>bc_request := bc_request c + 1\<rparr>"

definition summary_record :: "'h hdr \<Rightarrow> bench_result \<Rightarrow> 'h bench_summary \<Rightarrow> 'h bench_summary rust" where
  "summary_record hl r su =
     (case r of
        Ok latency_us \<Rightarrow>
          (case hd_record hl latency_us (bs_latency_us su) of
             None \<Rightarrow> Panic
           | Some h \<Rightarrow> Ret (su\<lparr>bs_completed := bs_completed su + 1, bs_latency_us := h\<rparr>))
      | Err e \<Rightarrow>
          Ret (su\<lparr>bs_errors := count_error (be_kind e) (bs_errors su),
                  bs_error_samples :=
                    (if length (bs_error_samples su) < 5 then bs_error_samples su @ [be_message e] else bs_error_samples su)\<rparr>))"

definition attempted :: "'h bench_summary \<Rightarrow> u64" where
  "attempted su = bs_completed su + error_counts_total (bs_errors su)"

definition us_to_ms :: "u64 \<Rightarrow> f64" where
  "us_to_ms v = f64_div (f64_of_int (uint v)) (f64_of_int 1000)"

definition from_histogram :: "histogram \<Rightarrow> percentiles" where
  "from_histogram h =
     (if hi_len h = 0
      then \<lparr>pe_p50_ms = f64_zero, pe_p95_ms = f64_zero, pe_p99_ms = f64_zero, pe_p999_ms = f64_zero, pe_max_ms = f64_zero\<rparr>
      else \<lparr>pe_p50_ms = us_to_ms (hi_value_at_quantile h (round_ratio 50 100)),
            pe_p95_ms = us_to_ms (hi_value_at_quantile h (round_ratio 95 100)),
            pe_p99_ms = us_to_ms (hi_value_at_quantile h (round_ratio 99 100)),
            pe_p999_ms = us_to_ms (hi_value_at_quantile h (round_ratio 999 1000)),
            pe_max_ms = us_to_ms (hi_max h)\<rparr>)"

definition latency_percentiles :: "'h hdr \<Rightarrow> 'h bench_summary \<Rightarrow> percentiles" where
  "latency_percentiles hl su = from_histogram (hd_read hl (bs_latency_us su))"

definition inference_payload :: "usize \<Rightarrow> bytes" where
  "inference_payload n = concat (map (frame_payload 0) (range_seqs 1 n))"

fun collect_from :: "'h hdr \<Rightarrow> bench_result list \<Rightarrow> 'h bench_summary \<Rightarrow> 'h bench_summary rust" where
  "collect_from hl [] su = Ret su"
| "collect_from hl (r # rs) su =
     (case summary_record hl r su of Panic \<Rightarrow> Panic | Ret su' \<Rightarrow> collect_from hl rs su')"

definition collect_results :: "'h hdr \<Rightarrow> bench_result list \<Rightarrow> 'h bench_summary rust" where
  "collect_results hl rs = collect_from hl rs (summary_default hl)"

subsection \<open>Arguments\<close>

record bench_args =
  ib_url :: string
  ib_concurrency :: usize
  ib_clients :: usize
  ib_rps :: "f64 option"
  ib_duration_secs :: u64
  ib_payload_frames :: usize
  ib_cpu_passes :: u32
  ib_timeout_ms :: u64
  ib_connect_timeout_ms :: u64

definition bench_defaults :: "string \<Rightarrow> bench_args" where
  "bench_defaults url =
     \<lparr>ib_url = url, ib_concurrency = 64, ib_clients = 4, ib_rps = None, ib_duration_secs = 30,
      ib_payload_frames = DEFAULT_INFERENCE_FRAMES, ib_cpu_passes = 4, ib_timeout_ms = 2000, ib_connect_timeout_ms = 1000\<rparr>"

definition validate_args :: "bench_args \<Rightarrow> (unit, string) result" where
  "validate_args args =
     (if ib_concurrency args = 0 then Err ''--concurrency must be > 0''
      else if ib_clients args = 0 then Err ''--clients must be > 0''
      else if ib_duration_secs args = 0 then Err ''--duration-secs must be > 0''
      else if ib_payload_frames args = 0 then Err ''--payload-frames must be > 0''
      else case ib_rps args of
             Some rps \<Rightarrow> if \<not> is_finite rps \<or> f64_le rps f64_zero then Err ''--rps must be a finite positive number'' else Ok ()
           | None \<Rightarrow> Ok ())"

subsection \<open>One request\<close>

text \<open>reqwest's errors, and the outcome of a request: a status, the status as printed, and reading the body.\<close>

record bench_req_error =
  bq_is_timeout :: bool
  bq_is_connect :: bool
  bq_debug :: string

datatype bench_outcome = Bo_failed bench_req_error | Bo_response u16 string "(unit, bench_req_error) result"

definition classify_reqwest_error :: "bench_req_error \<Rightarrow> bench_error" where
  "classify_reqwest_error e =
     (if bq_is_timeout e then \<lparr>be_kind = Be_timeout, be_message = bq_debug e\<rparr>
      else if bq_is_connect e then \<lparr>be_kind = Be_connect, be_message = bq_debug e\<rparr>
      else \<lparr>be_kind = Be_request, be_message = bq_debug e\<rparr>)"

definition send_infer :: "bench_outcome \<Rightarrow> instant \<Rightarrow> instant \<Rightarrow> bench_result" where
  "send_infer out started now =
     (case out of
        Bo_failed e \<Rightarrow> Err (classify_reqwest_error e)
      | Bo_response status shown body \<Rightarrow>
          if \<not> (200 \<le> status \<and> status < 300) then Err \<lparr>be_kind = Be_http_status, be_message = ''HTTP '' @ shown\<rparr>
          else (case body of
                  Err e \<Rightarrow> Err (classify_reqwest_error e)
                | Ok _ \<Rightarrow> Ok (of_nat (min (as_micros (now - started)) (2 ^ 64 - 1)))))"

text \<open>\<open>clients[id % clients.len()]\<close>\<close>

definition bench_client :: "bench_args \<Rightarrow> nat \<Rightarrow> nat rust" where
  "bench_client args n = (if ib_clients args = 0 then Panic else Ret (n mod unat (ib_clients args)))"

subsection \<open>The closed loop\<close>

datatype bench_worker = Bw_idle | Bw_busy instant | Bw_sending bench_result | Bw_done

text \<open>\<open>cw_begun\<close>, the number of requests begun, is for the statements only.\<close>

record closed_loop =
  cw_deadline :: instant
  cw_workers :: "bench_worker list"
  cw_results :: "bench_result list"
  cw_begun :: nat

definition closed_loop_init :: "bench_args \<Rightarrow> instant \<Rightarrow> closed_loop" where
  "closed_loop_init args now =
     \<lparr>cw_deadline = now + from_secs (unat (ib_duration_secs args)),
      cw_workers = replicate (unat (ib_concurrency args)) Bw_idle, cw_results = [], cw_begun = 0\<rparr>"

inductive closed_step :: "closed_loop \<Rightarrow> closed_loop \<Rightarrow> bool" where
  begun: "closed_step s (s\<lparr>cw_workers := (cw_workers s)[i := Bw_busy started], cw_begun := cw_begun s + 1\<rparr>)"
  if "i < length (cw_workers s)" and "cw_workers s ! i = Bw_idle" and "now < cw_deadline s" and "now \<le> started"
| answered: "closed_step s (s\<lparr>cw_workers := (cw_workers s)[i := Bw_sending (send_infer out started now)]\<rparr>)"
  if "i < length (cw_workers s)" and "cw_workers s ! i = Bw_busy started" and "started \<le> now"
| sent: "closed_step s (s\<lparr>cw_workers := (cw_workers s)[i := Bw_idle], cw_results := cw_results s @ [r]\<rparr>)"
  if "i < length (cw_workers s)" and "cw_workers s ! i = Bw_sending r"
| stopped: "closed_step s (s\<lparr>cw_workers := (cw_workers s)[i := Bw_done]\<rparr>)"
  if "i < length (cw_workers s)" and "cw_workers s ! i = Bw_idle" and "cw_deadline s \<le> now"

subsection \<open>The open loop\<close>

text \<open>\<open>x.floor() as u64\<close>: the conversion saturates.\<close>

fun f64_floor_u64 :: "f64 \<Rightarrow> u64" where
  "f64_floor_u64 (Finite m e) = of_nat (min (nat (fin_num m e) div fin_den e) (2 ^ 64 - 1))"
| "f64_floor_u64 (Infinity neg) = (if neg then 0 else - 1)"
| "f64_floor_u64 NaN = 0"

text \<open>\<open>Duration::mul_f64\<close>\<close>

definition mul_f64 :: "duration \<Rightarrow> f64 \<Rightarrow> duration rust" where
  "mul_f64 d x = from_secs_f64 (f64_mul x (as_secs_f64 d))"

text \<open>A spawned request: its number, its client, and when it was sent.\<close>

record bench_task =
  bt_id :: nat
  bt_client :: nat
  bt_started :: instant

text \<open>
  \<open>ol_tasks\<close> are the requests in flight, each with a permit of the semaphore; \<open>ol_released\<close> those that gave
  their permit back and have not yet sent their result; \<open>ol_panicked\<close> that the loop panicked.
\<close>

record open_loop =
  ol_requests :: u64
  ol_interval :: duration
  ol_start :: instant
  ol_next :: nat
  ol_permits :: nat
  ol_tasks :: "bench_task list"
  ol_released :: "(nat \<times> bench_result) list"
  ol_results :: "(nat \<times> bench_result) list"
  ol_panicked :: bool

text \<open>A semaphore of tokio takes at most \<open>max_permits\<close> permits.\<close>

definition open_loop_init :: "nat \<Rightarrow> bench_args \<Rightarrow> f64 \<Rightarrow> instant \<Rightarrow> open_loop rust" where
  "open_loop_init max_permits args rps start =
     (let requests = f64_floor_u64 (f64_mul rps (as_secs_f64 (from_secs (unat (ib_duration_secs args)))))
      in case from_secs_f64 (f64_div (f64_of_int 1) rps) of
           Panic \<Rightarrow> Panic
         | Ret interval \<Rightarrow>
             if max_permits < unat (ib_concurrency args) then Panic
             else Ret \<lparr>ol_requests = requests, ol_interval = interval, ol_start = start, ol_next = 0,
                       ol_permits = unat (ib_concurrency args), ol_tasks = [], ol_released = [], ol_results = [],
                       ol_panicked = False\<rparr>)"

inductive open_step :: "bench_args \<Rightarrow> open_loop \<Rightarrow> open_loop \<Rightarrow> bool" for args where
  spawned: "open_step args s (s\<lparr>ol_next := ol_next s + 1, ol_permits := ol_permits s - 1,
      ol_tasks := ol_tasks s @ [\<lparr>bt_id = ol_next s, bt_client = k, bt_started = started\<rparr>]\<rparr>)"
  if "\<not> ol_panicked s" and "ol_next s < unat (ol_requests s)"
    and "mul_f64 (ol_interval s) (f64_of_int (int (ol_next s))) = Ret off" and "ol_start s + off \<le> started"
    and "0 < ol_permits s" and "bench_client args (ol_next s) = Ret k"
| panicked: "open_step args s (s\<lparr>ol_panicked := True\<rparr>)"
  if "\<not> ol_panicked s" and "ol_next s < unat (ol_requests s)"
    and "mul_f64 (ol_interval s) (f64_of_int (int (ol_next s))) = Panic \<or> bench_client args (ol_next s) = Panic"
| answered: "open_step args s (s\<lparr>ol_tasks := xs @ ys, ol_permits := ol_permits s + 1,
      ol_released := ol_released s @ [(bt_id t, send_infer out (bt_started t) now)]\<rparr>)"
  if "\<not> ol_panicked s" and "ol_tasks s = xs @ t # ys" and "bt_started t \<le> now"
| sent: "open_step args s (s\<lparr>ol_released := xs @ ys, ol_results := ol_results s @ [r]\<rparr>)"
  if "\<not> ol_panicked s" and "ol_released s = xs @ r # ys"

text \<open>\<open>run_open_loop\<close> has returned: every request was spawned, and every task joined.\<close>

definition open_loop_done :: "open_loop \<Rightarrow> bool" where
  "open_loop_done s \<longleftrightarrow> \<not> ol_panicked s \<and> ol_next s = unat (ol_requests s) \<and> ol_tasks s = [] \<and> ol_released s = []"

subsection \<open>The output\<close>

text \<open>\<open>bo_args\<close> are the fields copied from the arguments.\<close>

record bench_output =
  bo_mode :: string
  bo_args :: bench_args
  bo_payload_bytes :: usize
  bo_attempted :: u64
  bo_completed :: u64
  bo_errors :: bench_error_counts
  bo_error_samples :: "string list"
  bo_attempted_rps :: f64
  bo_completed_rps :: f64
  bo_latency :: percentiles

definition output_of :: "'h hdr \<Rightarrow> bench_args \<Rightarrow> 'h bench_summary \<Rightarrow> duration \<Rightarrow> bench_output" where
  "output_of hl args su elapsed =
     \<lparr>bo_mode = (if ib_rps args \<noteq> None then ''open_loop'' else ''closed_loop''), bo_args = args,
      bo_payload_bytes = of_nat (length (inference_payload (ib_payload_frames args))),
      bo_attempted = attempted su, bo_completed = bs_completed su, bo_errors = bs_errors su,
      bo_error_samples = bs_error_samples su,
      bo_attempted_rps = f64_div (f64_of_int (uint (attempted su))) (as_secs_f64 elapsed),
      bo_completed_rps = f64_div (f64_of_int (uint (bs_completed su))) (as_secs_f64 elapsed),
      bo_latency = latency_percentiles hl su\<rparr>"

subsection \<open>What the summary counts\<close>

fun kind_count :: "bench_error_kind \<Rightarrow> bench_error_counts \<Rightarrow> u64" where
  "kind_count Be_connect c = bc_connect c"
| "kind_count Be_timeout c = bc_timeout c"
| "kind_count Be_http_status c = bc_http_status c"
| "kind_count Be_request c = bc_request c"

fun succeeded :: "bench_result \<Rightarrow> bool" where
  "succeeded (Ok v) = True"
| "succeeded (Err e) = False"

fun failed_with :: "bench_error_kind \<Rightarrow> bench_result \<Rightarrow> bool" where
  "failed_with k (Ok v) = False"
| "failed_with k (Err e) = (be_kind e = k)"

definition messages_of :: "bench_result list \<Rightarrow> string list" where
  "messages_of rs = concat (map (\<lambda>r. case r of Ok v \<Rightarrow> [] | Err e \<Rightarrow> [be_message e]) rs)"

lemma kind_count_error [simp]:
  "kind_count k (count_error k' c) = kind_count k c + (if k' = k then 1 else 0)"
  "error_counts_total (count_error k' c) = error_counts_total c + 1"
  by (cases k; cases k'; simp add: error_counts_total_def)+

lemma summary_record_exact:
  assumes "summary_record hl r su = Ret su'" and "length (bs_error_samples su) \<le> 5"
  shows "bs_completed su' = bs_completed su + (if succeeded r then 1 else 0)"
    and "kind_count k (bs_errors su') = kind_count k (bs_errors su) + (if failed_with k r then 1 else 0)"
    and "attempted su' = attempted su + 1"
    and "bs_error_samples su' = take 5 (bs_error_samples su @ messages_of [r])"
  using assms by (auto simp: summary_record_def attempted_def messages_of_def split: sum.splits option.splits)

lemma messages_of_append [simp]: "messages_of (xs @ ys) = messages_of xs @ messages_of ys"
  by (simp add: messages_of_def)

lemma take_five: "take 5 (take 5 xs @ ys) = take 5 (xs @ ys)"
  by (cases "length xs \<le> 5") simp_all

lemma collect_from_exact:
  assumes "collect_from hl rs su = Ret su'" and "length (bs_error_samples su) \<le> 5"
  shows "bs_completed su' = bs_completed su + of_nat (length (filter succeeded rs)) \<and>
    (\<forall>k. kind_count k (bs_errors su') = kind_count k (bs_errors su) + of_nat (length (filter (failed_with k) rs))) \<and>
    attempted su' = attempted su + of_nat (length rs) \<and>
    bs_error_samples su' = take 5 (bs_error_samples su @ messages_of rs)"
  using assms
proof (induction rs arbitrary: su)
  case Nil
  then show ?case by (simp add: messages_of_def)
next
  case (Cons r rs)
  obtain s1 where s1: "summary_record hl r su = Ret s1" "collect_from hl rs s1 = Ret su'"
    using Cons.prems(1) by (auto split: rust.splits)
  note one = summary_record_exact [OF s1(1) Cons.prems(2)]
  have "length (bs_error_samples s1) \<le> 5" by (simp only: one(4) length_take min.cobounded2)
  note rest = Cons.IH [OF s1(2) this]
  have "messages_of (r # rs) = messages_of [r] @ messages_of rs" by (simp add: messages_of_def)
  then have "bs_error_samples su' = take 5 (bs_error_samples su @ messages_of (r # rs))"
    using rest by (simp only: one(4) take_five append_assoc)
  then show ?case using rest by (simp add: one(1-3) add_ac)
qed

lemma collect_results_exact:
  assumes "collect_results hl rs = Ret su"
  shows "bs_completed su = of_nat (length (filter succeeded rs))"
    and "kind_count k (bs_errors su) = of_nat (length (filter (failed_with k) rs))"
    and "attempted su = of_nat (length rs)" and "bs_error_samples su = take 5 (messages_of rs)"
proof -
  have z: "kind_count k (bs_errors (summary_default hl)) = 0" "attempted (summary_default hl) = 0"
      "bs_completed (summary_default hl) = 0" "bs_error_samples (summary_default hl) = []" for k
    by (cases k; simp add: summary_default_def attempted_def error_counts_total_def)+
  show "bs_completed su = of_nat (length (filter succeeded rs))"
    and "kind_count k (bs_errors su) = of_nat (length (filter (failed_with k) rs))"
    and "attempted su = of_nat (length rs)" and "bs_error_samples su = take 5 (messages_of rs)"
    using collect_from_exact [OF assms [unfolded collect_results_def]] by (simp_all add: z)
qed

text \<open>Nothing panics as long as the histogram takes every latency.\<close>

lemma collect_results_total:
  assumes "\<forall>v h. Ok v \<in> set rs \<longrightarrow> hd_record hl v h \<noteq> None"
  shows "\<exists>su. collect_results hl rs = Ret su"
proof -
  have "\<exists>su'. collect_from hl rs su = Ret su'" for su
    using assms
  proof (induction rs arbitrary: su)
    case (Cons r rs)
    have "\<exists>s1. summary_record hl r su = Ret s1"
    proof (cases r)
      case (Inr v)
      then have "hd_record hl v (bs_latency_us su) \<noteq> None" using Cons.prems by simp
      then show ?thesis by (auto simp: summary_record_def Inr)
    qed (simp add: summary_record_def)
    then obtain s1 where "summary_record hl r su = Ret s1" by blast
    then show ?case using Cons by simp
  qed simp
  then show ?thesis by (simp add: collect_results_def)
qed

subsection \<open>The closed loop loses nothing\<close>

fun worker_holds :: "bench_worker \<Rightarrow> nat" where
  "worker_holds Bw_idle = 0"
| "worker_holds (Bw_busy t) = 1"
| "worker_holds (Bw_sending r) = 1"
| "worker_holds Bw_done = 0"

lemma sum_list_swap: "i < length xs \<Longrightarrow> sum_list (map f (xs[i := y])) + f (xs ! i) = sum_list (map f xs) + (f y :: nat)"
proof (induction xs arbitrary: i)
  case (Cons x xs)
  then show ?case by (cases i) fastforce+
qed simp

lemma closed_step_keeps:
  assumes "closed_step\<^sup>*\<^sup>* (closed_loop_init args now) s"
  shows "length (cw_workers s) = unat (ib_concurrency args) \<and>
    cw_begun s = length (cw_results s) + sum_list (map worker_holds (cw_workers s))"
  using assms
proof (induction rule: rtranclp_induct)
  case base
  then show ?case by (simp add: closed_loop_init_def sum_list_replicate)
next
  case (step s s')
  from step(2) show ?case
  proof cases
    case (begun i now started)
    then show ?thesis using step(3) sum_list_swap [OF begun(2), of worker_holds "Bw_busy started"] by simp
  next
    case (answered i started now out)
    then show ?thesis using step(3) sum_list_swap [OF answered(2), of worker_holds "Bw_sending (send_infer out started now)"] by simp
  next
    case (sent i r)
    then show ?thesis using step(3) sum_list_swap [OF sent(2), of worker_holds Bw_idle] by simp
  next
    case (stopped i now)
    then show ?thesis using step(3) sum_list_swap [OF stopped(2), of worker_holds Bw_done] by simp
  qed
qed

subsection \<open>The open loop\<close>

definition request_ids :: "open_loop \<Rightarrow> nat list" where
  "request_ids s = map bt_id (ol_tasks s) @ map fst (ol_released s) @ map fst (ol_results s)"

definition open_inv :: "bench_args \<Rightarrow> open_loop \<Rightarrow> bool" where
  "open_inv args s \<longleftrightarrow>
     ol_permits s + length (ol_tasks s) = unat (ib_concurrency args) \<and> ol_next s \<le> unat (ol_requests s) \<and>
     mset (request_ids s) = mset [0..<ol_next s] \<and>
     list_all (\<lambda>t. bench_client args (bt_id t) = Ret (bt_client t) \<and> ol_start s \<le> bt_started t) (ol_tasks s)"

lemma open_step_inv: "open_step args s s' \<Longrightarrow> open_inv args s \<Longrightarrow> open_inv args s'"
  by (induction rule: open_step.induct) (auto simp: open_inv_def request_ids_def)

lemma open_step_const: "open_step args s s' \<Longrightarrow> ol_requests s' = ol_requests s"
  by (induction rule: open_step.induct) simp_all

lemma open_reachable_inv:
  assumes "(open_step args)\<^sup>*\<^sup>* s0 s" and "open_loop_init mp args rps start = Ret s0"
  shows "open_inv args s" and "ol_requests s = ol_requests s0"
proof -
  have "open_inv args s0"
    using assms(2) by (auto simp: open_loop_init_def open_inv_def request_ids_def Let_def split: rust.splits if_splits)
  with assms(1) show "open_inv args s" by (induction rule: rtranclp_induct) (auto intro: open_step_inv)
  from assms(1) show "ol_requests s = ol_requests s0" by (induction rule: rtranclp_induct) (auto dest: open_step_const)
qed

text \<open>
  C26. The open loop of the inference benchmark accounts for every request. In every reachable state the
  permits left and the requests in flight add up to the concurrency, and every request spawned so far is
  exactly one of: in flight, answered, or reported. When the loop has returned, the summary made of the
  reported results says that it attempted the number of requests the rate asks for, counts the successes and
  each kind of failure exactly, and keeps the first five messages.
\<close>

theorem open_loop_exact:
  assumes "open_loop_init mp args rps start = Ret s0" and "(open_step args)\<^sup>*\<^sup>* s0 s"
  shows "ol_permits s + length (ol_tasks s) = unat (ib_concurrency args) \<and> mset (request_ids s) = mset [0..<ol_next s] \<and>
    (open_loop_done s \<and> collect_results hl (map snd (ol_results s)) = Ret su \<longrightarrow>
       attempted su = f64_floor_u64 (f64_mul rps (as_secs_f64 (from_secs (unat (ib_duration_secs args))))) \<and>
       bs_completed su = of_nat (length (filter (succeeded \<circ> snd) (ol_results s))) \<and>
       (\<forall>k. kind_count k (bs_errors su) = of_nat (length (filter (failed_with k \<circ> snd) (ol_results s)))) \<and>
       bs_error_samples su = take 5 (messages_of (map snd (ol_results s))))"
proof -
  note inv = open_reachable_inv [OF assms(2,1)]
  have q: "ol_requests s0 = f64_floor_u64 (f64_mul rps (as_secs_f64 (from_secs (unat (ib_duration_secs args)))))"
    using assms(1) by (auto simp: open_loop_init_def Let_def split: rust.splits if_splits)
  have "of_nat (length (ol_results s)) = ol_requests s" if "open_loop_done s"
  proof -
    have "mset (map fst (ol_results s)) = mset [0..<unat (ol_requests s)]"
      using inv(1) that by (simp add: open_inv_def open_loop_done_def request_ids_def)
    from arg_cong [OF this, of size] have "length (ol_results s) = unat (ol_requests s)" by simp
    then show ?thesis by simp
  qed
  then show ?thesis
    using inv q by (auto simp: open_inv_def collect_results_exact filter_map)
qed

text \<open>
  C40. A rate that is too small is accepted and then panics. Every rate between \<open>2 powr -1000\<close> and
  \<open>2 powr -65\<close> requests per second passes \<open>validate_args\<close>, as a finite positive number, but the interval between
  two requests, its inverse, is more seconds than a \<open>Duration\<close> holds, and \<open>Duration::from_secs_f64\<close> panics.
\<close>

theorem tiny_rps_panics:
  assumes "ib_rps args = Some rps" and "2 powr (- 1000) \<le> f64_val rps" and "f64_val rps \<le> 2 powr (- 65)"
    and "ib_concurrency args \<noteq> 0" and "ib_clients args \<noteq> 0" and "ib_duration_secs args \<noteq> 0" and "ib_payload_frames args \<noteq> 0"
  shows "validate_args args = Ok () \<and> open_loop_init mp args rps start = Panic"
proof
  have pos: "0 < f64_val rps" using assms(2) by (rule less_le_trans [rotated]) simp
  obtain m e where rps: "rps = Finite m e" using pos by (cases rps) auto
  have "0 < m" using pos unfolding rps f64_val_pos_iff .
  then have "0 < fin_num m e * int (fin_den (- 1074))" by (simp add: fin_num_def zero_less_mult_iff)
  then have "\<not> f64_le rps f64_zero" by (simp add: rps f64_zero_def fin_num_def not_le)
  then show "validate_args args = Ok ()" using assms by (simp add: validate_args_def rps)
  have one: "f64_val (f64_of_int 1) = 1" "is_finite (f64_of_int 1)" using f64_of_int_exact [of 1] by simp_all
  define y where "y = f64_div (f64_of_int 1) rps"
  define q where "q = 1 / f64_val rps"
  have q: "2 powr 65 \<le> q" "q \<le> 2 powr 1000"
    using assms(2,3) pos by (simp_all add: q_def powr_minus field_simps)
  have "2 powr (- 1000) \<le> q" using q(1) by (rule order_trans [rotated]) (simp add: powr_minus powr_numeral)
  note y = f64_div_relerr [of "f64_of_int 1" rps, unfolded one(1), folded q_def y_def, OF zero_less_one pos this q(2)]
  have "q - q * 2 powr (- 53) \<le> f64_val y" using y(4) by linarith
  moreover have "q / 2 \<le> q - q * 2 powr (- 53)" using q by (simp add: powr_minus powr_numeral field_simps)
  moreover have "2 powr 64 \<le> q / 2" using q(1) by (simp add: powr_numeral)
  ultimately have "2 powr 64 \<le> f64_val y" by linarith
  then have big: "2 ^ 64 \<le> f64_val y" by (simp add: powr_numeral)
  have "from_secs_f64 y = Panic"
  proof (cases "from_secs_f64 y")
    case (Ret d)
    note near = from_secs_f64_near [OF this]
    have "d + 1 \<le> 2 ^ 64 * 10 ^ 9" using near(3) by simp
    then have "real (d + 1) \<le> real (2 ^ 64 * 10 ^ 9)" by (rule of_nat_mono)
    then have "real d + 1 \<le> 2 ^ 64 * 10 ^ 9" by simp
    moreover have "2 ^ 64 * 10 ^ 9 \<le> f64_val y * 10 ^ 9" using big by simp
    moreover have "f64_val y * 10 ^ 9 - 1 / 2 \<le> real d" using near(1) by linarith
    ultimately show ?thesis by simp
  qed
  then show "open_loop_init mp args rps start = Panic" by (simp add: open_loop_init_def y_def)
qed

theorem tiny_rps_panics_witness:
  "validate_args ((bench_defaults ''http://localhost/infer'')\<lparr>ib_rps := Some (Finite (2 ^ 52) (- 152))\<rparr>) = Ok () \<and>
   open_loop_init 1000 ((bench_defaults ''http://localhost/infer'')\<lparr>ib_rps := Some (Finite (2 ^ 52) (- 152))\<rparr>)
     (Finite (2 ^ 52) (- 152)) 0 = Panic"
proof (rule tiny_rps_panics)
  have "f64_val (Finite (2 ^ 52) (- 152)) = 2 powr (52 + - 152)" unfolding powr_add by (simp add: powr_numeral)
  then have v: "f64_val (Finite (2 ^ 52) (- 152)) = 2 powr (- 100)" by simp
  show "2 powr (- 1000) \<le> f64_val (Finite (2 ^ 52) (- 152))" "f64_val (Finite (2 ^ 52) (- 152)) \<le> 2 powr (- 65)"
    unfolding v by simp_all
qed (simp_all add: bench_defaults_def DEFAULT_INFERENCE_FRAMES_def)

subsection \<open>One request, start to end\<close>

lemma f64_one: "f64_of_int 1 = Finite 4503599627370496 (- 52)" "f64_div (Finite 4503599627370496 (- 52)) (Finite 4503599627370496 (- 52)) = Finite 4503599627370496 (- 52)"
  "f64_mul (Finite 4503599627370496 (- 52)) (Finite 4503599627370496 (- 52)) = Finite 4503599627370496 (- 52)"
proof -
  have "round_ratio 1 1 = Finite (int (2 ^ 52)) (- 52)"
  proof (rule round_ratio_eval)
    show "bits (nat 1) = 1" "bits 1 = 1" by (simp_all add: bits_one)
  qed (simp_all add: scale_num_def scale_den_def rne_def Let_def)
  then show "f64_of_int 1 = Finite 4503599627370496 (- 52)" by (simp add: f64_of_int_def)
  have "round_ratio (2 ^ 52 * 2 ^ 52) (2 ^ 52 * 2 ^ 52) = Finite (int (2 ^ 52)) (- 52)"
  proof (rule round_ratio_eval)
    show "bits (nat (2 ^ 52 * 2 ^ 52)) = 105" "bits (2 ^ 52 * 2 ^ 52) = 105" by (simp_all add: bits.simps)
  qed (simp_all add: scale_num_def scale_den_def rne_def Let_def)
  then show "f64_div (Finite 4503599627370496 (- 52)) (Finite 4503599627370496 (- 52)) = Finite 4503599627370496 (- 52)"
    "f64_mul (Finite 4503599627370496 (- 52)) (Finite 4503599627370496 (- 52)) = Finite 4503599627370496 (- 52)"
    by (simp_all add: fin_num_def fin_den_def)
qed

lemma bits_pow: "bits (2 ^ n) = n + 1"
  by (induction n) (simp_all add: bits.simps)

lemma one_second: "as_secs_f64 1000000000 = Finite 4503599627370496 (- 52)"
proof -
  have "round_ratio 1000000000 1 = Finite (int 8388608000000000) (- 23)"
  proof (rule round_ratio_eval)
    show "bits (nat 1000000000) = 30" "bits 1 = 1" by (simp_all add: bits.simps)
  qed (simp_all add: scale_num_def scale_den_def rne_def Let_def)
  then have z: "f64_div (f64_of_int 0) (f64_of_int 1000000000) = f64_zero"
    by (simp add: f64_of_int_def round_ratio_def f64_zero_def fin_num_def)
  have "round_ratio (2 ^ 1126) (2 ^ 1126) = Finite (int (2 ^ 52)) (- 52)"
  proof (rule round_ratio_eval)
    show "bits (nat (2 ^ 1126)) = 1127" "bits (2 ^ 1126) = 1127" using bits_pow [of 1126] by (simp_all add: nat_power_eq)
  qed (simp_all add: scale_num_def scale_den_def rne_def Let_def)
  then have "f64_add (Finite 4503599627370496 (- 52)) f64_zero = Finite 4503599627370496 (- 52)"
    by (simp add: f64_zero_def fin_num_def fin_den_def)
  then show ?thesis using f64_one(1) by (simp add: as_secs_f64_def z)
qed

definition one_request :: bench_args where
  "one_request = (bench_defaults ''http://localhost/infer'')\<lparr>ib_rps := Some (f64_of_int 1), ib_duration_secs := 1\<rparr>"

theorem open_loop_exact_witness:
  "\<exists>s0 s su. open_loop_init 1000 one_request (f64_of_int 1) 0 = Ret s0 \<and> (open_step one_request)\<^sup>*\<^sup>* s0 s \<and> open_loop_done s \<and>
     collect_results list_hdr (map snd (ol_results s)) = Ret su \<and> bs_completed su = 1 \<and>
     attempted su = f64_floor_u64 (f64_mul (f64_of_int 1) (as_secs_f64 (from_secs 1)))"
proof -
  define s0 where "s0 = \<lparr>ol_requests = 1, ol_interval = 1000000000, ol_start = 0, ol_next = 0, ol_permits = 64, ol_tasks = [],
    ol_released = [], ol_results = [], ol_panicked = False\<rparr>"
  define r where "r = send_infer (Bo_response 200 ''200 OK'' (Ok ())) 0 5000"
  define s where "s = s0\<lparr>ol_next := 1, ol_results := [(0, r)]\<rparr>"
  have i: "open_loop_init 1000 one_request (f64_of_int 1) 0 = Ret s0"
    by (simp add: open_loop_init_def one_request_def bench_defaults_def from_secs_def one_second f64_one from_secs_f64_def s0_def
        fin_num_def fin_den_def rne_def Let_def del: f64_mul.simps f64_div.simps)
  have off: "mul_f64 1000000000 (f64_of_int 0) = Ret 0"
    by (simp add: mul_f64_def one_second f64_of_int_def round_ratio_def f64_zero_def fin_num_def from_secs_f64_def rne_def Let_def)
  define s1 where "s1 = s0\<lparr>ol_next := 1, ol_permits := 63, ol_tasks := [\<lparr>bt_id = 0, bt_client = 0, bt_started = 0\<rparr>]\<rparr>"
  define s2 where "s2 = s0\<lparr>ol_next := 1, ol_released := [(0, r)]\<rparr>"
  have "open_step one_request s0 s1"
    using open_step.spawned [of s0 0 0 one_request 0] off
    by (simp add: s0_def s1_def bench_client_def one_request_def bench_defaults_def)
  moreover have "open_step one_request s1 s2"
    using open_step.answered [of s1 "[]" "\<lparr>bt_id = 0, bt_client = 0, bt_started = 0\<rparr>" "[]" 5000 one_request "Bo_response 200 ''200 OK'' (Ok ())"]
    by (simp add: s1_def s2_def s0_def r_def)
  moreover have "open_step one_request s2 s"
    using open_step.sent [of s2 "[]" "(0, r)" "[]" one_request] by (simp add: s2_def s_def s0_def)
  ultimately have steps: "(open_step one_request)\<^sup>*\<^sup>* s0 s" by (meson converse_rtranclp_into_rtranclp rtranclp.rtrancl_refl)
  have fin: "open_loop_done s" by (simp add: open_loop_done_def s_def s0_def)
  have r: "r = Ok 5" by (simp add: r_def send_infer_def as_micros_def)
  obtain su where su: "collect_results list_hdr (map snd (ol_results s)) = Ret su"
    using collect_results_total [of "[r]" list_hdr] by (auto simp: r s_def list_hdr_def)
  from open_loop_exact [OF i steps, of list_hdr su] fin su
  have "bs_completed su = 1" "attempted su = f64_floor_u64 (f64_mul (f64_of_int 1) (as_secs_f64 (from_secs 1)))"
    by (simp_all add: one_request_def s_def r)
  with i steps fin su show ?thesis by blast
qed

end
