(* ===== verification/Spec2Isabelle.thy ===== *)
theory Spec2Isabelle
  imports Benchmark Conformance_Gateways Inferbench
begin

text \<open>
  Verification of the Rust parts of websocket-stt-bench: the benchmark's inference stub, its load generator,
  two gateways (\<open>rust-sync\<close> and \<open>rust-axum\<close>), the inference server, the conformance suite and the inference
  benchmark.

  \<^bold>\<open>The program.\<close> A client streams audio frames of 640 bytes over a WebSocket to a gateway. The gateway
  buffers the frames of a session and, once per flush interval, sends the buffered batch in one HTTP
  request to the inference server, which computes a deterministic stub result (checksum, zero crossings,
  rms, transcript) and answers after a simulated delay. The gateway forwards the result as a
  \<open>partial\<close> message that names the range of frames it covers, or an \<open>error\<close> message for the range. The load
  generator plays many clients with generated audio, checks that the ranges tile the frames it sent,
  recomputes the stub results bit by bit, and prints a summary. Before a gateway is measured, a conformance suite
  checks it case by case; a second benchmark posts batches to the inference server alone.

  \<^bold>\<open>The theories\<close>, in the order of their imports:

  \<^item> \<open>Prelude\<close>: result and panic types, durations and instants, generic lemmas. \<open>F64\<close> and \<open>Rust_F64\<close>: the
    finite, infinite and not-a-number values of \<open>f64\<close> as exact dyadic rationals with the rounding of the
    operations the code uses. \<open>Rust_Str\<close>, \<open>Rust_Io\<close>: decimal printing and parsing, splitting of strings,
    non-blocking reads and writes.
  \<^item> \<open>Stub\<close> models \<open>crates/stt-stub/src/lib.rs\<close>: \<open>compute_stub\<close> with its passes.
  \<^item> \<open>Payload\<close> and \<open>Verify\<close> model \<open>loadgen/rust/src/protocol.rs\<close> and \<open>verify.rs\<close>: \<open>frame_payload\<close>,
    \<open>validate\<close>, \<open>verify_partial\<close>, \<open>observe\<close> of \<open>Continuity\<close>, \<open>check_tail\<close>.
  \<^item> \<open>Gateway\<close>: the locale \<open>stt_gateway\<close>, the contract of a gateway as the load generator sees it (the messages
    sent to a client report its accepted frames in order, and every partial is genuine), and what the
    checks of the load generator make of such messages.
  \<^item> \<open>Inference_Server\<close> models \<open>services/inference-server/src/main.rs\<close>: configuration, \<open>infer\<close>, \<open>sample_latency\<close>, and
    the semaphore as the step relation \<open>srv_step\<close>.
  \<^item> \<open>Sync_Config\<close>, \<open>Sync_Http\<close>, \<open>Sync_Protocol\<close>, \<open>Sync_Inference\<close>, \<open>Sync_Pool\<close>, \<open>Sync_Session\<close>, \<open>Sync_Conn\<close>,
    \<open>Sync_Main\<close> model the files of \<open>services/rust-sync/src\<close>: \<open>from_env\<close>, \<open>feed\<close> of the handshake, the slot
    and pool state machine of thread B (\<open>slot_run\<close>, \<open>drive\<close>, \<open>submit\<close>, \<open>on_event\<close>, \<open>b_iteration\<close>), the
    connection (\<open>on_ready\<close>, \<open>on_timer\<close>, \<open>on_done\<close>, \<open>deliver\<close>) and the loop of thread A
    (\<open>a_iteration\<close>). \<open>Sync_System\<close> is the interleaving of both threads over their two channels
    (\<open>sys_step\<close>), and \<open>Sync_Contract\<close> interprets the contract on it.
  \<^item> \<open>Axum\<close> and \<open>Axum_Session\<close> model \<open>services/rust-axum/src\<close>: \<open>ax_context\<close>, \<open>request_partial\<close>, and
    \<open>handle_socket\<close> with \<open>flush_loop\<close> as the step relation \<open>ax_step\<close> over the shared buffer, the semaphore and
    the bounded channel; \<open>Axum_Contract\<close> interprets the contract on it.
  \<^item> \<open>Loadgen_Report\<close>, \<open>Loadgen_Session\<close>, \<open>Loadgen_Run\<close>, \<open>Loadgen_Books\<close> model \<open>loadgen/rust/src/main.rs\<close>: the
    counters and the samples file, \<open>process_inbound\<close> and the phases of \<open>run_session\<close>, and all sessions with
    the verifier thread interleaved over the shared counters (\<open>run_step\<close>). \<open>Loadgen_Measure\<close> holds what a run
    measures; \<open>Loadgen_Output\<close> the end of \<open>main\<close> (\<open>drain_samples\<close>, \<open>run_output\<close>) and the verifier's account.
  \<^item> \<open>Benchmark\<close> puts the load generator in front of a gateway.
  \<^item> \<open>Golden\<close> evaluates the stub on the first generated frame, the constant \<open>GOLDEN_ONE_FRAME\<close> of \<open>protocol.rs\<close>.
    \<open>Conformance\<close> models \<open>loadgen/rust/src/bin/stt-conformance.rs\<close>, each case (\<open>partial_schema_and_golden\<close>,
    \<open>multi_frame_golden\<close>, \<open>invalid_start_closes\<close>, \<open>invalid_frame_closes\<close>, \<open>flush_cadence\<close>, \<open>concurrent_isolation\<close>,
    \<open>normal_close\<close>) as a function of the events its sockets see; \<open>Conformance_Cases\<close> shows what the cases
    accept, and \<open>Conformance_Gateways\<close> runs the close-code cases against the handlers of both gateways.
  \<^item> \<open>Inferbench\<close> models \<open>loadgen/rust/src/inferbench.rs\<close> and \<open>bin/stt-inferbench.rs\<close>: the summary, \<open>validate_args\<close>,
    and the closed and the open loop as the step relations \<open>closed_step\<close> and \<open>open_step\<close>.

  \<^bold>\<open>What is shown.\<close> The stub: bounds of its counts, the error of its rms, and that one changed sample changes
  the checksum. The verifier: the continuity check accepts exactly the responses that list 1, 2, 3 and so
  on; an accepted session has every frame reported once; an honest partial raises no mismatch and a
  corrupted one does. \<open>rust-sync\<close>: handshake and response parsing do not depend on how TCP cuts the bytes;
  the pool conserves requests; timers are armed; thread A never panics; the messages of a connection tile
  its frames and every partial is the server's result for its frames, so that the verifier accepts them.
  \<open>rust-axum\<close>: the same for its sessions, one batch in flight, no frame lost. The inference server: admission
  and the pass header. The load generator: the failure counters, the schedule, the correctness counter of a
  run is zero exactly when every session was clean, a clean summary covers the audio, latencies are measured
  from the schedule, error frames and verified partials are counted exactly, and the samples file loses
  nothing. The composition: in front of either gateway the load generator raises no false alarm. The conformance
  suite: the golden and the multi-frame case accept exactly the right answers, a paced stream that
  passes carried only results of its own session's frames, and both gateways close with the codes the suite demands. The inference benchmark: the
  open loop conserves permits and requests and reports each once, and a tiny rate panics.

  \<^bold>\<open>Conventions.\<close> Fixed-width integers are words and wrap as in a release build; where a wrap or an index would
  panic the model returns \<open>Panic\<close>. Instants and durations are nanoseconds. Every loop is a function that
  recurses over the bytes, events or reads it is given, or a step of a relation, so no fuel is used.
  Hypotheses such as \<open>length ... < 2 ^ 64\<close> keep counters below their wrap-around. Generated audio, checksums and
  verification are executable.

  \<^bold>\<open>Parameters.\<close> JSON (serde), WebSocket framing and the accept key (tungstenite), HTTP clients and servers
  (reqwest, hyper, axum), \<open>hdrhistogram\<close>, the printing of floats and of debug values, random numbers, sockets and the
  clock are parameters of the definitions, or the nondeterminism of the step relations; what is assumed of them is stated in the
  theorems.

  \<^bold>\<open>Not modelled.\<close> Logging, building of runtimes, listeners and HTTP clients, name resolution, and the printing
  of the JSON summaries, which only call libraries; the clock behind the deadline of a single read in the
  conformance suite, whose expiry is an event; the gateways in other languages, of which nothing is claimed; the analysis and driver scripts and the deployment files.
\<close>

end
